(* ===== verification/Prelude.thy ===== *)
theory Prelude
  imports Main "HOL-Library.Word" "HOL-Library.Signed_Division" "HOL-Library.Monad_Syntax"
begin

text \<open>
  Shared material of the development: Go's 64-bit integers, panics as \<open>None\<close>, and the
  generic lemmas the components share.

  A Go \<open>int64\<close> (and \<open>time.Duration\<close>, and \<open>int\<close> on the 64-bit platforms the server is built
  for) is a \<open>64 word\<close> read by \<open>sint\<close>; a \<open>uint64\<close> is a \<open>64 word\<close> read by \<open>uint\<close>. \<open>+\<close>,
  \<open>-\<close> and \<open>*\<close> wrap as they do in Go; \<open><s\<close> and \<open><=s\<close> are the signed comparisons. A run-time
  panic (division by zero, \<open>bits.Div64\<close> overflow) is the value \<open>None\<close>.
\<close>

type_synonym int64 = "64 word"
type_synonym uint64 = "64 word"

named_theorems int64_simps \<open>reading Go integer operations through sint and uint\<close>
named_theorems go_string_simps \<open>evaluation of Go string functions\<close>

section \<open>Integers\<close>

abbreviation (input) MaxInt64 :: int64 where "MaxInt64 \<equiv> 0x7FFFFFFFFFFFFFFF"
abbreviation (input) MaxUint64 :: uint64 where "MaxUint64 \<equiv> 0xFFFFFFFFFFFFFFFF"

definition smax :: "int64 \<Rightarrow> int64 \<Rightarrow> int64" where
  "smax a b = (if a <s b then b else a)"

definition go_sdiv :: "int64 \<Rightarrow> int64 \<Rightarrow> int64 option" where
  "go_sdiv a b = (if b = 0 then None else Some (word_of_int (sint a sdiv sint b)))"

definition go_smod :: "int64 \<Rightarrow> int64 \<Rightarrow> int64 option" where
  "go_smod a b = (if b = 0 then None else Some (word_of_int (sint a smod sint b)))"

text \<open>The value of an \<open>int64\<close> and of an \<open>int\<close> that fits one.\<close>

definition fits64 :: "int \<Rightarrow> bool" where
  "fits64 i \<longleftrightarrow> - (2 ^ 63) \<le> i \<and> i < 2 ^ 63"

lemma sint_fits64 [simp]: "fits64 (sint (a :: int64))"
  using sint_ge [of a] sint_lt [of a] by (simp add: fits64_def)

lemma sint_bounds: "- 9223372036854775808 \<le> sint (a :: int64)" "sint (a :: int64) \<le> 9223372036854775807"
  using sint_ge [of a] sint_lt [of a] by simp_all

lemma sint_word_of_int64: "fits64 i \<Longrightarrow> sint (word_of_int i :: int64) = i"
  by (simp add: fits64_def signed_take_bit_int_eq_self_iff sint_sbintrunc')

lemma word_of_int_sint64 [simp]: "word_of_int (sint (a :: int64)) = a"
  by simp

lemma sint_eq_iff64: "(a :: int64) = b \<longleftrightarrow> sint a = sint b"
  by (metis word_of_int_sint64)

text \<open>Signed comparison and the three ring operations, where the exact result fits.\<close>

lemma sless_sint [int64_simps]: "(a :: int64) <s b \<longleftrightarrow> sint a < sint b"
  by (rule word_sless_alt)

lemma sle_sint [int64_simps]: "(a :: int64) <=s b \<longleftrightarrow> sint a \<le> sint b"
  by (rule word_sle_eq)

lemma sint_smax [int64_simps]: "sint (smax a b) = max (sint a) (sint b)"
  by (simp add: smax_def int64_simps)

lemma sint_add64: "fits64 (sint a + sint b) \<Longrightarrow> sint ((a :: int64) + b) = sint a + sint b"
  by (metis sint_word_of_int64 word_of_int_sint64 wi_hom_add)

lemma sint_sub64: "fits64 (sint a - sint b) \<Longrightarrow> sint ((a :: int64) - b) = sint a - sint b"
  by (metis sint_word_of_int64 word_of_int_sint64 wi_hom_sub)

lemma sint_mult64: "fits64 (sint a * sint b) \<Longrightarrow> sint ((a :: int64) * b) = sint a * sint b"
  by (metis sint_word_of_int64 word_of_int_sint64 wi_hom_mult)

lemma fits64_nonneg: "0 \<le> i \<Longrightarrow> fits64 i \<longleftrightarrow> i < 2 ^ 63"
  by (simp add: fits64_def)

lemma sint_MaxInt64 [int64_simps]: "sint (MaxInt64) = 2 ^ 63 - 1"
  by simp

text \<open>A non-negative \<open>int64\<close> reads the same signed and unsigned.\<close>

lemma uint_sint_nonneg: "0 \<le> sint (a :: int64) \<Longrightarrow> uint a = sint a"
proof -
  assume a: "0 \<le> sint a"
  have "uint a = uint (word_of_int (sint a) :: int64)" by simp
  also have "\<dots> = sint a mod 2 ^ 64"
    by (simp only: uint_word_of_int) simp
  also have "\<dots> = sint a"
    using a sint_lt [of a] by simp
  finally show ?thesis .
qed

lemma sint_word_of_uint: "uint (w :: int64) < 2 ^ 63 \<Longrightarrow> sint w = uint w"
  by (metis fits64_nonneg sint_word_of_int64 uint_ge_0 word_of_int_uint)

text \<open>Division rounded up, on the integers.\<close>

definition cdiv :: "int \<Rightarrow> int \<Rightarrow> int" where
  "cdiv a b = - ((- a) div b)"

lemma cdiv_div_mod: "0 < b \<Longrightarrow> cdiv a b = (if a mod b = 0 then a div b else a div b + 1)"
  by (simp add: cdiv_def zdiv_zminus1_eq_if)

lemma pos_le_div_iff: "0 < (b :: int) \<Longrightarrow> k \<le> a div b \<longleftrightarrow> k * b \<le> a"
proof
  assume b: "0 < b" and k: "k \<le> a div b"
  have "k * b \<le> (a div b) * b" using b k by simp
  also have "\<dots> \<le> a" using b pos_mod_sign [of b a] by (simp add: minus_mod_eq_div_mult [symmetric])
  finally show "k * b \<le> a" .
next
  assume b: "0 < b" and k: "k * b \<le> a"
  then have "(k * b) div b \<le> a div b" by (intro zdiv_mono1)
  then show "k \<le> a div b" using b by simp
qed

lemma pos_div_less_iff: "0 < (b :: int) \<Longrightarrow> a div b < k \<longleftrightarrow> a < k * b"
  using pos_le_div_iff [of b k a] by auto

lemma cdiv_le_iff: "0 < b \<Longrightarrow> cdiv a b \<le> k \<longleftrightarrow> a \<le> k * b"
proof -
  assume b: "0 < b"
  have "cdiv a b \<le> k \<longleftrightarrow> - k \<le> (- a) div b" by (auto simp: cdiv_def)
  also have "\<dots> \<longleftrightarrow> (- k) * b \<le> - a"
    by (rule pos_le_div_iff) (rule b)
  finally show ?thesis by simp
qed

lemma less_cdiv_iff: "0 < b \<Longrightarrow> k < cdiv a b \<longleftrightarrow> k * b < a"
  using cdiv_le_iff [of b a k] by auto

lemma cdiv_mult_ge: "0 < b \<Longrightarrow> a \<le> cdiv a b * b"
  using cdiv_le_iff [of b a "cdiv a b"] by simp

lemma cdiv_nonneg: "0 < b \<Longrightarrow> 0 \<le> a \<Longrightarrow> 0 \<le> cdiv a b"
  using less_cdiv_iff [of b "-1" a] by simp

lemma cdiv_0 [simp]: "cdiv 0 b = 0"
  by (simp add: cdiv_def)

lemma cdiv_1 [simp]: "cdiv a 1 = a"
  by (simp add: cdiv_def)

text \<open>
  \<open>math/bits\<close>: \<open>Mul64\<close> gives the 128-bit product as two words; \<open>Div64\<close> divides a 128-bit
  number by a word and panics when the divisor is zero or the quotient needs more than 64 bits.
\<close>

definition Mul64 :: "uint64 \<Rightarrow> uint64 \<Rightarrow> uint64 \<times> uint64" where
  "Mul64 x y = (word_of_int (uint x * uint y div 2 ^ 64), x * y)"

definition Div64 :: "uint64 \<Rightarrow> uint64 \<Rightarrow> uint64 \<Rightarrow> (uint64 \<times> uint64) option" where
  "Div64 hi lo y =
     (if y = 0 \<or> y \<le> hi then None
      else let n = uint hi * 2 ^ 64 + uint lo
           in Some (word_of_int (n div uint y), word_of_int (n mod uint y)))"

lemma Mul64_parts:
  "uint (fst (Mul64 x y)) * 2 ^ 64 + uint (snd (Mul64 x y)) = uint x * uint y"
  "uint (fst (Mul64 x y)) = uint x * uint y div 2 ^ 64"
proof -
  have "uint x * uint y < 2 ^ 64 * 2 ^ 64"
    using uint_lt2p [of x] uint_lt2p [of y] by (intro mult_strict_mono) simp_all
  then have "uint x * uint y div 2 ^ 64 < 2 ^ 64"
    by (simp add: div_less_iff_less_mult)
  then show hi: "uint (fst (Mul64 x y)) = uint x * uint y div 2 ^ 64"
    using pos_imp_zdiv_nonneg_iff [of "2 ^ 64" "uint x * uint y"]
    by (simp add: Mul64_def uint_word_of_int)
  show "uint (fst (Mul64 x y)) * 2 ^ 64 + uint (snd (Mul64 x y)) = uint x * uint y"
    unfolding hi by (simp add: Mul64_def uint_word_ariths)
qed

text \<open>Under the guard the code checks first, the division is exact.\<close>

lemma Div64_Mul64:
  assumes c: "0 < uint c" and guard: "\<not> c \<le> fst (Mul64 a b)"
  shows "Div64 (fst (Mul64 a b)) (snd (Mul64 a b)) c
           = Some (word_of_int (uint a * uint b div uint c), word_of_int (uint a * uint b mod uint c))"
    and "uint a * uint b div uint c < 2 ^ 64"
proof -
  from c have "c \<noteq> 0" by auto
  with guard show "Div64 (fst (Mul64 a b)) (snd (Mul64 a b)) c
      = Some (word_of_int (uint a * uint b div uint c), word_of_int (uint a * uint b mod uint c))"
    by (simp add: Div64_def Let_def Mul64_parts(1) [simplified])
  from guard have "uint a * uint b div 2 ^ 64 < uint c"
    by (simp add: word_le_def Mul64_parts(2))
  then have "uint a * uint b < uint c * 2 ^ 64"
    by (simp add: div_less_iff_less_mult)
  then show "uint a * uint b div uint c < 2 ^ 64"
    using c by (simp only: pos_div_less_iff mult.commute)
qed

lemma Mul64_too_big:
  assumes c: "0 < uint c" and "c \<le> fst (Mul64 a b)"
  shows "2 ^ 64 \<le> uint a * uint b div uint c"
proof -
  have "uint c \<le> uint a * uint b div 2 ^ 64"
    using assms(2) by (simp add: word_le_def Mul64_parts(2))
  then have "uint c * 2 ^ 64 \<le> uint a * uint b"
    by (simp add: pos_le_div_iff)
  then show ?thesis
    using c by (simp add: pos_le_div_iff mult.commute)
qed

section \<open>Lists\<close>

lemma sum_map_update:
  "i < length xs \<Longrightarrow> sum_list (map g (xs[i := x])) + g (xs ! i) = sum_list (map g xs) + (g x :: nat)"
  using member_le_sum_list [of "g (xs ! i)" "map g xs"] by (simp add: map_update sum_list_update)

end
