(* ===== verification/Types.thy ===== *)
theory Types
  imports Prelude
begin

text \<open>
  The request and response vocabulary of \<open>types.go\<close>: \<open>Limit\<close>, \<open>Rate\<close>, \<open>RequestEntry\<close>,
  \<open>ResponseEntry\<close> and the two normalisations \<open>EffectiveCost\<close> and \<open>EffectiveUnits\<close>. Record
  fields keep the Go names with a prefix per struct. A Go \<open>string\<close> is a list of bytes, which
  is HOL's \<open>string\<close> (a \<open>char\<close> is one byte). \<open>Err\<close> is an option, its values an own datatype
  of the errors the code can put there.
\<close>

text \<open>
  The errors of the program. \<open>ContextErr\<close> is what \<open>ctx.Err()\<close> returns; \<open>NetErr\<close> is an error
  of the operating system's network calls, \<open>NetErrClosed\<close> the \<open>net.ErrClosed\<close> of a closed
  client; the rest are the client's own errors (\<open>client/conn.go\<close>). \<open>CustomErr\<close> is an error of a
  custom throttler.
\<close>

datatype ctx_err = Canceled | DeadlineExceeded

datatype go_err =
    ContextErr ctx_err
  | ErrInvalidKey string
  | ErrEntryRejected
  | ErrCircuitOpen string
  | NetErrClosed
  | NetErr string
  | UnexpectedResponse string
  | EntryCountMismatch nat nat string
  | MalformedResult string
  | KeyMismatch string nat string
  | NothingPending string
  | CustomErr string

record rate =
  r_Units :: int64
  r_Period :: int64

record limit =
  l_Capacity :: int64
  l_Rate :: rate

record request_entry =
  q_Key :: string
  q_Limit :: limit
  q_Cost :: int64
  q_Peek :: bool

record response_entry =
  s_Key :: string
  s_Throttled :: bool
  s_Remaining :: int64
  s_RetryAfter :: int64
  s_Err :: "go_err option"

text \<open>The zero value a \<open>make([]ResponseEntry, n)\<close> holds.\<close>

definition zero_response :: response_entry where
  "zero_response = \<lparr>s_Key = [], s_Throttled = False, s_Remaining = 0, s_RetryAfter = 0, s_Err = None\<rparr>"

definition EffectiveCost :: "int64 \<Rightarrow> int64" where
  "EffectiveCost cost = (if cost <=s 0 then 1 else cost)"

definition EffectiveUnits :: "int64 \<Rightarrow> int64" where
  "EffectiveUnits units = (if units <=s 0 then 1 else units)"

lemma EffectiveCost_pos [simp]: "0 < sint (EffectiveCost c)"
  by (simp add: EffectiveCost_def int64_simps)

lemma EffectiveUnits_pos [simp]: "0 < sint (EffectiveUnits u)"
  by (simp add: EffectiveUnits_def int64_simps)

lemma EffectiveCost_id: "0 < sint c \<Longrightarrow> EffectiveCost c = c"
  by (simp add: EffectiveCost_def int64_simps)

lemma EffectiveUnits_id: "0 < sint u \<Longrightarrow> EffectiveUnits u = u"
  by (simp add: EffectiveUnits_def int64_simps)

lemma EffectiveCost_idem [simp]: "EffectiveCost (EffectiveCost c) = EffectiveCost c"
  by (rule EffectiveCost_id) simp

lemma EffectiveUnits_idem [simp]: "EffectiveUnits (EffectiveUnits u) = EffectiveUnits u"
  by (rule EffectiveUnits_id) simp

end
