(* ===== verification/Fnv1a.thy ===== *)
theory Fnv1a
  imports Prelude
begin

text \<open>
  \<open>internal/fnv1a/fnv1a.go\<close>: the 64-bit FNV-1a hash. The client picks a shard with it
  (\<open>client/client.go\<close>), the server a stripe (\<open>server/store.go\<close>); \<open>hash_index\<close> is the expression
  \<open>fnv1a.Hash(key) % uint64(n)\<close> both use, which panics for \<open>n = 0\<close>.
\<close>

unbundle bit_operations_syntax

definition offset64 :: uint64 where "offset64 = 14695981039346656037"
definition prime64 :: uint64 where "prime64 = 1099511628211"

fun hash_from :: "uint64 \<Rightarrow> string \<Rightarrow> uint64" where
  "hash_from h [] = h"
| "hash_from h (c # s) = hash_from ((h XOR of_char c) * prime64) s"

definition Hash :: "string \<Rightarrow> uint64" where
  "Hash s = hash_from offset64 s"

definition hash_index :: "string \<Rightarrow> nat \<Rightarrow> nat option" where
  "hash_index key n = (if n = 0 then None else Some (unat (Hash key) mod n))"

lemma hash_from_append: "hash_from h (a @ b) = hash_from (hash_from h a) b"
  by (induction h a rule: hash_from.induct) simp_all

lemma hash_index_Some: "0 < n \<Longrightarrow> \<exists>i < n. hash_index key n = Some i"
  by (simp add: hash_index_def)

lemma hash_index_bound: "hash_index key n = Some i \<Longrightarrow> i < n"
  by (auto simp: hash_index_def split: if_splits)

text \<open>One step of the hash is a bijection of the state: FNV-1a loses nothing per byte.\<close>

definition prime64_inv :: uint64 where "prime64_inv = 14886173955864302971"

lemma prime64_inverse: "prime64 * prime64_inv = 1"
  by (simp add: prime64_def prime64_inv_def)

lemma hash_step_inj: "(h XOR x) * prime64 = (h' XOR x) * prime64 \<longleftrightarrow> h = h'"
proof
  assume "(h XOR x) * prime64 = (h' XOR x) * prime64"
  then have "(h XOR x) * prime64 * prime64_inv = (h' XOR x) * prime64 * prime64_inv" by simp
  then have "h XOR x = h' XOR x" by (simp add: mult.assoc prime64_inverse)
  then have "(h XOR x) XOR x = (h' XOR x) XOR x" by simp
  then show "h = h'" by (simp add: xor.assoc)
qed simp

lemma hash_from_inj: "hash_from h s = hash_from h' s \<longleftrightarrow> h = h'"
  by (induction h s arbitrary: h' rule: hash_from.induct) (simp_all add: hash_step_inj)

lemma of_char_word_inj: "(of_char c :: uint64) = of_char d \<longleftrightarrow> c = d"
proof -
  have "unat (of_char x :: uint64) = of_char x" for x
  proof -
    have "of_char x < (2 :: nat) ^ 64" by (rule less_trans [OF nat_of_char_less_256]) simp
    then have "unat (of_nat (of_char x) :: uint64) = of_char x"
      by (simp add: unat_of_nat)
    then show ?thesis by (simp add: of_nat_of_char)
  qed
  then show ?thesis by (metis of_char_eq_iff)
qed

text \<open>
  Replacing a single byte of a key always changes its FNV-1a hash: no two keys of
  the same length that differ in one byte collide.
\<close>

lemma Hash_one_byte: "Hash (a @ c # b) = Hash (a @ d # b) \<longleftrightarrow> c = d"
proof -
  let ?h = "hash_from offset64 a"
  have "(?h XOR of_char c) * prime64 = (?h XOR of_char d) * prime64
      \<longleftrightarrow> (of_char c XOR ?h) * prime64 = (of_char d XOR ?h) * prime64"
    by (simp add: xor.commute)
  then show ?thesis
    by (simp add: Hash_def hash_from_append hash_from_inj hash_step_inj of_char_word_inj)
qed

end
