(* ===== verification/Store.thy ===== *)
theory Store
  imports Types Fnv1a "HOL-Library.Finite_Map"
begin

text \<open>
  \<open>server/store.go\<close>: the striped map from keys to buckets, with its two generations per stripe.

  Go's \<open>*bucketState\<close> pointers are modelled as they are: a bucket is an address into \<open>heap\<close>
  (holding its one field, \<open>tat\<close>; the mutex is the subject of \<open>Transactions\<close>), and \<open>hot\<close> and \<open>cold\<close> map keys to
  addresses. A bucket that leaves both maps stays in the heap, as it does in Go while a caller
  still holds it. \<open>None\<close> is a panic (the division by zero of an empty stripe list).
\<close>

type_synonym addr = nat

record stripe =
  hot :: "(string, addr) fmap"
  cold :: "(string, addr) fmap"

record store =
  stripes :: "stripe list"
  heap :: "int64 list"
  done_closed :: bool

definition DefaultStripes :: int64 where "DefaultStripes = 256"
definition DefaultGCInterval :: int64 where "DefaultGCInterval = 60 * 1000000000"

definition newStripe :: stripe where
  "newStripe = \<lparr>hot = fmempty, cold = fmempty\<rparr>"

text \<open>\<open>(*stripe).getOrCreate\<close>; \<open>&bucketState{}\<close> is a fresh heap cell holding zero.\<close>

definition getOrCreate :: "string \<Rightarrow> stripe \<Rightarrow> int64 list \<Rightarrow> addr \<times> stripe \<times> int64 list" where
  "getOrCreate key s h =
     (case fmlookup (hot s) key of
        Some b \<Rightarrow> (b, s, h)
      | None \<Rightarrow>
          (case fmlookup (cold s) key of
             Some b \<Rightarrow> (b, s\<lparr>hot := fmupd key b (hot s), cold := fmdrop key (cold s)\<rparr>, h)
           | None \<Rightarrow> (length h, s\<lparr>hot := fmupd key (length h) (hot s)\<rparr>, h @ [0])))"

definition rotate_stripe :: "stripe \<Rightarrow> stripe" where
  "rotate_stripe s = s\<lparr>cold := hot s, hot := fmempty\<rparr>"

definition stripe_size :: "stripe \<Rightarrow> nat" where
  "stripe_size s = fcard (fmdom (hot s)) + fcard (fmdom (cold s))"

definition stripe_sizes :: "stripe \<Rightarrow> nat \<times> nat" where
  "stripe_sizes s = (fcard (fmdom (hot s)), fcard (fmdom (cold s)))"

text \<open>\<open>newStore\<close> returns the store and the interval its GC loop is started with.\<close>

definition newStore :: "int64 \<Rightarrow> int64 \<Rightarrow> store \<times> int64" where
  "newStore numStripes gcInterval =
     (let n = (if numStripes <=s 0 then DefaultStripes else numStripes);
          g = (if gcInterval <=s 0 then DefaultGCInterval else gcInterval)
      in (\<lparr>stripes = replicate (nat (sint n)) newStripe, heap = [], done_closed = False\<rparr>, g))"

definition stripeFor :: "store \<Rightarrow> string \<Rightarrow> nat option" where
  "stripeFor st key = hash_index key (length (stripes st))"

text \<open>\<open>st.stripeFor(key).getOrCreate(key)\<close>, as every caller writes it.\<close>

definition store_get :: "store \<Rightarrow> string \<Rightarrow> (addr \<times> store) option" where
  "store_get st key = do {
     i \<leftarrow> stripeFor st key;
     let (b, s, h) = getOrCreate key (stripes st ! i) (heap st);
     Some (b, st\<lparr>stripes := (stripes st)[i := s], heap := h\<rparr>)
   }"

definition read_tat :: "store \<Rightarrow> addr \<Rightarrow> int64" where
  "read_tat st b = heap st ! b"

definition write_tat :: "store \<Rightarrow> addr \<Rightarrow> int64 \<Rightarrow> store" where
  "write_tat st b t = st\<lparr>heap := (heap st)[b := t]\<rparr>"

definition rotate_all :: "store \<Rightarrow> store" where
  "rotate_all st = st\<lparr>stripes := map rotate_stripe (stripes st)\<rparr>"

text \<open>One stripe of a turn; the loop takes them in order.\<close>

definition rotate_nth :: "store \<Rightarrow> nat \<Rightarrow> store" where
  "rotate_nth st j = st\<lparr>stripes := (stripes st)[j := rotate_stripe (stripes st ! j)]\<rparr>"

definition store_close :: "store \<Rightarrow> store" where
  "store_close st = st\<lparr>done_closed := True\<rparr>"

definition keyCountEstimate :: "store \<Rightarrow> nat" where
  "keyCountEstimate st = fold (\<lambda>s total. total + stripe_size s) (stripes st) 0"

definition keyCounts :: "store \<Rightarrow> nat \<times> nat" where
  "keyCounts st = fold (\<lambda>s (hot, cold). (hot + fst (stripe_sizes s), cold + snd (stripe_sizes s)))
     (stripes st) (0, 0)"

text \<open>
  The GC loop: a \<open>select\<close> over two tickers and the \<open>done\<close> channel. Each event is one turn of the
  loop, with the gauge values it publishes (hot, cold); a \<open>Done\<close> event, possible once the store is
  closed, ends the loop, and the events after it are not seen.
\<close>

datatype gc_event = GcTick | MetricsTick | Done

fun gc_turns :: "gc_event list \<Rightarrow> store \<Rightarrow> store \<times> (nat \<times> nat) list" where
  "gc_turns [] st = (st, [])"
| "gc_turns (GcTick # es) st =
     (let st' = rotate_all st; (st'', ms) = gc_turns es st' in (st'', keyCounts st' # ms))"
| "gc_turns (MetricsTick # es) st =
     (let (st'', ms) = gc_turns es st in (st'', keyCounts st # ms))"
| "gc_turns (Done # es) st = (st, [])"

definition gcLoop :: "gc_event list \<Rightarrow> store \<Rightarrow> store \<times> (nat \<times> nat) list" where
  "gcLoop es st = (let (st', ms) = gc_turns es st in (st', keyCounts st # ms))"

section \<open>The abstract view: a map from keys to TATs\<close>

text \<open>The address a key is bound to, if it is in either generation of its stripe.\<close>

definition stripe_addr :: "stripe \<Rightarrow> string \<Rightarrow> addr option" where
  "stripe_addr s key = (case fmlookup (hot s) key of Some b \<Rightarrow> Some b | None \<Rightarrow> fmlookup (cold s) key)"

definition bucket_addr :: "store \<Rightarrow> string \<Rightarrow> addr option" where
  "bucket_addr st key =
     (case stripeFor st key of None \<Rightarrow> None | Some i \<Rightarrow> stripe_addr (stripes st ! i) key)"

text \<open>A key without a bucket reads as the zero TAT of a fresh one.\<close>

definition tat_of :: "store \<Rightarrow> string \<Rightarrow> int64" where
  "tat_of st key = (case bucket_addr st key of None \<Rightarrow> 0 | Some b \<Rightarrow> heap st ! b)"

text \<open>
  Well-formedness: there is a stripe; a key sits in its own stripe only and in one generation only;
  every address is allocated, and no two keys share one.
\<close>

definition store_inv :: "store \<Rightarrow> bool" where
  "store_inv st \<longleftrightarrow>
     stripes st \<noteq> []
   \<and> (\<forall>i < length (stripes st). \<forall>k. stripe_addr (stripes st ! i) k \<noteq> None \<longrightarrow> stripeFor st k = Some i)
   \<and> (\<forall>s \<in> set (stripes st). \<forall>k. fmlookup (hot s) k = None \<or> fmlookup (cold s) k = None)
   \<and> (\<forall>k b. bucket_addr st k = Some b \<longrightarrow> b < length (heap st))
   \<and> (\<forall>k k' b. bucket_addr st k = Some b \<longrightarrow> bucket_addr st k' = Some b \<longrightarrow> k = k')"

section \<open>Operations and invariant\<close>

lemma stripe_addr_newStripe [simp]: "stripe_addr newStripe k = None"
  by (simp add: stripe_addr_def newStripe_def)

lemma newStore_stripes:
  "\<exists>n > 0. stripes (fst (newStore m g)) = replicate n newStripe"
  by (rule exI [of _ "nat (sint (if m <=s 0 then DefaultStripes else m))"])
    (auto simp: newStore_def Let_def DefaultStripes_def int64_simps)

lemma stripeFor_cong:
  "length (stripes st') = length (stripes st) \<Longrightarrow> stripeFor st' = stripeFor st"
  by (simp add: fun_eq_iff stripeFor_def)

lemma stripeFor_Some: "stripes st \<noteq> [] \<Longrightarrow> \<exists>i < length (stripes st). stripeFor st k = Some i"
  unfolding stripeFor_def by (rule hash_index_Some) simp

lemma stripeFor_bound: "stripeFor st k = Some i \<Longrightarrow> i < length (stripes st)"
  unfolding stripeFor_def by (rule hash_index_bound)

lemma newStore_inv: "store_inv (fst (newStore m g))"
proof -
  obtain n where "0 < n" "stripes (fst (newStore m g)) = replicate n newStripe"
    using newStore_stripes by blast
  then show ?thesis
    by (auto simp: store_inv_def bucket_addr_def newStripe_def stripe_addr_def
        dest: stripeFor_bound split: option.splits)
qed

lemma tat_of_newStore [simp]: "tat_of (fst (newStore m g)) k = 0"
proof -
  obtain n where "stripes (fst (newStore m g)) = replicate n newStripe"
    using newStore_stripes by blast
  then show ?thesis
    by (auto simp: tat_of_def bucket_addr_def dest: stripeFor_bound split: option.splits)
qed

text \<open>\<open>getOrCreate\<close> on one stripe binds the key and leaves every other key alone.\<close>

lemma getOrCreate_stripe:
  assumes "getOrCreate key s h = (b, s', h')"
  shows "stripe_addr s' key = Some b"
    and "k \<noteq> key \<Longrightarrow> stripe_addr s' k = stripe_addr s k"
    and "fmlookup (hot s') key = Some b"
    and "fmlookup (hot s) k = None \<or> fmlookup (cold s) k = None \<Longrightarrow>
         fmlookup (hot s') k = None \<or> fmlookup (cold s') k = None"
    and "case stripe_addr s key of Some a \<Rightarrow> b = a \<and> h' = h | None \<Rightarrow> b = length h \<and> h' = h @ [0]"
  using assms
  by (auto simp: getOrCreate_def stripe_addr_def split: option.splits if_splits)

lemma store_get_split:
  assumes "store_get st key = Some (b, st')"
  obtains i s h where "stripeFor st key = Some i" "i < length (stripes st)"
    "getOrCreate key (stripes st ! i) (heap st) = (b, s, h)"
    "st' = st\<lparr>stripes := (stripes st)[i := s], heap := h\<rparr>"
proof -
  from assms obtain i where i: "stripeFor st key = Some i"
    and st': "(let (b, s, h) = getOrCreate key (stripes st ! i) (heap st)
      in Some (b, st\<lparr>stripes := (stripes st)[i := s], heap := h\<rparr>)) = Some (b, st')"
    by (auto simp: store_get_def bind_eq_Some_conv)
  obtain b' s h where g: "getOrCreate key (stripes st ! i) (heap st) = (b', s, h)"
    by (cases "getOrCreate key (stripes st ! i) (heap st)")
  with st' have "b' = b" "st' = st\<lparr>stripes := (stripes st)[i := s], heap := h\<rparr>" by auto
  with i g stripeFor_bound [OF i] that show thesis by blast
qed

lemma store_get_addr:
  assumes get: "store_get st key = Some (b, st')" and inv: "store_inv st"
  shows "bucket_addr st' = (bucket_addr st)(key \<mapsto> b)"
    and "case bucket_addr st key of Some a \<Rightarrow> b = a \<and> heap st' = heap st
         | None \<Rightarrow> b = length (heap st) \<and> heap st' = heap st @ [0]"
proof -
  obtain i s h where i: "stripeFor st key = Some i" "i < length (stripes st)"
    and g: "getOrCreate key (stripes st ! i) (heap st) = (b, s, h)"
    and st': "st' = st\<lparr>stripes := (stripes st)[i := s], heap := h\<rparr>"
    using get by (rule store_get_split)
  note gs = getOrCreate_stripe [OF g]
  show "bucket_addr st' = (bucket_addr st)(key \<mapsto> b)"
  proof
    fix k
    have "stripeFor st' k = stripeFor st k" by (simp add: st' stripeFor_def)
    then show "bucket_addr st' k = ((bucket_addr st)(key \<mapsto> b)) k"
      using i gs(1,2) by (auto simp: bucket_addr_def st' nth_list_update split: option.splits)
  qed
  show "case bucket_addr st key of Some a \<Rightarrow> b = a \<and> heap st' = heap st
         | None \<Rightarrow> b = length (heap st) \<and> heap st' = heap st @ [0]"
    using i gs(5) by (auto simp: bucket_addr_def st' split: option.splits)
qed

lemma store_get_total: "store_inv st \<Longrightarrow> \<exists>b st'. store_get st key = Some (b, st')"
  using stripeFor_Some [of st key]
  by (auto simp: store_inv_def store_get_def split: prod.splits)

lemma store_get_inv:
  assumes get: "store_get st key = Some (b, st')" and inv: "store_inv st"
  shows "store_inv st'"
proof -
  obtain i s h where i: "stripeFor st key = Some i" "i < length (stripes st)"
    and g: "getOrCreate key (stripes st ! i) (heap st) = (b, s, h)"
    and st': "st' = st\<lparr>stripes := (stripes st)[i := s], heap := h\<rparr>"
    using get by (rule store_get_split)
  note gs = getOrCreate_stripe [OF g] and addr = store_get_addr [OF get inv]
  have sf: "stripeFor st' = stripeFor st" by (rule stripeFor_cong) (simp add: st')
  have own: "\<forall>j < length (stripes st). \<forall>k. stripe_addr (stripes st ! j) k \<noteq> None \<longrightarrow> stripeFor st k = Some j"
    and gen: "\<forall>s \<in> set (stripes st). \<forall>k. fmlookup (hot s) k = None \<or> fmlookup (cold s) k = None"
    and alloc: "\<forall>k b. bucket_addr st k = Some b \<longrightarrow> b < length (heap st)"
    and inj: "\<forall>k k' b. bucket_addr st k = Some b \<longrightarrow> bucket_addr st k' = Some b \<longrightarrow> k = k'"
    using inv by (simp_all add: store_inv_def)
  have "stripes st' \<noteq> []" using i(2) by (auto simp: st')
  moreover have "\<forall>j < length (stripes st'). \<forall>k. stripe_addr (stripes st' ! j) k \<noteq> None \<longrightarrow> stripeFor st' k = Some j"
  proof (intro allI impI)
    fix j k assume j: "j < length (stripes st')" and k: "stripe_addr (stripes st' ! j) k \<noteq> None"
    show "stripeFor st' k = Some j"
      using i j k own gs(1,2) unfolding sf
      by (cases "j = i"; cases "k = key") (auto simp: st' nth_list_update)
  qed
  moreover have "\<forall>s \<in> set (stripes st'). \<forall>k. fmlookup (hot s) k = None \<or> fmlookup (cold s) k = None"
  proof (intro ballI allI)
    fix s' k assume "s' \<in> set (stripes st')"
    then consider "s' = s" | "s' \<in> set (stripes st)"
      using set_update_subset_insert by (force simp: st')
    then show "fmlookup (hot s') k = None \<or> fmlookup (cold s') k = None"
    proof cases
      case 1
      then show ?thesis using gs(4) gen [rule_format, OF nth_mem [OF i(2)]] by simp
    next
      case 2
      then show ?thesis using gen by simp
    qed
  qed
  moreover have "\<forall>k b. bucket_addr st' k = Some b \<longrightarrow> b < length (heap st')"
  proof (intro allI impI)
    fix k a assume "bucket_addr st' k = Some a"
    then have "k = key \<and> a = b \<or> bucket_addr st k = Some a"
      unfolding addr(1) by (auto split: if_splits)
    moreover have "b < length (heap st')" "length (heap st) \<le> length (heap st')"
      using addr(2) alloc by (cases "bucket_addr st key"; simp)+
    ultimately show "a < length (heap st')"
      using alloc by (meson less_le_trans)
  qed
  moreover have "\<forall>k k' b. bucket_addr st' k = Some b \<longrightarrow> bucket_addr st' k' = Some b \<longrightarrow> k = k'"
  proof (intro allI impI)
    fix k k' a assume k: "bucket_addr st' k = Some a" "bucket_addr st' k' = Some a"
    have fresh: "x = key" if "bucket_addr st x = Some b" for x
    proof (cases "bucket_addr st key")
      case None
      with addr(2) have "b = length (heap st)" by simp
      with that alloc show ?thesis by blast
    next
      case (Some a)
      with addr(2) that inj show ?thesis by auto
    qed
    have "k = key \<longleftrightarrow> a = b" "k' = key \<longleftrightarrow> a = b"
      using k fresh unfolding addr(1) by (metis fun_upd_apply option.inject)+
    with k inj show "k = k'"
      unfolding addr(1) by (metis fun_upd_apply)
  qed
  ultimately show ?thesis by (simp add: store_inv_def)
qed

lemma store_get_tat:
  assumes get: "store_get st key = Some (b, st')" and inv: "store_inv st"
  shows "tat_of st' = tat_of st"
proof
  fix k
  note addr = store_get_addr [OF get inv]
  have alloc: "a < length (heap st)" if "bucket_addr st x = Some a" for x a
    using inv that by (simp add: store_inv_def)
  show "tat_of st' k = tat_of st k"
  proof (cases "bucket_addr st key")
    case None
    with addr have "bucket_addr st' = (bucket_addr st)(key \<mapsto> length (heap st))"
      "heap st' = heap st @ [0]" by auto
    with None alloc show ?thesis by (auto simp: tat_of_def nth_append split: option.splits)
  next
    case (Some a)
    with addr have "bucket_addr st' = (bucket_addr st)(key \<mapsto> a)" "heap st' = heap st" by auto
    with Some show ?thesis by (auto simp: tat_of_def split: option.splits)
  qed
qed

lemma write_tat_sel [simp]:
  "stripes (write_tat st b v) = stripes st" "heap (write_tat st b v) = (heap st)[b := v]"
  "done_closed (write_tat st b v) = done_closed st"
  by (simp_all add: write_tat_def)

lemma stripeFor_write [simp]: "stripeFor (write_tat st b v) = stripeFor st"
  by (rule stripeFor_cong) simp

lemma bucket_addr_write [simp]: "bucket_addr (write_tat st b v) = bucket_addr st"
  by (simp add: fun_eq_iff bucket_addr_def split: option.split)

lemma store_inv_write [simp]: "store_inv st \<Longrightarrow> store_inv (write_tat st b v)"
  by (simp add: store_inv_def)

lemma tat_of_write:
  assumes inv: "store_inv st" and own: "bucket_addr st key = Some b"
  shows "tat_of (write_tat st b v) = (tat_of st)(key := v)"
proof
  fix k
  have other: "a \<noteq> b" if "bucket_addr st k = Some a" "k \<noteq> key" for a
    using inv own that by (auto simp: store_inv_def)
  have "b < length (heap st)" using inv own by (simp add: store_inv_def)
  with own other show "tat_of (write_tat st b v) k = ((tat_of st)(key := v)) k"
    by (cases "k = key") (auto simp: tat_of_def split: option.splits)
qed

lemma read_tat_owner: "bucket_addr st k = Some b \<Longrightarrow> read_tat st b = tat_of st k"
  by (simp add: read_tat_def tat_of_def)

section \<open>The interface the throttler uses\<close>

text \<open>
  What \<open>InMemoryThrottler\<close> relies on: handing out a key's bucket binds the key (keeping a binding
  it has) and changes no TAT; reading a handed-out bucket gives the key's TAT; writing one changes
  exactly that key's TAT.
\<close>

locale bucket_store =
  fixes get :: "'st \<Rightarrow> string \<Rightarrow> (addr \<times> 'st) option"
    and read_b :: "'st \<Rightarrow> addr \<Rightarrow> int64"
    and write_b :: "'st \<Rightarrow> addr \<Rightarrow> int64 \<Rightarrow> 'st"
    and owner :: "'st \<Rightarrow> string \<Rightarrow> addr option"
    and tat :: "'st \<Rightarrow> string \<Rightarrow> int64"
    and ok :: "'st \<Rightarrow> bool"
  assumes get_total: "ok st \<Longrightarrow> \<exists>b st'. get st k = Some (b, st')"
    and get_ok: "ok st \<Longrightarrow> get st k = Some (b, st') \<Longrightarrow> ok st'"
    and get_owner: "ok st \<Longrightarrow> get st k = Some (b, st') \<Longrightarrow> owner st' = (owner st)(k \<mapsto> b)"
    and get_keeps: "ok st \<Longrightarrow> get st k = Some (b, st') \<Longrightarrow> owner st k = Some a \<Longrightarrow> a = b"
    and get_tat: "ok st \<Longrightarrow> get st k = Some (b, st') \<Longrightarrow> tat st' = tat st"
    and read_owner: "ok st \<Longrightarrow> owner st k = Some b \<Longrightarrow> read_b st b = tat st k"
    and write_ok: "ok st \<Longrightarrow> ok (write_b st b v)"
    and write_owner: "owner (write_b st b v) = owner st"
    and write_tat: "ok st \<Longrightarrow> owner st k = Some b \<Longrightarrow> tat (write_b st b v) = (tat st)(k := v)"
begin

lemma get_effect:
  assumes "ok st"
  obtains b st' where "get st k = Some (b, st')" "ok st'" "owner st' = (owner st)(k \<mapsto> b)"
    "tat st' = tat st" "read_b st' b = tat st k"
proof -
  obtain b st' where g: "get st k = Some (b, st')" using get_total [OF assms] by blast
  note facts = get_ok [OF assms g] get_owner [OF assms g] get_tat [OF assms g]
  have "read_b st' b = tat st k"
    using read_owner [OF facts(1), of k b] facts(2,3) by simp
  with g facts that show thesis by blast
qed

lemma get_preserves_owner:
  assumes "ok st" "get st k = Some (b, st')" "owner st k' = Some a"
  shows "owner st' k' = Some a"
  using get_owner [OF assms(1,2)] get_keeps [OF assms(1,2)] assms(3) by auto

end

interpretation buckets: bucket_store store_get read_tat write_tat bucket_addr tat_of store_inv
proof unfold_locales
  fix st k b st' a
  assume st: "store_inv st"
  show "\<exists>b st'. store_get st k = Some (b, st')" using st by (rule store_get_total)
  assume g: "store_get st k = Some (b, st')"
  show "store_inv st'" using g st by (rule store_get_inv)
  show "bucket_addr st' = (bucket_addr st)(k \<mapsto> b)" using g st by (rule store_get_addr)
  show "tat_of st' = tat_of st" using g st by (rule store_get_tat)
  show "a = b" if "bucket_addr st k = Some a" using store_get_addr(2) [OF g st] that by simp
qed (simp_all add: read_tat_owner tat_of_write)

section \<open>Garbage collection\<close>

text \<open>A key is recent when its bucket is in the hot generation.\<close>

definition recent :: "store \<Rightarrow> string \<Rightarrow> bool" where
  "recent st key = (case stripeFor st key of None \<Rightarrow> False
     | Some i \<Rightarrow> fmlookup (hot (stripes st ! i)) key \<noteq> None)"

lemma store_get_recent:
  assumes "store_get st key = Some (b, st')"
  shows "recent st' key" and "recent st k \<Longrightarrow> recent st' k"
proof -
  obtain i s h where i: "stripeFor st key = Some i" "i < length (stripes st)"
    and g: "getOrCreate key (stripes st ! i) (heap st) = (b, s, h)"
    and st': "st' = st\<lparr>stripes := (stripes st)[i := s], heap := h\<rparr>"
    using assms by (rule store_get_split)
  have sf: "stripeFor st' = stripeFor st" by (rule stripeFor_cong) (simp add: st')
  show "recent st' key"
    using getOrCreate_stripe(3) [OF g] i unfolding recent_def sf by (simp add: st')
  show "recent st' k" if "recent st k"
  proof -
    have "fmlookup (hot (stripes st ! i)) k \<noteq> None \<Longrightarrow> fmlookup (hot s) k \<noteq> None"
      using g by (auto simp: getOrCreate_def split: option.splits)
    with that i show ?thesis
      unfolding recent_def sf by (auto simp: st' nth_list_update split: option.splits)
  qed
qed

lemma recent_write [simp]: "recent (write_tat st b v) = recent st"
  by (simp add: fun_eq_iff recent_def split: option.split)

lemma rotate_all_sel [simp]:
  "stripes (rotate_all st) = map rotate_stripe (stripes st)" "heap (rotate_all st) = heap st"
  "done_closed (rotate_all st) = done_closed st"
  by (simp_all add: rotate_all_def)

lemma stripeFor_rotate [simp]: "stripeFor (rotate_all st) = stripeFor st"
  by (rule stripeFor_cong) simp

lemma bucket_addr_rotate:
  "bucket_addr (rotate_all st) k = (if recent st k then bucket_addr st k else None)"
  by (auto simp: bucket_addr_def recent_def rotate_stripe_def stripe_addr_def
      dest!: stripeFor_bound split: option.split)

lemma recent_rotate [simp]: "\<not> recent (rotate_all st) k"
  by (auto simp: recent_def rotate_stripe_def dest!: stripeFor_bound split: option.split)

lemma rotate_inv:
  assumes inv: "store_inv st"
  shows "store_inv (rotate_all st)"
proof -
  have own: "stripeFor st k = Some i"
    if "i < length (stripes st)" "stripe_addr (rotate_stripe (stripes st ! i)) k \<noteq> None" for i k
  proof -
    have "stripe_addr (stripes st ! i) k \<noteq> None"
      using that(2) by (auto simp: rotate_stripe_def stripe_addr_def split: option.splits)
    with that(1) inv show ?thesis unfolding store_inv_def by blast
  qed
  show ?thesis
    using inv own unfolding store_inv_def bucket_addr_rotate
    by (auto simp: rotate_stripe_def split: if_splits)
qed

text \<open>A rotation keeps exactly the recent keys, with their TATs; the others read as fresh.\<close>

lemma tat_of_rotate: "tat_of (rotate_all st) k = (if recent st k then tat_of st k else 0)"
  by (auto simp: tat_of_def bucket_addr_rotate split: option.split)

text \<open>One stripe at a time.\<close>

lemma rotate_nth_sel [simp]:
  "heap (rotate_nth st j) = heap st" "length (stripes (rotate_nth st j)) = length (stripes st)"
  by (simp_all add: rotate_nth_def)

lemma stripe_addr_rotate_nth:
  assumes "stripe_addr (stripes (rotate_nth st j) ! i) k = Some b" "i < length (stripes st)"
  shows "stripe_addr (stripes st ! i) k = Some b"
  using assms
  by (cases "i = j") (auto simp: rotate_nth_def rotate_stripe_def stripe_addr_def split: option.splits)

lemma stripeFor_rotate_nth [simp]: "stripeFor (rotate_nth st j) = stripeFor st"
  by (rule stripeFor_cong) simp

lemma bucket_addr_rotate_nth:
  "bucket_addr (rotate_nth st j) k = Some b \<Longrightarrow> bucket_addr st k = Some b"
  by (auto simp: bucket_addr_def intro: stripe_addr_rotate_nth dest: stripeFor_bound split: option.splits)

lemma rotate_nth_inv:
  assumes inv: "store_inv st" and j: "j < length (stripes st)"
  shows "store_inv (rotate_nth st j)"
proof -
  have gen: "\<forall>s \<in> set (stripes st). \<forall>k. fmlookup (hot s) k = None \<or> fmlookup (cold s) k = None"
    using inv by (simp add: store_inv_def)
  have "fmlookup (hot s) k = None \<or> fmlookup (cold s) k = None" if "s \<in> set (stripes (rotate_nth st j))" for s k
  proof -
    from that consider "s = rotate_stripe (stripes st ! j)" | "s \<in> set (stripes st)"
      using set_update_subset_insert by (fastforce simp: rotate_nth_def)
    then show ?thesis
    proof cases
      case 1
      then show ?thesis by (simp add: rotate_stripe_def)
    next
      case 2
      show ?thesis by (rule gen [rule_format, OF 2])
    qed
  qed
  moreover have "stripes (rotate_nth st j) \<noteq> []" using j by (auto simp: rotate_nth_def)
  moreover have "stripeFor (rotate_nth st j) k = Some i"
    if "i < length (stripes (rotate_nth st j))" "stripe_addr (stripes (rotate_nth st j) ! i) k \<noteq> None" for i k
    using that stripe_addr_rotate_nth [of st j i k] inv unfolding store_inv_def by fastforce
  moreover have "b < length (heap st)" if "bucket_addr (rotate_nth st j) k = Some b" for k b
    using bucket_addr_rotate_nth [OF that] inv by (auto simp: store_inv_def)
  moreover have "k = k'" if "bucket_addr (rotate_nth st j) k = Some b" "bucket_addr (rotate_nth st j) k' = Some b" for k k' b
    using that [THEN bucket_addr_rotate_nth] inv by (auto simp: store_inv_def)
  ultimately show ?thesis unfolding store_inv_def by auto
qed

lemma rotate_nth_stripe:
  assumes "stripeFor st k \<noteq> Some j"
  shows "bucket_addr (rotate_nth st j) k = bucket_addr st k" "recent (rotate_nth st j) k = recent st k"
  using assms
  by (auto simp: bucket_addr_def recent_def rotate_nth_def [of st j, THEN arg_cong [of _ _ stripes]] split: option.split)

lemma rotate_nth_recent:
  assumes "recent st k"
  shows "bucket_addr (rotate_nth st j) k = bucket_addr st k"
proof (cases "stripeFor st k = Some j")
  case True
  then have "j < length (stripes st)" by (rule stripeFor_bound)
  with True assms show ?thesis
    by (auto simp: bucket_addr_def recent_def stripe_addr_def)
      (simp add: rotate_nth_def rotate_stripe_def)
qed (rule rotate_nth_stripe(1))

lemma rotated_twice:
  assumes "stripeFor st k = Some j"
  shows "bucket_addr (rotate_nth (rotate_nth st j) j) k = None"
  using assms stripeFor_bound [OF assms]
  by (simp add: bucket_addr_def) (simp add: rotate_nth_def rotate_stripe_def stripe_addr_def)

lemma rotate_all_nth: "rotate_all st = fold (\<lambda>j st. rotate_nth st j) [0..<length (stripes st)] st"
proof -
  have "fold (\<lambda>j st. rotate_nth st j) [0..<n] st
      = st\<lparr>stripes := map rotate_stripe (take n (stripes st)) @ drop n (stripes st)\<rparr>" if "n \<le> length (stripes st)" for n
    using that
  proof (induction n)
    case (Suc n)
    then have n: "n < length (stripes st)" by simp
    have "(map rotate_stripe (take n (stripes st)) @ drop n (stripes st))[n := rotate_stripe (stripes st ! n)]
        = map rotate_stripe (take (Suc n) (stripes st)) @ drop (Suc n) (stripes st)"
      using n by (simp add: list_update_append Cons_nth_drop_Suc [symmetric] take_Suc_conv_app_nth)
    with Suc n show ?case by (simp add: rotate_nth_def nth_append)
  qed simp
  from this [of "length (stripes st)"] show ?thesis by (simp add: rotate_all_def)
qed

lemma tat_of_rotate_nth: "recent st k \<Longrightarrow> tat_of (rotate_nth st j) k = tat_of st k"
  by (simp add: tat_of_def rotate_nth_recent split: option.split)

lemma not_recent_rotate_nth:
  assumes "stripeFor st k = Some j"
  shows "\<not> recent (rotate_nth st j) k"
  using assms stripeFor_bound [OF assms] by (simp add: recent_def) (simp add: rotate_nth_def rotate_stripe_def)

lemma rotate_nth_drops:
  assumes "stripeFor st k = Some j" "\<not> recent st k"
  shows "bucket_addr (rotate_nth st j) k = None"
  using assms stripeFor_bound [OF assms(1)]
  by (simp add: bucket_addr_def recent_def) (simp add: rotate_nth_def rotate_stripe_def stripe_addr_def)

lemma gc_turns_inv: "store_inv st \<Longrightarrow> store_inv (fst (gc_turns es st))"
  by (induction es st rule: gc_turns.induct) (auto simp: rotate_inv Let_def case_prod_beta)

section \<open>Counting keys\<close>

lemma fold_add_sum: "fold (\<lambda>s total. total + f s) xs (n :: nat) = n + sum_list (map f xs)"
  by (induction xs arbitrary: n) simp_all

lemma fold_add_pair:
  "fold (\<lambda>s (h, c). (h + f s, c + g s)) xs (m :: nat, n :: nat)
     = (m + sum_list (map f xs), n + sum_list (map g xs))"
  by (induction xs arbitrary: m n) simp_all

lemma stripe_size_card:
  assumes "\<forall>k. fmlookup (hot s) k = None \<or> fmlookup (cold s) k = None"
  shows "stripe_size s = card {k. stripe_addr s k \<noteq> None}" "finite {k. stripe_addr s k \<noteq> None}"
proof -
  have eq: "{k. stripe_addr s k \<noteq> None} = fset (fmdom (hot s)) \<union> fset (fmdom (cold s))"
    by (auto simp: stripe_addr_def fmdom'_def fmlookup_dom_iff split: option.splits)
  have disj: "fset (fmdom (hot s)) \<inter> fset (fmdom (cold s)) = {}"
  proof (rule ccontr)
    assume "fset (fmdom (hot s)) \<inter> fset (fmdom (cold s)) \<noteq> {}"
    then obtain k where "k |\<in>| fmdom (hot s)" "k |\<in>| fmdom (cold s)" by auto
    then obtain a b where "fmlookup (hot s) k = Some a" "fmlookup (cold s) k = Some b"
      by (auto simp: fmlookup_dom_iff)
    then show False using assms [rule_format, of k] by simp
  qed
  show "stripe_size s = card {k. stripe_addr s k \<noteq> None}"
    unfolding eq stripe_size_def using disj by (simp add: card_Un_disjoint fcard.rep_eq)
  show "finite {k. stripe_addr s k \<noteq> None}" unfolding eq by simp
qed

lemma bucket_keys_by_stripe:
  assumes "store_inv st"
  shows "{k. bucket_addr st k \<noteq> None} = (\<Union>i \<in> {..<length (stripes st)}. {k. stripe_addr (stripes st ! i) k \<noteq> None})"
  using assms
  by (fastforce simp: store_inv_def bucket_addr_def dest: stripeFor_bound split: option.splits)

lemma keyCountEstimate_card:
  assumes inv: "store_inv st"
  shows "keyCountEstimate st = card {k. bucket_addr st k \<noteq> None}"
proof -
  let ?K = "\<lambda>i. {k. stripe_addr (stripes st ! i) k \<noteq> None}" and ?n = "length (stripes st)"
  have gen: "\<forall>k. fmlookup (hot s) k = None \<or> fmlookup (cold s) k = None" if "s \<in> set (stripes st)" for s
    using inv that by (simp add: store_inv_def)
  have "keyCountEstimate st = (\<Sum>i < ?n. stripe_size (stripes st ! i))"
    by (simp add: keyCountEstimate_def fold_add_sum sum_list_sum_nth atLeast0LessThan)
  also have "\<dots> = (\<Sum>i < ?n. card (?K i))"
    by (rule sum.cong) (simp_all add: stripe_size_card(1) [OF gen])
  also have "\<dots> = card (\<Union>i \<in> {..<?n}. ?K i)"
  proof (rule card_UN_disjoint [symmetric])
    show "\<forall>i \<in> {..<?n}. finite (?K i)"
      using stripe_size_card(2) [OF gen, OF nth_mem] by blast
    have "stripeFor st k = Some i" if "i < ?n" "k \<in> ?K i" for i k
      using inv that unfolding store_inv_def by blast
    then show "\<forall>i \<in> {..<?n}. \<forall>j \<in> {..<?n}. i \<noteq> j \<longrightarrow> ?K i \<inter> ?K j = {}"
      by (metis (lifting) disjoint_iff lessThan_iff option.inject)
  qed simp
  finally show ?thesis using bucket_keys_by_stripe [OF inv] by simp
qed

lemma keyCounts_sum: "fst (keyCounts st) + snd (keyCounts st) = keyCountEstimate st"
  by (simp add: keyCounts_def keyCountEstimate_def fold_add_pair fold_add_sum stripe_sizes_def
      stripe_size_def sum_list_addf)

section \<open>Histories of a store\<close>

text \<open>
  Everything the program ever does to a store, in any order: touching a key (every request), writing
  a bucket that was handed out earlier (possibly one that has left the maps since), the rotation of one
  stripe in a turn of the GC loop (there is none past the last stripe), and closing.
\<close>

datatype store_event = Touch string | Write addr int64 | Rotate nat | Close

fun store_op :: "store_event \<Rightarrow> store \<Rightarrow> store option" where
  "store_op (Touch k) st = map_option snd (store_get st k)"
| "store_op (Write b v) st = Some (write_tat st b v)"
| "store_op (Rotate j) st = Some (if j < length (stripes st) then rotate_nth st j else st)"
| "store_op Close st = Some (store_close st)"

fun store_ops :: "store_event list \<Rightarrow> store \<Rightarrow> store option" where
  "store_ops [] st = Some st"
| "store_ops (x # xs) st = do {st' \<leftarrow> store_op x st; store_ops xs st'}"

lemma store_close_sel [simp]:
  "stripes (store_close st) = stripes st" "heap (store_close st) = heap st"
  by (simp_all add: store_close_def)

lemma stripeFor_close [simp]: "stripeFor (store_close st) = stripeFor st"
  by (rule stripeFor_cong) simp

lemma bucket_addr_close [simp]: "bucket_addr (store_close st) = bucket_addr st"
  by (simp add: fun_eq_iff bucket_addr_def split: option.split)

lemma recent_close [simp]: "recent (store_close st) = recent st"
  by (simp add: fun_eq_iff recent_def split: option.split)

lemma store_inv_close: "store_inv st \<Longrightarrow> store_inv (store_close st)"
  by (simp add: store_inv_def)

lemma store_op_inv: "store_inv st \<Longrightarrow> store_op x st = Some st' \<Longrightarrow> store_inv st'"
  by (cases x) (auto simp: rotate_nth_inv store_inv_close buckets.get_ok)

lemma store_op_stripeFor: "store_op x st = Some st' \<Longrightarrow> stripeFor st' = stripeFor st"
  by (cases x) (auto elim!: store_get_split intro: stripeFor_cong)

lemma store_ops_stripeFor: "store_ops xs st = Some st' \<Longrightarrow> stripeFor st' = stripeFor st"
  by (induction xs arbitrary: st) (auto simp: bind_eq_Some_conv dest!: store_op_stripeFor)

lemma store_op_total: "store_inv st \<Longrightarrow> \<exists>st'. store_op x st = Some st'"
  by (cases x) (use store_get_total in force)+

lemma store_ops_total_inv: "store_inv st \<Longrightarrow> \<exists>st'. store_ops xs st = Some st' \<and> store_inv st'"
proof (induction xs arbitrary: st)
  case (Cons x xs)
  obtain st1 where "store_op x st = Some st1" using store_op_total [OF Cons.prems] by blast
  with Cons.IH [of st1] store_op_inv [OF Cons.prems] show ?case by auto
qed simp

text \<open>Between two rotations of its stripe a recent key stays recent and keeps its bucket.\<close>

lemma store_op_keeps_recent:
  assumes inv: "store_inv st" and x: "stripeFor st key = Some j" "x \<noteq> Rotate j" and op: "store_op x st = Some st'"
    and key: "recent st key" "bucket_addr st key = Some b"
  shows "recent st' key \<and> bucket_addr st' key = Some b"
proof (cases x)
  case (Touch k)
  with op obtain a where g: "store_get st k = Some (a, st')" by auto
  show ?thesis
    using store_get_recent(2) [OF g key(1)] buckets.get_preserves_owner [OF inv g key(2)] by simp
next
  case (Rotate i)
  with x have "stripeFor st key \<noteq> Some i" by simp
  with op key Rotate rotate_nth_stripe [of st key i] show ?thesis by auto
qed (use op key in auto)

lemma store_ops_keep_recent:
  assumes "store_inv st" "stripeFor st key = Some j" "Rotate j \<notin> set xs" "store_ops xs st = Some st'"
    and "recent st key" "bucket_addr st key = Some b"
  shows "recent st' key \<and> bucket_addr st' key = Some b"
  using assms
proof (induction xs arbitrary: st)
  case (Cons x xs)
  then obtain st1 where st1: "store_op x st = Some st1" "store_ops xs st1 = Some st'"
    by (auto simp: bind_eq_Some_conv)
  have "recent st1 key \<and> bucket_addr st1 key = Some b"
    using Cons.prems st1 by (intro store_op_keeps_recent [of st key j x]) auto
  with Cons.IH [OF store_op_inv [OF Cons.prems(1) st1(1)]] Cons.prems(2,3) st1(2) store_op_stripeFor [OF st1(1)]
  show ?case by simp
qed simp

text \<open>A key nobody touches does not become recent.\<close>

lemma store_get_not_recent:
  assumes "store_get st key = Some (b, st')" "\<not> recent st k" "k \<noteq> key"
  shows "\<not> recent st' k"
proof -
  obtain i s h where i: "stripeFor st key = Some i" "i < length (stripes st)"
    and g: "getOrCreate key (stripes st ! i) (heap st) = (b, s, h)"
    and st': "st' = st\<lparr>stripes := (stripes st)[i := s], heap := h\<rparr>"
    using assms(1) by (rule store_get_split)
  have sf: "stripeFor st' = stripeFor st" by (rule stripeFor_cong) (simp add: st')
  have "fmlookup (hot s) k = fmlookup (hot (stripes st ! i)) k"
    using g assms(3) by (auto simp: getOrCreate_def split: option.splits)
  with assms(2) i show ?thesis
    unfolding recent_def sf by (auto simp: st' nth_list_update split: option.splits)
qed

lemma store_ops_not_recent:
  assumes "Touch key \<notin> set xs" "store_ops xs st = Some st'" "\<not> recent st key"
  shows "\<not> recent st' key"
  using assms
proof (induction xs arbitrary: st)
  case (Cons x xs)
  then obtain st1 where st1: "store_op x st = Some st1" "store_ops xs st1 = Some st'"
    by (auto simp: bind_eq_Some_conv)
  have "\<not> recent (rotate_nth st i) key" for i
    using Cons.prems(3) rotate_nth_stripe(2) [of st key i] not_recent_rotate_nth [of st key i] by blast
  then have "\<not> recent st1 key"
    using Cons.prems(1,3) st1(1) store_get_not_recent by (cases x) (auto split: if_splits)
  with Cons.IH [OF _ st1(2)] Cons.prems(1) show ?case by simp
qed simp

section \<open>The properties\<close>

text \<open>
  C24 (invariant). Whatever sequence of requests, bucket writes, rotations of stripes by the GC and closes
  a new store goes through, no operation panics and the store stays well formed: keys in their own stripe
  and in one generation, every bound address allocated, no two keys on one bucket.
\<close>

theorem store_always_well_formed:
  "\<exists>st. store_ops xs (fst (newStore numStripes gcInterval)) = Some st \<and> store_inv st"
  using store_ops_total_inv [OF newStore_inv] by blast

text \<open>
  C23 (functional). The collector forgets idle keys and no others. A key touched since the GC last rotated
  its stripe survives the next rotation with the very bucket it had (same address, so no update through
  it is lost), whatever else happens in between, rotations of other stripes included; if nobody touches
  it until the rotation of its stripe after that, it is dropped then: it has no bucket and reads as fresh.
\<close>

theorem gc_forgets_idle_keys_only:
  assumes "store_inv st" and "store_get st key = Some (b, st1)" and "stripeFor st1 key = Some j"
    and "store_ops xs st1 = Some st2" and "Rotate j \<notin> set xs"
    and "store_ops ys (rotate_nth st2 j) = Some st3" and "Touch key \<notin> set ys"
  shows "bucket_addr (rotate_nth st2 j) key = Some b \<and> tat_of (rotate_nth st2 j) key = tat_of st2 key
    \<and> bucket_addr (rotate_nth st3 j) key = None \<and> tat_of (rotate_nth st3 j) key = 0"
proof -
  have "store_inv st1" "recent st1 key" "bucket_addr st1 key = Some b"
    using assms(1,2) buckets.get_ok buckets.get_owner store_get_recent(1) by auto
  note kept = store_ops_keep_recent [OF this(1) assms(3,5,4) this(2,3)]
  have st2: "stripeFor st2 key = Some j" using store_ops_stripeFor [OF assms(4)] assms(3) by simp
  have "\<not> recent st3 key"
    by (rule store_ops_not_recent [OF assms(7,6) not_recent_rotate_nth [OF st2]])
  moreover have "stripeFor st3 key = Some j" using store_ops_stripeFor [OF assms(6)] st2 by simp
  ultimately have "bucket_addr (rotate_nth st3 j) key = None" by (intro rotate_nth_drops)
  with kept show ?thesis by (simp add: rotate_nth_recent tat_of_rotate_nth) (simp add: tat_of_def)
qed

theorem gc_forgets_idle_keys_only_witness:
  "\<exists>b j st1 st2 st3. store_get (fst (newStore 4 0)) ''k'' = Some (b, st1) \<and> stripeFor st1 ''k'' = Some j
     \<and> store_ops [Write b 77, Touch ''other''] st1 = Some st2
     \<and> bucket_addr (rotate_nth st2 j) ''k'' = Some b
     \<and> store_ops [Touch ''other''] (rotate_nth st2 j) = Some st3 \<and> bucket_addr (rotate_nth st3 j) ''k'' = None"
proof -
  obtain b st1 where g: "store_get (fst (newStore 4 0)) ''k'' = Some (b, st1)"
    using store_get_total [OF newStore_inv] by blast
  note inv1 = store_get_inv [OF g newStore_inv]
  then have "stripes st1 \<noteq> []" by (simp add: store_inv_def)
  then obtain j where j: "stripeFor st1 ''k'' = Some j" using stripeFor_Some by blast
  obtain st2 where ops: "store_ops [Write b 77, Touch ''other''] st1 = Some st2" "store_inv st2"
    using store_ops_total_inv [OF inv1] by blast
  have "stripeFor st2 ''k'' = Some j" using store_ops_stripeFor [OF ops(1)] j by simp
  then have "j < length (stripes st2)" by (rule stripeFor_bound)
  then obtain st3 where later: "store_ops [Touch ''other''] (rotate_nth st2 j) = Some st3"
    using store_ops_total_inv [OF rotate_nth_inv [OF ops(2)]] by blast
  from gc_forgets_idle_keys_only [OF newStore_inv g j ops(1) _ later] g j ops later show ?thesis by auto
qed

end
