(* ===== verification/Gcra.thy ===== *)
theory Gcra
  imports Types
begin

text \<open>
  \<open>server/gcra.go\<close>: one leaky-bucket admission check. Each Go function is a definition over
  \<open>64 word\<close>; \<open>None\<close> stands for a run-time panic, which \<open>gcraCheck_no_panic\<close> excludes for
  every input. The abstract specification \<open>gcra_spec\<close> is the same check on unbounded integers, with
  no overflow branch hidden: where a product leaves \<open>int64\<close> it says "throttled".
\<close>

section \<open>The model\<close>

definition ceilDiv :: "int64 \<Rightarrow> int64 \<Rightarrow> int64 option" where
  "ceilDiv a b =
     (if a <=s 0 then Some 0
      else do {
        q \<leftarrow> go_sdiv a b;
        r \<leftarrow> go_smod a b;
        Some (if r \<noteq> 0 then q + 1 else q)
      })"

definition mulNonNeg :: "int64 \<Rightarrow> int64 \<Rightarrow> (int64 \<times> bool) option" where
  "mulNonNeg a b =
     (if a = 0 \<or> b = 0 then Some (0, True)
      else do {
        q \<leftarrow> go_sdiv MaxInt64 b;
        Some (if q <s a then (0, False) else (a * b, True))
      })"

definition addNonNeg :: "int64 \<Rightarrow> int64 \<Rightarrow> int64 \<times> bool" where
  "addNonNeg a b = (if MaxInt64 - b <s a then (0, False) else (a + b, True))"

definition mulDivFloor :: "int64 \<Rightarrow> int64 \<Rightarrow> int64 \<Rightarrow> (int64 \<times> bool) option" where
  "mulDivFloor a b c =
     (if a <s 0 \<or> b <s 0 \<or> c <=s 0 then Some (0, False)
      else let (hi, lo) = Mul64 a b
           in if c \<le> hi then Some (0, False)
              else do {
                (q, _) \<leftarrow> Div64 hi lo c;
                Some (if MaxInt64 < q then (0, False) else (q, True))
              })"

definition mulDivCeil :: "int64 \<Rightarrow> int64 \<Rightarrow> int64 \<Rightarrow> (int64 \<times> bool) option" where
  "mulDivCeil a b c =
     (if a <s 0 \<or> b <s 0 \<or> c <=s 0 then Some (0, False)
      else let (hi, lo) = Mul64 a b
           in if c \<le> hi then Some (0, False)
              else do {
                (q, r) \<leftarrow> Div64 hi lo c;
                if r \<noteq> 0 \<and> q = MaxUint64 then Some (0, False)
                else let q' = (if r \<noteq> 0 then q + 1 else q)
                     in Some (if MaxInt64 < q' then (0, False) else (q', True))
              })"

record gcra_result =
  g_throttled :: bool
  g_remaining :: int64
  g_retryAfter :: int64
  g_admittedTAT :: int64

text \<open>
  \<open>gcraCheck\<close> in the two stages of its body: the debts the limit and the request are worth, then
  (\<open>gcraDecide\<close>) the comparison with the bucket's state.
\<close>

definition gcraThrottled :: "int64 \<Rightarrow> int64 \<Rightarrow> int64 \<Rightarrow> gcra_result" where
  "gcraThrottled tat remaining retryAfter =
     \<lparr>g_throttled = True, g_remaining = remaining, g_retryAfter = retryAfter, g_admittedTAT = tat\<rparr>"

definition gcraDecide ::
  "int64 \<Rightarrow> int64 \<Rightarrow> int64 \<Rightarrow> int64 \<Rightarrow> int64 \<Rightarrow> int64 \<Rightarrow> int64 \<Rightarrow> gcra_result" where
  "gcraDecide tat now capacity cost maxDebt costNs debtUnits =
     (let effectiveTAT = smax tat now;
          remainingUnits = smax (capacity - debtUnits) 0;
          (candidateTAT, ok) = addNonNeg effectiveTAT costNs
      in if capacity <s cost then gcraThrottled tat remainingUnits 0
         else if \<not> ok then gcraThrottled tat remainingUnits 0
         else if maxDebt <s candidateTAT - now
         then gcraThrottled tat remainingUnits (candidateTAT - now - maxDebt)
         else \<lparr>g_throttled = False, g_remaining = remainingUnits, g_retryAfter = 0,
               g_admittedTAT = candidateTAT\<rparr>)"

definition gcraDebtUnits :: "int64 \<Rightarrow> int64 \<Rightarrow> int64 \<Rightarrow> int64 \<Rightarrow> int64 option" where
  "gcraDebtUnits level capacity units period =
     (if units = 1 then ceilDiv level period
      else do {
        (d, ok) \<leftarrow> mulDivCeil level units period;
        Some (if ok then d else capacity + 1)
      })"

definition gcraCheck ::
  "int64 \<Rightarrow> int64 \<Rightarrow> int64 \<Rightarrow> int64 \<Rightarrow> int64 \<Rightarrow> int64 \<Rightarrow> gcra_result option" where
  "gcraCheck tat now capacity units period cost =
     (if period <=s 0 \<or> units <=s 0 \<or> capacity <s 0 \<or> cost <s 0 then Some (gcraThrottled tat 0 0)
      else do {
        (maxDebt, ok1) \<leftarrow> (if units = 1 then mulNonNeg capacity period
                            else mulDivFloor capacity period units);
        if \<not> ok1 then Some (gcraThrottled tat 0 0) else do {
        (costNs, ok2) \<leftarrow> (if units = 1 then mulNonNeg cost period
                           else mulDivCeil cost period units);
        if \<not> ok2 then Some (gcraThrottled tat 0 0) else do {
        debtUnits \<leftarrow> gcraDebtUnits (smax tat now - now) capacity units period;
        Some (gcraDecide tat now capacity cost maxDebt costNs debtUnits)
      }}})"

section \<open>The arithmetic helpers\<close>

lemma zdiv_le_self: "0 \<le> (a :: int) \<Longrightarrow> 0 < b \<Longrightarrow> a div b \<le> a"
  using zdiv_mono2 [of a 1 b] by simp

lemma go_sdiv_nonneg:
  assumes "0 \<le> sint a" and "0 < sint b"
  shows "go_sdiv a b = Some (word_of_int (sint a div sint b))"
    and "sint (word_of_int (sint a div sint b) :: int64) = sint a div sint b"
proof -
  from assms have "b \<noteq> 0" by auto
  with assms show "go_sdiv a b = Some (word_of_int (sint a div sint b))"
    by (cases "sint a = 0") (simp_all add: go_sdiv_def signed_divide_int_def)
  have "0 \<le> sint a div sint b" "sint a div sint b \<le> sint a"
    using assms by (simp_all add: pos_imp_zdiv_nonneg_iff zdiv_le_self)
  with sint_bounds [of a] show "sint (word_of_int (sint a div sint b) :: int64) = sint a div sint b"
    by (intro sint_word_of_int64) (simp add: fits64_def)
qed

lemma go_smod_nonneg:
  assumes "0 \<le> sint a" and "0 < sint b"
  shows "go_smod a b = Some (word_of_int (sint a mod sint b))"
    and "sint (word_of_int (sint a mod sint b) :: int64) = sint a mod sint b"
proof -
  from assms have "b \<noteq> 0" by auto
  with assms show "go_smod a b = Some (word_of_int (sint a mod sint b))"
    by (cases "sint a = 0") (simp_all add: go_smod_def signed_modulo_int_def)
  have "0 \<le> sint a mod sint b" "sint a mod sint b < sint b"
    using assms by simp_all
  with sint_bounds [of b] show "sint (word_of_int (sint a mod sint b) :: int64) = sint a mod sint b"
    by (intro sint_word_of_int64) (simp add: fits64_def)
qed

text \<open>\<open>ceilDiv\<close> is division rounded up, and zero on non-positive dividends.\<close>

lemma ceilDiv_spec:
  assumes b: "0 < sint b"
  shows "\<exists>q. ceilDiv a b = Some q \<and> sint q = max 0 (cdiv (sint a) (sint b))"
proof (cases "sint a \<le> 0")
  case True
  then have "cdiv (sint a) (sint b) \<le> 0" using b by (simp add: cdiv_le_iff)
  with True show ?thesis by (simp add: ceilDiv_def int64_simps)
next
  case False
  let ?q = "word_of_int (sint a div sint b) :: int64"
  from False have a: "0 \<le> sint a" by simp
  note q = go_sdiv_nonneg [OF a b] and r = go_smod_nonneg [OF a b]
  have zero: "(word_of_int (sint a mod sint b) :: int64) = 0 \<longleftrightarrow> sint a mod sint b = 0"
    using r(2) by (metis signed_0 word_of_int_0)
  have "fits64 (sint a div sint b + 1)" if "sint a mod sint b \<noteq> 0"
  proof -
    from that b have "1 < sint b" by (cases "sint b = 1") auto
    then have "sint a div sint b < sint a"
      using False int_div_less_self by simp
    moreover have "0 \<le> sint a div sint b" using a b by (simp add: pos_imp_zdiv_nonneg_iff)
    ultimately show ?thesis using sint_bounds [of a] by (simp add: fits64_def)
  qed
  then have "sint a mod sint b \<noteq> 0 \<Longrightarrow> sint (?q + 1) = sint a div sint b + 1"
    by (subst sint_add64) (simp_all add: q(2))
  moreover have "0 \<le> sint a div sint b" using a b by (simp add: pos_imp_zdiv_nonneg_iff)
  ultimately show ?thesis using False a b
    by (auto simp: ceilDiv_def int64_simps q r zero cdiv_div_mod max_def not_le)
qed

lemma mulNonNeg_spec:
  assumes a: "0 \<le> sint a" and b: "0 \<le> sint b"
  shows "mulNonNeg a b =
    Some (if sint a * sint b < 2 ^ 63 then (word_of_int (sint a * sint b), True) else (0, False))"
proof (cases "a = 0 \<or> b = 0")
  case True
  then show ?thesis by (auto simp: mulNonNeg_def)
next
  case False
  then have b': "0 < sint b" using b by (metis order_le_less signed_0 sint_eq_iff64)
  let ?q = "word_of_int (9223372036854775807 div sint b) :: int64"
  have q: "go_sdiv MaxInt64 b = Some ?q" and sq: "sint ?q = 9223372036854775807 div sint b"
    using go_sdiv_nonneg [of MaxInt64 b] b' by simp_all
  have "9223372036854775807 div sint b < sint a \<longleftrightarrow> \<not> sint a * sint b < 2 ^ 63"
    using b' by (simp add: pos_div_less_iff not_less) linarith
  then have "?q <s a \<longleftrightarrow> \<not> sint a * sint b < 2 ^ 63"
    by (simp only: sless_sint sq)
  then show ?thesis
    using False by (simp add: mulNonNeg_def q wi_hom_mult [symmetric] del: sless_sint)
qed

lemma addNonNeg_spec:
  assumes "0 \<le> sint b"
  shows "addNonNeg a b =
    (if sint a + sint b < 2 ^ 63 then (word_of_int (sint a + sint b), True) else (0, False))"
proof -
  have m: "sint (MaxInt64 - b) = 2 ^ 63 - 1 - sint b"
    using assms sint_bounds [of b] by (subst sint_sub64) (simp_all add: fits64_def)
  have "MaxInt64 - b <s a \<longleftrightarrow> \<not> sint a + sint b < 2 ^ 63"
    unfolding sless_sint m by linarith
  then show ?thesis
    unfolding addNonNeg_def by (simp only: if_not_P if_P split: if_split)
      (simp add: wi_hom_add [symmetric])
qed

text \<open>The 128-bit products of non-negative operands never panic and are exact.\<close>

lemma mulDiv_operands:
  fixes a b c :: int64
  assumes a: "0 \<le> sint a" and b: "0 \<le> sint b" and c: "0 < sint c"
  shows "uint a = sint a" "uint b = sint b" "uint c = sint c" "0 < uint c"
    and "0 \<le> uint a * uint b div uint c"
proof -
  show "uint a = sint a" using a by (rule uint_sint_nonneg)
  show "uint b = sint b" using b by (rule uint_sint_nonneg)
  show uc: "uint c = sint c" using c by (simp add: uint_sint_nonneg)
  show "0 < uint c" using c uc by simp
  then show "0 \<le> uint a * uint b div uint c" by (simp add: pos_imp_zdiv_nonneg_iff)
qed

lemma mulDivFloor_spec:
  assumes a: "0 \<le> sint a" and b: "0 \<le> sint b" and c: "0 < sint c"
  shows "mulDivFloor a b c =
    Some (if sint a * sint b div sint c < 2 ^ 63
          then (word_of_int (sint a * sint b div sint c), True) else (0, False))"
proof (cases "c \<le> fst (Mul64 a b)")
  case True
  with mulDiv_operands [OF a b c] Mul64_too_big [of c a b]
  have "\<not> sint a * sint b div sint c < 2 ^ 63" by simp
  with True a b c show ?thesis
    by (simp add: mulDivFloor_def int64_simps case_prod_beta Let_def)
next
  case False
  note ops = mulDiv_operands [OF a b c] and exact = Div64_Mul64 [OF ops(4) False]
  let ?q = "word_of_int (uint a * uint b div uint c) :: uint64"
  have "uint ?q = uint a * uint b div uint c"
    using exact(2) ops(5) by (simp add: uint_word_of_int)
  then have "MaxInt64 < ?q \<longleftrightarrow> \<not> uint a * uint b div uint c < 2 ^ 63"
    by (simp add: word_less_def) linarith
  with False a b c show ?thesis
    by (simp add: mulDivFloor_def int64_simps case_prod_beta Let_def exact(1) ops(1-3) [symmetric])
qed

lemma mulDivCeil_spec:
  assumes a: "0 \<le> sint a" and b: "0 \<le> sint b" and c: "0 < sint c"
  shows "mulDivCeil a b c =
    Some (if cdiv (sint a * sint b) (sint c) < 2 ^ 63
          then (word_of_int (cdiv (sint a * sint b) (sint c)), True) else (0, False))"
proof (cases "c \<le> fst (Mul64 a b)")
  case True
  with mulDiv_operands [OF a b c] Mul64_too_big [of c a b]
  have "2 ^ 64 \<le> sint a * sint b div sint c" by simp
  then have "\<not> cdiv (sint a * sint b) (sint c) < 2 ^ 63"
    using c by (simp add: cdiv_div_mod)
  with True a b c show ?thesis
    by (simp add: mulDivCeil_def int64_simps case_prod_beta Let_def)
next
  case False
  note ops = mulDiv_operands [OF a b c] and exact = Div64_Mul64 [OF ops(4) False]
  let ?n = "uint a * uint b" and ?c = "uint c"
  let ?q = "word_of_int (?n div ?c) :: uint64" and ?r = "word_of_int (?n mod ?c) :: uint64"
  have uq: "uint ?q = ?n div ?c"
    using exact(2) ops(5) by (simp add: uint_word_of_int)
  have "?n mod ?c < 2 ^ 64"
    using pos_mod_bound [OF ops(4), of ?n] uint_lt2p [of c] by simp
  then have "uint ?r = ?n mod ?c"
    using pos_mod_sign [OF ops(4), of ?n] by (simp add: uint_word_of_int)
  then have r0: "?r = 0 \<longleftrightarrow> ?n mod ?c = 0" by (metis uint_0_iff)
  have top: "?q = MaxUint64 \<longleftrightarrow> ?n div ?c = 2 ^ 64 - 1"
    using uq by (auto simp: word_uint_eq_iff)
  have q1: "uint (?q + 1) = ?n div ?c + 1" if "?n div ?c \<noteq> 2 ^ 64 - 1"
    using that exact(2) ops(5) by (simp add: uint_word_ariths uq)
  have unf: "mulDivCeil a b c =
        (if ?r \<noteq> 0 \<and> ?q = MaxUint64 then Some (0, False)
         else let q' = (if ?r \<noteq> 0 then ?q + 1 else ?q)
              in Some (if MaxInt64 < q' then (0, False) else (q', True)))"
    using False a b c
    by (simp add: mulDivCeil_def int64_simps case_prod_beta exact(1) Let_def)
  have "(if ?r \<noteq> 0 \<and> ?q = MaxUint64 then Some (0, False)
         else let q' = (if ?r \<noteq> 0 then ?q + 1 else ?q)
              in Some (if MaxInt64 < q' then (0, False) else (q', True)))
      = Some (if cdiv ?n ?c < 2 ^ 63 then (word_of_int (cdiv ?n ?c), True) else (0, False))"
    (is "?lhs = ?rhs")
  proof (cases "?n mod ?c = 0")
    case True
    then show ?thesis
      using uq ops(4) by (simp add: r0 cdiv_div_mod word_less_def not_less)
  next
    case rem: False
    show ?thesis
    proof (cases "?n div ?c = 2 ^ 64 - 1")
      case True
      then show ?thesis using rem ops(4) by (simp add: r0 top cdiv_div_mod)
    next
      case False
      have "MaxInt64 < ?q + 1 \<longleftrightarrow> \<not> ?n div ?c + 1 < 2 ^ 63"
        using q1 [OF False] by (simp add: word_less_def) linarith
      then show ?thesis
        using rem False ops(4) by (simp add: r0 top cdiv_div_mod wi_hom_succ wi_hom_add [symmetric])
    qed
  qed
  then show ?thesis unfolding unf ops(1-3) .
qed

section \<open>The check on unbounded integers\<close>

text \<open>
  The reference: debt is measured in nanoseconds, \<open>capacity\<close> is worth
  \<open>capacity * period div units\<close> of it and a request adds \<open>cost * period / units\<close> rounded up.
  The result is (throttled, remaining, retryAfter, admittedTAT).
\<close>

definition max_debt :: "int \<Rightarrow> int \<Rightarrow> int \<Rightarrow> int" where
  "max_debt capacity units period = capacity * period div units"

definition cost_debt :: "int \<Rightarrow> int \<Rightarrow> int \<Rightarrow> int" where
  "cost_debt cost units period = cdiv (cost * period) units"

definition headroom :: "int \<Rightarrow> int \<Rightarrow> int \<Rightarrow> int \<Rightarrow> int \<Rightarrow> int" where
  "headroom tat now capacity units period =
     max 0 (capacity - cdiv ((max tat now - now) * units) period)"

definition gcra_spec :: "int \<Rightarrow> int \<Rightarrow> int \<Rightarrow> int \<Rightarrow> int \<Rightarrow> int \<Rightarrow> bool \<times> int \<times> int \<times> int" where
  "gcra_spec tat now capacity units period cost =
     (let md = max_debt capacity units period;
          cd = cost_debt cost units period;
          rem = headroom tat now capacity units period;
          candidate = max tat now + cd
      in if period \<le> 0 \<or> units \<le> 0 \<or> capacity < 0 \<or> cost < 0 then (True, 0, 0, tat)
         else if \<not> (md < 2 ^ 63 \<and> cd < 2 ^ 63) then (True, 0, 0, tat)
         else if capacity < cost \<or> \<not> candidate < 2 ^ 63 then (True, rem, 0, tat)
         else if md < candidate - now then (True, rem, candidate - now - md, tat)
         else (False, rem, 0, candidate))"

definition gcra_view :: "gcra_result \<Rightarrow> bool \<times> int \<times> int \<times> int" where
  "gcra_view r = (g_throttled r, sint (g_remaining r), sint (g_retryAfter r), sint (g_admittedTAT r))"

lemma debt_floor:
  assumes "0 \<le> sint capacity" "0 < sint period" "0 < sint units"
  shows "(if units = 1 then mulNonNeg capacity period else mulDivFloor capacity period units) =
    (let md = max_debt (sint capacity) (sint units) (sint period)
     in Some (if md < 2 ^ 63 then (word_of_int md, True) else (0, False)))"
  using assms by (simp add: mulNonNeg_spec mulDivFloor_spec max_debt_def)

lemma debt_ceil:
  assumes "0 \<le> sint cost" "0 < sint period" "0 < sint units"
  shows "(if units = 1 then mulNonNeg cost period else mulDivCeil cost period units) =
    (let cd = cost_debt (sint cost) (sint units) (sint period)
     in Some (if cd < 2 ^ 63 then (word_of_int cd, True) else (0, False)))"
  using assms by (simp add: mulNonNeg_spec mulDivCeil_spec cost_debt_def)

lemma max_debt_nonneg: "0 < units \<Longrightarrow> 0 \<le> capacity \<Longrightarrow> 0 \<le> period \<Longrightarrow> 0 \<le> max_debt capacity units period"
  by (simp add: max_debt_def pos_imp_zdiv_nonneg_iff)

lemma cost_debt_nonneg: "0 < units \<Longrightarrow> 0 \<le> cost \<Longrightarrow> 0 \<le> period \<Longrightarrow> 0 \<le> cost_debt cost units period"
  by (simp add: cost_debt_def cdiv_nonneg)

text \<open>
  The reported headroom is exact even where \<open>level * units\<close> overflows and the code falls back to
  \<open>capacity + 1\<close> (which itself wraps for the largest capacity).
\<close>

lemma sint_clamp_headroom:
  assumes "0 \<le> sint capacity" "0 \<le> sint d"
  shows "sint (smax (capacity - d) 0) = max 0 (sint capacity - sint d)"
proof -
  have "sint (capacity - d) = sint capacity - sint d"
    using assms sint_bounds [of capacity] sint_bounds [of d]
    by (intro sint_sub64) (simp add: fits64_def)
  then show ?thesis by (simp add: sint_smax max.commute)
qed

lemma smax_overflowed_debt: "smax (- 1) 0 = (0 :: int64)"
  by (simp add: smax_def int64_simps)

lemma gcraDebtUnits_spec:
  assumes level: "0 \<le> sint level" and p: "0 < sint period" and u: "0 < sint units"
    and cap: "0 \<le> sint capacity"
  shows "\<exists>d. gcraDebtUnits level capacity units period = Some d \<and> sint (smax (capacity - d) 0)
              = max 0 (sint capacity - cdiv (sint level * sint units) (sint period))"
proof (cases "units = 1")
  case True
  obtain q where "ceilDiv level period = Some q"
    and "sint q = cdiv (sint level) (sint period)"
    using ceilDiv_spec [OF p, of level] cdiv_nonneg [OF p level] by auto
  with True cap level p show ?thesis by (simp add: gcraDebtUnits_def sint_clamp_headroom cdiv_nonneg)
next
  case False
  let ?d = "cdiv (sint level * sint units) (sint period)"
  have d: "0 \<le> ?d" using level u p by (simp add: cdiv_nonneg)
  show ?thesis
  proof (cases "?d < 2 ^ 63")
    case True
    then have "sint (word_of_int ?d :: int64) = ?d"
      using d by (intro sint_word_of_int64) (simp add: fits64_nonneg)
    with True False level u p cap d show ?thesis
      by (simp add: gcraDebtUnits_def mulDivCeil_spec sint_clamp_headroom)
  next
    case big: False
    then have "sint capacity - ?d \<le> 0" using sint_bounds [of capacity] by simp
    with big False level u p cap show ?thesis
      by (simp add: gcraDebtUnits_def mulDivCeil_spec smax_overflowed_debt)
  qed
qed

lemma mulDivCeil_total: "\<exists>r. mulDivCeil a b c = Some r"
proof (cases "a <s 0 \<or> b <s 0 \<or> c <=s 0")
  case True
  then have "mulDivCeil a b c = Some (0, False)" by (simp add: mulDivCeil_def)
  then show ?thesis by blast
next
  case False
  then show ?thesis by (simp add: int64_simps not_le not_less mulDivCeil_spec)
qed

lemma gcraCheck_no_panic: "\<exists>r. gcraCheck tat now capacity units period cost = Some r"
proof (cases "period <=s 0 \<or> units <=s 0 \<or> capacity <s 0 \<or> cost <s 0")
  case True
  then show ?thesis by (simp add: gcraCheck_def)
next
  case False
  then have sane: "0 < sint period" "0 < sint units" "0 \<le> sint capacity" "0 \<le> sint cost"
    by (auto simp: int64_simps)
  have "\<exists>d. gcraDebtUnits (smax tat now - now) capacity units period = Some d"
    using ceilDiv_spec [OF sane(1), of "smax tat now - now"]
      mulDivCeil_total [of "smax tat now - now" units period]
    by (auto simp: gcraDebtUnits_def)
  with False sane show ?thesis
    by (auto simp: gcraCheck_def debt_floor debt_ceil Let_def)
qed

text \<open>The refinement: on every \<open>int64\<close> input with a non-negative clock the code computes the reference.\<close>

lemma gcraCheck_sane:
  assumes now: "0 \<le> sint now" and sane: "0 < sint period" "0 < sint units" "0 \<le> sint capacity" "0 \<le> sint cost"
  shows "map_option gcra_view (gcraCheck tat now capacity units period cost) =
    Some (gcra_spec (sint tat) (sint now) (sint capacity) (sint units) (sint period) (sint cost))"
proof -
  let ?md = "max_debt (sint capacity) (sint units) (sint period)"
  let ?cd = "cost_debt (sint cost) (sint units) (sint period)"
  let ?T = "max (sint tat) (sint now)"
  have T: "0 \<le> ?T" "?T < 2 ^ 63" using now sint_bounds [of tat] sint_bounds [of now] by auto
  have md: "0 \<le> ?md" and cd: "0 \<le> ?cd"
    using sane by (simp_all add: max_debt_nonneg cost_debt_nonneg)
  have smd: "?md < 2 ^ 63 \<Longrightarrow> sint (word_of_int ?md :: int64) = ?md"
    and scd: "?cd < 2 ^ 63 \<Longrightarrow> sint (word_of_int ?cd :: int64) = ?cd"
    using md cd by (simp_all add: sint_word_of_int64 fits64_nonneg)
  have level: "sint (smax tat now - now) = ?T - sint now" "0 \<le> ?T - sint now"
    using now T by (auto simp: sint_sub64 sint_smax fits64_def)
  obtain d where d: "gcraDebtUnits (smax tat now - now) capacity units period = Some d"
    and rem: "sint (smax (capacity - d) 0)
        = headroom (sint tat) (sint now) (sint capacity) (sint units) (sint period)"
    using gcraDebtUnits_spec [of "smax tat now - now" period units capacity] sane level
    unfolding headroom_def by auto
  have cand: "sint (word_of_int (?T + ?cd) :: int64) = ?T + ?cd" if "?T + ?cd < 2 ^ 63"
    using that T cd by (intro sint_word_of_int64) (simp add: fits64_nonneg)
  have diff: "sint (word_of_int (?T + ?cd) - now) = ?T + ?cd - sint now" if "?T + ?cd < 2 ^ 63"
    using that T cd now cand [OF that] by (subst sint_sub64) (auto simp: fits64_def)
  have retry: "sint (word_of_int (?T + ?cd) - now - word_of_int ?md) = ?T + ?cd - sint now - ?md"
    if "?T + ?cd < 2 ^ 63" "?md < 2 ^ 63"
    using that T cd md now diff smd by (subst sint_sub64) (auto simp: fits64_def)
  have insane: "\<not> (period <=s 0 \<or> units <=s 0 \<or> capacity <s 0 \<or> cost <s 0)"
    using sane by (simp add: int64_simps)
  have add: "addNonNeg (smax tat now) (word_of_int ?cd) =
      (if ?T + ?cd < 2 ^ 63 then (word_of_int (?T + ?cd), True) else (0, False))" if "?cd < 2 ^ 63"
    using cd scd [OF that] addNonNeg_spec [of "word_of_int ?cd" "smax tat now"]
    by (simp add: sint_smax)
  show ?thesis
    unfolding gcraCheck_def gcraDecide_def gcraThrottled_def Let_def debt_floor [OF sane(3,1,2), unfolded Let_def]
      debt_ceil [OF sane(4,1,2), unfolded Let_def] d
    using insane sane rem cand diff retry smd scd add
    by (auto simp: gcra_spec_def gcra_view_def Let_def sless_sint)
qed

end
