(* ===== verification/GcraProps.thy ===== *)
theory GcraProps
  imports Gcra
begin

text \<open>
  The properties of one bucket: the check never panics and refines the reference on unbounded
  integers; rejected requests leave the state alone; the reported retry time is exact where the
  request can fit at all; and, over any sequence of requests, the admitted cost respects the
  configured rate.
\<close>

lemma gcraCheck_view:
  assumes "0 \<le> sint now"
  shows "map_option gcra_view (gcraCheck tat now capacity units period cost) =
    Some (gcra_spec (sint tat) (sint now) (sint capacity) (sint units) (sint period) (sint cost))"
proof (cases "period <=s 0 \<or> units <=s 0 \<or> capacity <s 0 \<or> cost <s 0")
  case True
  then show ?thesis
    by (auto simp: gcraCheck_def gcraThrottled_def gcra_spec_def gcra_view_def int64_simps Let_def)
next
  case False
  then show ?thesis
    using assms by (intro gcraCheck_sane) (auto simp: int64_simps)
qed

text \<open>The same, as a rule that replaces the code by the reference.\<close>

lemma gcraCheck_cases:
  assumes "0 \<le> sint now"
  obtains r where "gcraCheck tat now capacity units period cost = Some r"
    and "gcra_spec (sint tat) (sint now) (sint capacity) (sint units) (sint period) (sint cost)
      = (g_throttled r, sint (g_remaining r), sint (g_retryAfter r), sint (g_admittedTAT r))"
  using gcraCheck_view [OF assms, of tat capacity units period cost]
  by (auto simp: gcra_view_def)

lemma gcraCheck_eq_iff:
  assumes "0 \<le> sint now" and "gcraCheck tat now capacity units period cost = Some r"
  shows "gcra_spec (sint tat) (sint now) (sint capacity) (sint units) (sint period) (sint cost)
      = (g_throttled r, sint (g_remaining r), sint (g_retryAfter r), sint (g_admittedTAT r))"
  using gcraCheck_view [OF assms(1), of tat capacity units period cost] assms(2)
  by (simp add: gcra_view_def)

text \<open>Admission on the reference, as one condition.\<close>

lemma gcra_spec_admits_iff:
  "\<not> fst (gcra_spec tat now capacity units period cost) \<longleftrightarrow>
     0 < period \<and> 0 < units \<and> 0 \<le> capacity \<and> 0 \<le> cost \<and> cost \<le> capacity \<and>
     max_debt capacity units period < 2 ^ 63 \<and> cost_debt cost units period < 2 ^ 63 \<and>
     max tat now + cost_debt cost units period < 2 ^ 63 \<and>
     max tat now + cost_debt cost units period - now \<le> max_debt capacity units period"
  by (auto simp: gcra_spec_def Let_def)

lemma gcra_spec_admitted:
  assumes "gcra_spec tat now capacity units period cost = (False, rem, ra, tat')"
  shows "tat' = max tat now + cost_debt cost units period" and "ra = 0"
    and "tat' - now \<le> max_debt capacity units period" "tat' < 2 ^ 63"
    and "0 < period" "0 < units" "0 \<le> cost" "cost \<le> capacity"
  using assms by (auto simp: gcra_spec_def Let_def split: if_splits)

lemma gcraCheck_admitted:
  assumes "0 \<le> sint now" "gcraCheck tat now capacity units period cost = Some r" "\<not> g_throttled r"
  shows "sint (g_admittedTAT r) = max (sint tat) (sint now) + cost_debt (sint cost) (sint units) (sint period)"
    and "sint (g_retryAfter r) = 0"
    and "sint (g_admittedTAT r) - sint now \<le> max_debt (sint capacity) (sint units) (sint period)"
    and "sint (g_admittedTAT r) < 2 ^ 63"
    and "0 < sint period" "0 < sint units" "0 \<le> sint cost" "sint cost \<le> sint capacity"
proof -
  have "gcra_spec (sint tat) (sint now) (sint capacity) (sint units) (sint period) (sint cost)
      = (False, sint (g_remaining r), sint (g_retryAfter r), sint (g_admittedTAT r))"
    using gcraCheck_eq_iff [OF assms(1,2)] assms(3) by simp
  from gcra_spec_admitted [OF this] show
    "sint (g_admittedTAT r) = max (sint tat) (sint now) + cost_debt (sint cost) (sint units) (sint period)"
    "sint (g_retryAfter r) = 0"
    "sint (g_admittedTAT r) - sint now \<le> max_debt (sint capacity) (sint units) (sint period)"
    "sint (g_admittedTAT r) < 2 ^ 63"
    "0 < sint period" "0 < sint units" "0 \<le> sint cost" "sint cost \<le> sint capacity" by blast+
qed

text \<open>What a rejected and an admitted check leave, for every input (no assumption on the clock).\<close>

lemma gcraCheck_result:
  assumes "gcraCheck tat now capacity units period cost = Some r"
  shows "r = gcraThrottled tat 0 0 \<or>
    (\<exists>maxDebt costNs d. 0 < sint period \<and> 0 < sint units \<and> 0 \<le> sint capacity \<and>
       gcraDebtUnits (smax tat now - now) capacity units period = Some d \<and>
       r = gcraDecide tat now capacity cost maxDebt costNs d)"
  using assms by (auto simp: gcraCheck_def int64_simps case_prod_beta bind_eq_Some_conv split: if_splits)

lemma gcraDecide_throttled_tat:
  "g_throttled (gcraDecide tat now capacity cost md cd d) \<Longrightarrow>
   g_admittedTAT (gcraDecide tat now capacity cost md cd d) = tat"
  by (simp add: gcraDecide_def gcraThrottled_def Let_def case_prod_beta split: if_splits)

lemma gcraDecide_admitted_retry:
  "\<not> g_throttled (gcraDecide tat now capacity cost md cd d) \<Longrightarrow>
   g_retryAfter (gcraDecide tat now capacity cost md cd d) = 0"
  by (simp add: gcraDecide_def gcraThrottled_def Let_def case_prod_beta split: if_splits)

lemma gcraDecide_remaining:
  "g_remaining (gcraDecide tat now capacity cost md cd d) = smax (capacity - d) 0"
  by (simp add: gcraDecide_def gcraThrottled_def Let_def case_prod_beta)

lemma gcraThrottled_sel [simp]:
  "g_throttled (gcraThrottled tat rem ra)" "g_remaining (gcraThrottled tat rem ra) = rem"
  "g_retryAfter (gcraThrottled tat rem ra) = ra" "g_admittedTAT (gcraThrottled tat rem ra) = tat"
  by (simp_all add: gcraThrottled_def)

lemma gcraCheck_throttled_tat:
  "gcraCheck tat now capacity units period cost = Some r \<Longrightarrow> g_throttled r \<Longrightarrow> g_admittedTAT r = tat"
  using gcraCheck_result gcraDecide_throttled_tat by fastforce

lemma gcraCheck_admitted_retry:
  "gcraCheck tat now capacity units period cost = Some r \<Longrightarrow> \<not> g_throttled r \<Longrightarrow> g_retryAfter r = 0"
  using gcraCheck_result gcraDecide_admitted_retry by fastforce

text \<open>The clamped headroom lies in the bucket whatever the debt computation yields.\<close>

lemma clamp_bounds:
  assumes "0 \<le> sint capacity" and "0 \<le> sint d \<or> d = capacity + 1"
  shows "0 \<le> sint (smax (capacity - d) 0) \<and> sint (smax (capacity - d) 0) \<le> sint capacity"
  using assms by (auto simp: sint_clamp_headroom smax_overflowed_debt)

lemma gcraDebtUnits_nonneg:
  assumes "0 < sint period" "0 < sint units" and d: "gcraDebtUnits level capacity units period = Some d"
  shows "0 \<le> sint d \<or> d = capacity + 1"
proof (cases "units = 1")
  case True
  then show ?thesis using d ceilDiv_spec [OF assms(1), of level] by (auto simp: gcraDebtUnits_def)
next
  case ne: False
  show ?thesis
  proof (cases "0 \<le> sint level")
    case True
    let ?k = "cdiv (sint level * sint units) (sint period)"
    have "0 \<le> ?k" using True assms by (simp add: cdiv_nonneg)
    then have "?k < 2 ^ 63 \<Longrightarrow> 0 \<le> sint (word_of_int ?k :: int64)"
      by (subst sint_word_of_int64) (simp_all add: fits64_nonneg)
    with True ne assms show ?thesis
      by (auto simp: gcraDebtUnits_def mulDivCeil_spec split: if_splits)
  next
    case False
    then have "mulDivCeil level units period = Some (0, False)"
      by (simp add: mulDivCeil_def int64_simps)
    with ne d show ?thesis by (simp add: gcraDebtUnits_def)
  qed
qed

lemma gcraCheck_remaining:
  assumes "gcraCheck tat now capacity units period cost = Some r"
  shows "0 \<le> sint (g_remaining r) \<and> sint (g_remaining r) \<le> max 0 (sint capacity)"
  using gcraCheck_result [OF assms]
proof
  assume "r = gcraThrottled tat 0 0"
  then show ?thesis by simp
next
  assume "\<exists>md cd d. 0 < sint period \<and> 0 < sint units \<and> 0 \<le> sint capacity \<and>
       gcraDebtUnits (smax tat now - now) capacity units period = Some d \<and>
       r = gcraDecide tat now capacity cost md cd d"
  then obtain md cd d where sane: "0 < sint period" "0 < sint units" and cap: "0 \<le> sint capacity"
    and d: "gcraDebtUnits (smax tat now - now) capacity units period = Some d"
    and r: "r = gcraDecide tat now capacity cost md cd d" by blast
  from clamp_bounds [OF cap gcraDebtUnits_nonneg [OF sane d]] show ?thesis
    unfolding r gcraDecide_remaining by simp
qed

section \<open>A sequence of requests on one key\<close>

text \<open>
  The bucket under a sequence of (clock, cost) requests with one limit: an admitted request
  replaces the stored TAT, a rejected one leaves it. The result lists which were admitted.
\<close>

fun gcra_run ::
  "int64 \<Rightarrow> int64 \<Rightarrow> int64 \<Rightarrow> int64 \<Rightarrow> (int64 \<times> int64) list \<Rightarrow> (bool list \<times> int64) option" where
  "gcra_run capacity units period tat [] = Some ([], tat)"
| "gcra_run capacity units period tat ((now, cost) # rs) = do {
     r \<leftarrow> gcraCheck tat now capacity units period cost;
     (admitted, tat') \<leftarrow> gcra_run capacity units period
        (if g_throttled r then tat else g_admittedTAT r) rs;
     Some ((\<not> g_throttled r) # admitted, tat')
   }"

text \<open>
  The cost of the admitted requests whose clock reading lies in \<open>[t1, t2]\<close>, exactly and as
  nanoseconds of debt.
\<close>

definition in_window :: "int \<Rightarrow> int \<Rightarrow> int64 \<Rightarrow> bool" where
  "in_window t1 t2 now \<longleftrightarrow> t1 \<le> sint now \<and> sint now \<le> t2"

definition admitted_cost :: "int \<Rightarrow> int \<Rightarrow> bool list \<Rightarrow> (int64 \<times> int64) list \<Rightarrow> int" where
  "admitted_cost t1 t2 admitted rs =
     (\<Sum>(a, (now, cost)) \<leftarrow> zip admitted rs. if a \<and> in_window t1 t2 now then sint cost else 0)"

definition admitted_debt :: "int \<Rightarrow> int \<Rightarrow> int \<Rightarrow> int \<Rightarrow> bool list \<Rightarrow> (int64 \<times> int64) list \<Rightarrow> int" where
  "admitted_debt t1 t2 units period admitted rs =
     (\<Sum>(a, (now, cost)) \<leftarrow> zip admitted rs.
        if a \<and> in_window t1 t2 now then cost_debt (sint cost) units period else 0)"

text \<open>
  The invariant of a run, whatever it admits outside the window: the TAT does not fall, and unless
  nothing was admitted in the window, it has grown there by the admitted debt, to at most
  \<open>max_debt\<close> ahead of the window's end.
\<close>

lemma gcra_run_debt:
  assumes "gcra_run capacity units period tat rs = Some (admitted, tat')"
    and "\<forall>(now, cost) \<in> set rs. 0 \<le> sint now"
  shows "sint tat \<le> sint tat' \<and> (let debt = admitted_debt t1 t2 (sint units) (sint period) admitted rs in
     debt = 0 \<or> max (sint tat) t1 + debt \<le> sint tat' \<and>
       max (sint tat) t1 + debt \<le> t2 + max_debt (sint capacity) (sint units) (sint period))"
  using assms unfolding Let_def
proof (induction rs arbitrary: tat admitted)
  case Nil
  then show ?case by (simp add: admitted_debt_def)
next
  case (Cons q rs)
  obtain now cost where q: "q = (now, cost)" by force
  have now: "0 \<le> sint now" using Cons.prems(2) q by auto
  obtain r as where r: "gcraCheck tat now capacity units period cost = Some r"
    and run: "gcra_run capacity units period (if g_throttled r then tat else g_admittedTAT r) rs
        = Some (as, tat')"
    and adm: "admitted = (\<not> g_throttled r) # as"
    using Cons.prems(1) q by (auto simp: bind_eq_Some_conv)
  note IH = Cons.IH [OF run] Cons.prems(2)
  show ?case
  proof (cases "g_throttled r")
    case True
    then show ?thesis using IH q adm by (simp add: admitted_debt_def)
  next
    case False
    note spec = gcraCheck_admitted [OF now r False]
    let ?cd = "cost_debt (sint cost) (sint units) (sint period)"
    have cd: "0 \<le> ?cd" using spec(5-7) by (simp add: cost_debt_nonneg)
    have "admitted_debt t1 t2 (sint units) (sint period) admitted (q # rs)
        = (if in_window t1 t2 now then ?cd else 0) + admitted_debt t1 t2 (sint units) (sint period) as rs"
      using False q adm by (simp add: admitted_debt_def)
    then show ?thesis using IH False spec(1,3) cd by (auto simp: in_window_def)
  qed
qed

lemma admitted_cost_le_debt:
  assumes "0 < units"
  shows "admitted_cost t1 t2 admitted rs * period \<le> admitted_debt t1 t2 units period admitted rs * units"
proof (induction admitted rs rule: list_induct2')
  case (4 a as q rs)
  obtain now cost where q: "q = (now, cost)" by force
  have "sint cost * period \<le> cost_debt (sint cost) units period * units"
    unfolding cost_debt_def using assms by (rule cdiv_mult_ge)
  with 4 q show ?case
    by (simp add: admitted_cost_def admitted_debt_def distrib_right)
qed (simp_all add: admitted_cost_def admitted_debt_def)

lemma max_debt_mult_le: "0 < units \<Longrightarrow> max_debt capacity units period * units \<le> capacity * period"
  by (simp add: max_debt_def pos_le_div_iff [symmetric])

lemma gcra_run_rate:
  assumes run: "gcra_run capacity units period tat rs = Some (admitted, tat')"
    and clock: "\<forall>(now, cost) \<in> set rs. 0 \<le> sint now" and window: "t1 \<le> t2"
    and sane: "0 < sint units" "0 \<le> sint period" "0 \<le> sint capacity"
  shows "admitted_cost t1 t2 admitted rs * sint period
    \<le> sint capacity * sint period + (t2 - t1) * sint units"
proof -
  let ?md = "max_debt (sint capacity) (sint units) (sint period)"
  let ?D = "admitted_debt t1 t2 (sint units) (sint period) admitted rs"
  have md: "0 \<le> ?md" using sane by (simp add: max_debt_nonneg)
  have "?D \<le> ?md + (t2 - t1)"
    using gcra_run_debt [OF run clock, of t1 t2] md window by (auto simp: Let_def)
  then have "?D * sint units \<le> (?md + (t2 - t1)) * sint units"
    using sane(1) by simp
  also have "\<dots> \<le> sint capacity * sint period + (t2 - t1) * sint units"
    using max_debt_mult_le [OF sane(1), of "sint capacity" "sint period"] by (simp add: distrib_right)
  finally show ?thesis
    using admitted_cost_le_debt [OF sane(1), of t1 t2 admitted rs "sint period"] by linarith
qed

text \<open>
  Retrying. When the request can fit at all (its debt is at most the bucket's), the reported
  \<open>retryAfter\<close> is the exact time to wait.
\<close>

lemma gcra_spec_retry_exact:
  assumes t: "gcra_spec tat now capacity units period cost = (True, rem, ra, tat')" and ra: "0 < ra"
    and fits: "cost_debt cost units period \<le> max_debt capacity units period"
    and later: "now \<le> now'" "0 \<le> now"
  shows "\<not> fst (gcra_spec tat now' capacity units period cost) \<longleftrightarrow>
     now + ra \<le> now' \<and> max tat now' + cost_debt cost units period < 2 ^ 63"
    and "now + ra \<le> max tat now"
proof -
  from t ra have sane: "0 < period" "0 < units" "0 \<le> capacity" "0 \<le> cost" "cost \<le> capacity"
    "max_debt capacity units period < 2 ^ 63" "cost_debt cost units period < 2 ^ 63"
    "max tat now + cost_debt cost units period < 2 ^ 63"
    and ra_eq: "ra = max tat now + cost_debt cost units period - now - max_debt capacity units period"
    by (auto simp: gcra_spec_def Let_def split: if_splits)
  show "now + ra \<le> max tat now" using ra_eq fits by simp
  then show "\<not> fst (gcra_spec tat now' capacity units period cost) \<longleftrightarrow>
     now + ra \<le> now' \<and> max tat now' + cost_debt cost units period < 2 ^ 63"
    using sane ra_eq ra later fits by (auto simp: gcra_spec_admits_iff)
qed

section \<open>The properties\<close>

text \<open>
  C3 (refinement). With a non-negative clock, \<open>gcraCheck\<close> on 64-bit integers computes the
  reference \<open>gcra_spec\<close> on unbounded integers on every branch: bad limits and products that leave
  \<open>int64\<close> fail closed, everything else is the exact leaky-bucket comparison.
\<close>

theorem gcraCheck_refines_reference:
  assumes "0 \<le> sint now"
  shows "map_option gcra_view (gcraCheck tat now capacity units period cost) =
    Some (gcra_spec (sint tat) (sint now) (sint capacity) (sint units) (sint period) (sint cost))"
  using assms by (rule gcraCheck_view)

theorem gcraCheck_refines_reference_witness:
  "map_option gcra_view (gcraCheck 0 1000 10 3 1000 1) = Some (False, 10, 0, 1334)"
proof -
  have "0 \<le> sint (1000 :: int64)" by simp
  from gcraCheck_refines_reference [OF this, of 0 10 3 1000 1] show ?thesis
    by (simp add: gcra_spec_def max_debt_def cost_debt_def headroom_def cdiv_def)
qed

text \<open>
  C12 (bounds). For every input whatever, \<open>gcraCheck\<close> returns without a run-time panic (no division
  by zero, no \<open>Div64\<close> overflow), the reported headroom lies in the bucket, a rejected request
  reports the TAT it was given and an admitted one a zero retry time.
\<close>

theorem gcraCheck_total_bounded:
  "\<exists>r. gcraCheck tat now capacity units period cost = Some r
     \<and> 0 \<le> sint (g_remaining r) \<and> sint (g_remaining r) \<le> max 0 (sint capacity)
     \<and> (if g_throttled r then g_admittedTAT r = tat else g_retryAfter r = 0)"
proof -
  obtain r where r: "gcraCheck tat now capacity units period cost = Some r"
    using gcraCheck_no_panic by blast
  with gcraCheck_remaining [OF r] gcraCheck_throttled_tat [OF r] gcraCheck_admitted_retry [OF r]
  show ?thesis by auto
qed

text \<open>
  C22 (functional). \<open>RetryAfter\<close> is exact where the request can fit the bucket: when a throttled check
  reports a positive retry time, the same request at a later clock reading \<open>t\<close> (same stored TAT) is
  throttled exactly while \<open>t\<close> is before \<open>now + RetryAfter\<close>. Where it cannot - its debt, rounded up,
  exceeds the bucket's, rounded down, even for a cost within the capacity - it is throttled at every
  \<open>t\<close>, although the check reports a positive retry time instead of the zero that says so.
\<close>

theorem gcra_retry_exact:
  assumes now: "0 \<le> sint now" and r: "gcraCheck tat now capacity units period cost = Some r"
    and throttled: "g_throttled r" "0 < sint (g_retryAfter r)"
    and later: "sint now \<le> sint t"
    and clock: "max (sint tat) (sint t) + cost_debt (sint cost) (sint units) (sint period) < 2 ^ 63"
  shows "\<exists>r'. gcraCheck tat t capacity units period cost = Some r'
      \<and> (g_throttled r' \<longleftrightarrow>
           cost_debt (sint cost) (sint units) (sint period) \<le> max_debt (sint capacity) (sint units) (sint period)
           \<longrightarrow> sint t < sint now + sint (g_retryAfter r))"
proof -
  have t: "0 \<le> sint t" using now later by simp
  obtain r' where r': "gcraCheck tat t capacity units period cost = Some r'"
    and spec': "gcra_spec (sint tat) (sint t) (sint capacity) (sint units) (sint period) (sint cost)
      = (g_throttled r', sint (g_remaining r'), sint (g_retryAfter r'), sint (g_admittedTAT r'))"
    using t by (rule gcraCheck_cases)
  have spec: "gcra_spec (sint tat) (sint now) (sint capacity) (sint units) (sint period) (sint cost)
      = (True, sint (g_remaining r), sint (g_retryAfter r), sint (g_admittedTAT r))"
    using gcraCheck_eq_iff [OF now r] throttled(1) by simp
  show ?thesis
  proof (cases "cost_debt (sint cost) (sint units) (sint period)
      \<le> max_debt (sint capacity) (sint units) (sint period)")
    case True
    from gcra_spec_retry_exact(1) [OF spec throttled(2) True later now] clock
    show ?thesis using r' True by (auto simp: spec')
  next
    case False
    then have "g_throttled r'"
      using spec' by (auto simp: gcra_spec_def Let_def split: if_splits)
    with r' False show ?thesis by blast
  qed
qed

text \<open>A request that fits, and one of the whole capacity at three units per second, which does not.\<close>

theorem gcra_retry_exact_witness:
  "(\<exists>r'. gcraCheck 7000 6000 2 1 1000 2 = Some r' \<and> (g_throttled r' \<longleftrightarrow> (6000 :: int) < 5000 + 2000))
   \<and> (\<exists>r r'. gcraCheck 0 5000 100 3 1000000000 100 = Some r \<and> 0 < sint (g_retryAfter r)
        \<and> gcraCheck 0 1000000000000 100 3 1000000000 100 = Some r' \<and> g_throttled r')"
proof (intro conjI)
  have r: "gcraCheck 7000 5000 2 1 1000 2
      = Some \<lparr>g_throttled = True, g_remaining = 0, g_retryAfter = 2000, g_admittedTAT = 7000\<rparr>"
    by code_simp
  show "\<exists>r'. gcraCheck 7000 6000 2 1 1000 2 = Some r' \<and> (g_throttled r' \<longleftrightarrow> (6000 :: int) < 5000 + 2000)"
    using gcra_retry_exact [OF _ r, of 6000] by (simp add: cost_debt_def max_debt_def)
  have q: "map_option (\<lambda>r. (g_throttled r, g_retryAfter r)) (gcraCheck 0 5000 100 3 1000000000 100) = Some (True, 1)"
    by code_simp
  then obtain r where r: "gcraCheck 0 5000 100 3 1000000000 100 = Some r" "g_throttled r" "g_retryAfter r = 1" by auto
  then show "\<exists>r r'. gcraCheck 0 5000 100 3 1000000000 100 = Some r \<and> 0 < sint (g_retryAfter r)
        \<and> gcraCheck 0 1000000000000 100 3 1000000000 100 = Some r' \<and> g_throttled r'"
    using gcra_retry_exact [OF _ r(1,2), of 1000000000000] by (simp add: max_debt_def cost_debt_def cdiv_def)
qed

end
