(* ===== verification/Throttler.thy ===== *)
theory Throttler
  imports Types
begin

text \<open>
  The interface \<open>server.Throttler\<close>: one call evaluates a list of entries. An implementation is a
  function of its own state, the clock and the entries, \<open>None\<close> being a panic; the context is the
  live \<open>context.Background()\<close> the server passes. The contract its documentation states: a result of
  the same length, in the same order, each entry echoing its key.
\<close>

type_synonym 't throttle_fun =
  "'t \<Rightarrow> int64 \<Rightarrow> request_entry list \<Rightarrow> ('t \<times> response_entry list \<times> go_err option) option"

locale throttler_contract =
  fixes throttle :: "'t throttle_fun"
    and ok :: "'t \<Rightarrow> bool"
  assumes throttle_returns:
    "ok t \<Longrightarrow> \<exists>t' rs err. throttle t now entries = Some (t', rs, err) \<and> ok t' \<and> map s_Key rs = map q_Key entries"
begin

lemma throttle_length:
  "ok t \<Longrightarrow> throttle t now entries = Some (t', rs, err) \<Longrightarrow> length rs = length entries"
  using throttle_returns [of t now entries] by (auto dest: map_eq_imp_length_eq)

lemma throttle_ok: "ok t \<Longrightarrow> throttle t now entries = Some (t', rs, err) \<Longrightarrow> ok t'"
  using throttle_returns [of t now entries] by auto

lemma throttle_keys:
  "ok t \<Longrightarrow> throttle t now entries = Some (t', rs, err) \<Longrightarrow> map s_Key rs = map q_Key entries"
  using throttle_returns [of t now entries] by auto

end

section \<open>The test doubles of \<open>deadhorsetest\<close>\<close>

definition NoOpThrottle :: "unit throttle_fun" where
  "NoOpThrottle t now entries = Some (t, map (\<lambda>e. zero_response\<lparr>s_Key := q_Key e\<rparr>) entries, None)"

definition AlwaysTrueThrottle :: "unit throttle_fun" where
  "AlwaysTrueThrottle t now entries =
     Some (t, map (\<lambda>e. zero_response\<lparr>s_Key := q_Key e, s_Throttled := True\<rparr>) entries, None)"

interpretation no_op: throttler_contract NoOpThrottle "\<lambda>_. True"
  by unfold_locales (simp add: NoOpThrottle_def comp_def)

interpretation always_true: throttler_contract AlwaysTrueThrottle "\<lambda>_. True"
  by unfold_locales (simp add: AlwaysTrueThrottle_def comp_def)

end
