(* ===== verification/Throttling.thy ===== *)
theory Throttling
  imports Store GcraProps Throttler "HOL-Library.Char_ord" "HOL-Library.List_Lexorder"
begin

text \<open>
  \<open>server/throttling.go\<close>: \<open>InMemoryThrottler.Throttle\<close> and \<open>evaluateRealGroup\<close>.

  The clock reading (\<open>time.Now().UnixNano()\<close>) and the context's error are arguments; the store is
  passed and returned. \<open>None\<close> is a panic. Here one call runs alone; \<open>Transactions\<close> is about
  concurrent ones. Go's iteration over a map has no order:
  the model goes through the collected buckets in the order they were first touched, and
  \<open>write_back_order\<close> shows the order does not matter.
\<close>

section \<open>The model\<close>

text \<open>One entry's check against a TAT, with the normalisations every call site applies.\<close>

definition check_entry :: "int64 \<Rightarrow> int64 \<Rightarrow> request_entry \<Rightarrow> gcra_result option" where
  "check_entry tat now e =
     gcraCheck tat now (l_Capacity (q_Limit e)) (EffectiveUnits (r_Units (l_Rate (q_Limit e))))
       (r_Period (l_Rate (q_Limit e))) (EffectiveCost (q_Cost e))"

text \<open>The three fields a check fills in \<open>result[i]\<close>.\<close>

definition set_result :: "response_entry \<Rightarrow> gcra_result \<Rightarrow> response_entry" where
  "set_result r g = r\<lparr>s_Throttled := g_throttled g, s_Remaining := g_remaining g,
     s_RetryAfter := g_retryAfter g\<rparr>"

text \<open>
  The loop over all entries: echo the key, evaluate a Peek entry at once, remember the indices of
  the Real ones. \<open>i\<close> is the index of the first remaining entry.
\<close>

fun peek_loop ::
  "int64 \<Rightarrow> nat \<Rightarrow> request_entry list \<Rightarrow> store \<Rightarrow> response_entry list \<Rightarrow> nat list
    \<Rightarrow> (store \<times> response_entry list \<times> nat list) option" where
  "peek_loop now i [] st result realIdx = Some (st, result, realIdx)"
| "peek_loop now i (e # es) st result realIdx =
     (let result = result[i := (result ! i)\<lparr>s_Key := q_Key e\<rparr>] in
      if \<not> q_Peek e then peek_loop now (Suc i) es st result (realIdx @ [i])
      else do {
        (b, st) \<leftarrow> store_get st (q_Key e);
        g \<leftarrow> check_entry (read_tat st b) now e;
        peek_loop now (Suc i) es st (result[i := set_result (result ! i) g]) realIdx
      })"

text \<open>
  \<open>evaluateRealGroup\<close> in its steps: collect each touched key's bucket once; the keys in the locking
  order; the group's private copy of the TATs; the checks; the write-back.
\<close>

fun collect_buckets ::
  "('st \<Rightarrow> string \<Rightarrow> (addr \<times> 'st) option) \<Rightarrow> 'st \<Rightarrow> string list \<Rightarrow> (string \<times> addr) list
    \<Rightarrow> ((string \<times> addr) list \<times> 'st) option" where
  "collect_buckets get st [] m = Some (m, st)"
| "collect_buckets get st (k # ks) m =
     (if k \<in> fst ` set m then collect_buckets get st ks m
      else do {
        (b, st) \<leftarrow> get st k;
        collect_buckets get st ks (m @ [(k, b)])
      })"

definition lock_order :: "(string \<times> addr) list \<Rightarrow> string list" where
  "lock_order m = sort (map fst m)"

definition seed_working :: "('st \<Rightarrow> addr \<Rightarrow> int64) \<Rightarrow> 'st \<Rightarrow> (string \<times> addr) list \<Rightarrow> string \<Rightarrow> int64" where
  "seed_working read_b st m k = (case map_of m k of None \<Rightarrow> 0 | Some b \<Rightarrow> read_b st b)"

fun group_loop ::
  "request_entry list \<Rightarrow> nat list \<Rightarrow> int64 \<Rightarrow> bool \<Rightarrow> (string \<Rightarrow> int64) \<Rightarrow> response_entry list
    \<Rightarrow> (bool \<times> (string \<Rightarrow> int64) \<times> response_entry list) option" where
  "group_loop entries [] now admitAll working result = Some (admitAll, working, result)"
| "group_loop entries (i # is) now admitAll working result =
     (let e = entries ! i in do {
        g \<leftarrow> check_entry (working (q_Key e)) now e;
        group_loop entries is now (admitAll \<and> \<not> g_throttled g)
          (if g_throttled g then working else working(q_Key e := g_admittedTAT g))
          (result[i := set_result (result ! i) g])
      })"

fun write_back ::
  "('st \<Rightarrow> addr \<Rightarrow> int64 \<Rightarrow> 'st) \<Rightarrow> 'st \<Rightarrow> (string \<times> addr) list \<Rightarrow> (string \<Rightarrow> int64) \<Rightarrow> 'st" where
  "write_back write_b st [] working = st"
| "write_back write_b st ((k, b) # m) working = write_back write_b (write_b st b (working k)) m working"

definition evaluateRealGroup ::
  "store \<Rightarrow> request_entry list \<Rightarrow> nat list \<Rightarrow> int64 \<Rightarrow> response_entry list
    \<Rightarrow> (store \<times> response_entry list) option" where
  "evaluateRealGroup st entries realIdx now result = do {
     (buckets, st) \<leftarrow> collect_buckets store_get st (map (\<lambda>i. q_Key (entries ! i)) realIdx) [];
     let working = seed_working read_tat st buckets;
     (admitAll, working, result) \<leftarrow> group_loop entries realIdx now True working result;
     Some (if admitAll then write_back write_tat st buckets working else st, result)
   }"

definition Throttle ::
  "store \<Rightarrow> ctx_err option \<Rightarrow> int64 \<Rightarrow> request_entry list
    \<Rightarrow> (store \<times> response_entry list \<times> go_err option) option" where
  "Throttle st ctxErr now entries =
     (case ctxErr of
        Some err \<Rightarrow>
          Some (st, map (\<lambda>e. zero_response\<lparr>s_Key := q_Key e, s_Throttled := True,
                               s_Err := Some (ContextErr err)\<rparr>) entries, Some (ContextErr err))
      | None \<Rightarrow> do {
          (st, result, realIdx) \<leftarrow>
            peek_loop now 0 entries st (replicate (length entries) zero_response) [];
          (st, result) \<leftarrow> (if realIdx \<noteq> [] then evaluateRealGroup st entries realIdx now result
                            else Some (st, result));
          Some (st, result, None)
        })"

definition NewInMemoryThrottler :: "int64 \<Rightarrow> int64 \<Rightarrow> store \<times> int64" where
  "NewInMemoryThrottler numStripes gcInterval = newStore numStripes gcInterval"

definition throttler_Close :: "store \<Rightarrow> store" where
  "throttler_Close st = store_close st"

definition throttler_keyCountEstimate :: "store \<Rightarrow> nat" where
  "throttler_keyCountEstimate st = keyCountEstimate st"

section \<open>The abstract specification\<close>

text \<open>
  What \<open>Throttle\<close> promises, on a map from keys to TATs and with no store: a Peek entry is checked
  against the map; the Real entries are checked one after the other against a copy that the admitted
  ones advance; the copy becomes the map if all of them are admitted. \<open>chk\<close> is \<open>check_entry\<close>,
  which always returns.
\<close>

definition chk :: "int64 \<Rightarrow> int64 \<Rightarrow> request_entry \<Rightarrow> gcra_result" where
  "chk tat now e = the (check_entry tat now e)"

definition respond :: "request_entry \<Rightarrow> gcra_result \<Rightarrow> response_entry" where
  "respond e g = set_result (zero_response\<lparr>s_Key := q_Key e\<rparr>) g"

definition advance :: "(string \<Rightarrow> int64) \<Rightarrow> int64 \<Rightarrow> request_entry \<Rightarrow> string \<Rightarrow> int64" where
  "advance work now e =
     (let g = chk (work (q_Key e)) now e in
      if g_throttled g then work else work(q_Key e := g_admittedTAT g))"

fun spec_eval ::
  "int64 \<Rightarrow> (string \<Rightarrow> int64) \<Rightarrow> (string \<Rightarrow> int64) \<Rightarrow> request_entry list
    \<Rightarrow> response_entry list \<times> bool \<times> (string \<Rightarrow> int64)" where
  "spec_eval now tat work [] = ([], True, work)"
| "spec_eval now tat work (e # es) =
     (if q_Peek e then
        (let (rs, ok, w) = spec_eval now tat work es
         in (respond e (chk (tat (q_Key e)) now e) # rs, ok, w))
      else
        (let g = chk (work (q_Key e)) now e;
             (rs, ok, w) = spec_eval now tat (advance work now e) es
         in (respond e g # rs, \<not> g_throttled g \<and> ok, w)))"

definition spec_throttle ::
  "int64 \<Rightarrow> (string \<Rightarrow> int64) \<Rightarrow> request_entry list \<Rightarrow> (string \<Rightarrow> int64) \<times> response_entry list" where
  "spec_throttle now tat entries =
     (let (rs, ok, w) = spec_eval now tat tat entries in (if ok then w else tat, rs))"

lemma check_entry_chk: "check_entry tat now e = Some (chk tat now e)"
  using gcraCheck_no_panic by (auto simp: chk_def check_entry_def)

lemma advance_other: "k \<noteq> q_Key e \<Longrightarrow> advance work now e k = work k"
  by (simp add: advance_def Let_def)

definition real_keys :: "request_entry list \<Rightarrow> string set" where
  "real_keys es = q_Key ` {e \<in> set es. \<not> q_Peek e}"

lemma real_keys_simps [simp]:
  "real_keys [] = {}"
  "real_keys (e # es) = (if q_Peek e then real_keys es else insert (q_Key e) (real_keys es))"
  by (auto simp: real_keys_def)

text \<open>The evaluation reads and changes the working copy at the keys of Real entries only.\<close>

lemma advance_agree:
  assumes "\<forall>k \<in> K. work k = work' k" "q_Key e \<in> K"
  shows "\<forall>k \<in> K. advance work now e k = advance work' now e k"
  using assms by (simp add: advance_def Let_def)

lemma spec_eval_cong:
  assumes "\<forall>k \<in> K. work k = work' k" "real_keys es \<subseteq> K"
  shows "fst (spec_eval now tat work es) = fst (spec_eval now tat work' es)
    \<and> fst (snd (spec_eval now tat work es)) = fst (snd (spec_eval now tat work' es))
    \<and> (\<forall>k \<in> K. snd (snd (spec_eval now tat work es)) k = snd (snd (spec_eval now tat work' es)) k)"
  using assms
proof (induction es arbitrary: work work')
  case (Cons e es)
  show ?case
  proof (cases "q_Peek e")
    case True
    with Cons.IH [of work work'] Cons.prems show ?thesis
      by (simp add: case_prod_beta Let_def)
  next
    case False
    with Cons.prems have e: "q_Key e \<in> K" "real_keys es \<subseteq> K" by simp_all
    note IH = Cons.IH [OF advance_agree [OF Cons.prems(1) e(1), of now] e(2)]
    from Cons.prems(1) e(1) have "work (q_Key e) = work' (q_Key e)" by simp
    with False IH show ?thesis by (simp add: case_prod_beta Let_def)
  qed
qed simp

lemma spec_eval_other: "k \<notin> real_keys es \<Longrightarrow> snd (snd (spec_eval now tat work es)) k = work k"
  by (induction es arbitrary: work)
    (auto simp: case_prod_beta Let_def advance_other split: if_splits)

section \<open>Buckets: collecting, seeding, writing back\<close>

text \<open>The handles a call collected: each key once, with the bucket the key is bound to.\<close>

definition handles :: "(string \<Rightarrow> addr option) \<Rightarrow> (string \<times> addr) list \<Rightarrow> bool" where
  "handles own m \<longleftrightarrow> distinct (map fst m) \<and> (\<forall>(k, b) \<in> set m. own k = Some b)"

lemma handles_Nil [simp]: "handles own []"
  by (simp add: handles_def)

lemma handles_Cons:
  "handles own ((k, b) # m) \<longleftrightarrow> own k = Some b \<and> k \<notin> fst ` set m \<and> handles own m"
  by (auto simp: handles_def)

context bucket_store begin

lemma collect_effect:
  assumes "ok st" "handles (owner st) m"
  shows "\<exists>m' st'. collect_buckets get st ks m = Some (m', st') \<and> ok st' \<and> tat st' = tat st
    \<and> handles (owner st') m' \<and> fst ` set m' = fst ` set m \<union> set ks"
  using assms
proof (induction ks arbitrary: st m)
  case (Cons k ks)
  show ?case
  proof (cases "k \<in> fst ` set m")
    case True
    with Cons.IH [OF Cons.prems] show ?thesis by (auto simp: insert_absorb)
  next
    case False
    obtain b st1 where g: "get st k = Some (b, st1)" "ok st1" "owner st1 = (owner st)(k \<mapsto> b)"
      "tat st1 = tat st" by (rule get_effect [OF Cons.prems(1)])
    have "handles (owner st1) (m @ [(k, b)])"
      using Cons.prems(2) False g(3) by (force simp: handles_def)
    from Cons.IH [OF g(2) this] False g(1,4) show ?thesis by auto
  qed
qed auto

lemma seed_effect:
  assumes "ok st" "handles (owner st) m" "k \<in> fst ` set m"
  shows "seed_working read_b st m k = tat st k"
proof -
  obtain b where b: "(k, b) \<in> set m" using assms(3) by auto
  with assms(2) have "map_of m k = Some b" "owner st k = Some b"
    by (auto simp: handles_def)
  with read_owner [OF assms(1)] show ?thesis by (simp add: seed_working_def)
qed

lemma write_back_effect:
  assumes "ok st" "handles (owner st) m"
  shows "ok (write_back write_b st m working)
    \<and> tat (write_back write_b st m working) = (\<lambda>k. if k \<in> fst ` set m then working k else tat st k)"
  using assms
proof (induction m arbitrary: st)
  case (Cons kb m)
  obtain k b where kb: "kb = (k, b)" by force
  with Cons.prems(2) have own: "owner st k = Some b" "k \<notin> fst ` set m" "handles (owner st) m"
    by (simp_all add: handles_Cons)
  note IH = Cons.IH [of "write_b st b (working k)"]
  have "ok (write_b st b (working k))" "tat (write_b st b (working k)) = (tat st)(k := working k)"
    using write_ok write_tat Cons.prems(1) own(1) by auto
  with IH own(2,3) kb show ?case by (auto simp: write_owner)
qed simp

text \<open>The order of the write-back, which Go leaves open, does not matter.\<close>

lemma write_back_order:
  assumes "ok st" "handles (owner st) m" "handles (owner st) m'" "set m = set m'"
  shows "tat (write_back write_b st m working) = tat (write_back write_b st m' working)"
  using write_back_effect [OF assms(1,2), of working] write_back_effect [OF assms(1,3), of working] assms(4)
  by simp

end

section \<open>The two loops\<close>

definition peek_fill :: "int64 \<Rightarrow> (string \<Rightarrow> int64) \<Rightarrow> request_entry \<Rightarrow> response_entry" where
  "peek_fill now tat e =
     (let r = zero_response\<lparr>s_Key := q_Key e\<rparr> in
      if q_Peek e then set_result r (chk (tat (q_Key e)) now e) else r)"

definition real_indices :: "request_entry list \<Rightarrow> nat \<Rightarrow> nat list" where
  "real_indices entries i = filter (\<lambda>j. \<not> q_Peek (entries ! j)) [i..<length entries]"

lemma real_indices_Cons:
  "real_indices (pre @ e # es) (length pre) =
     (if q_Peek e then [] else [length pre]) @ real_indices (pre @ e # es) (Suc (length pre))"
  by (simp add: real_indices_def upt_conv_Cons del: upt_Suc)

lemma real_indices_end [simp]: "real_indices entries (length entries) = []"
  by (simp add: real_indices_def)

lemma peek_loop_effect:
  assumes "store_inv st" "length out = length pre"
  shows "\<exists>st'. peek_loop now (length pre) es st (out @ replicate (length es) zero_response) idx =
      Some (st', out @ map (peek_fill now (tat_of st)) es,
            idx @ real_indices (pre @ es) (length pre))
    \<and> store_inv st' \<and> tat_of st' = tat_of st"
  using assms
proof (induction es arbitrary: st pre out idx)
  case (Cons e es)
  let ?r = "zero_response\<lparr>s_Key := q_Key e\<rparr>"
  note IH = Cons.IH [where pre = "pre @ [e]", simplified]
  show ?case
  proof (cases "q_Peek e")
    case False
    with IH [OF Cons.prems(1), of "out @ [?r]" "idx @ [length pre]"] Cons.prems(2)
    show ?thesis
      by (simp add: real_indices_Cons peek_fill_def nth_append list_update_append)
  next
    case True
    obtain b st1 where g: "store_get st (q_Key e) = Some (b, st1)" "store_inv st1"
      "tat_of st1 = tat_of st" "read_tat st1 b = tat_of st (q_Key e)"
      using buckets.get_effect [OF Cons.prems(1), of "q_Key e"] by metis
    let ?g = "chk (tat_of st (q_Key e)) now e"
    from IH [OF g(2), of "out @ [set_result ?r ?g]" idx] Cons.prems(2) True g(1,3,4)
    show ?thesis
      by (simp add: real_indices_Cons peek_fill_def nth_append list_update_append check_entry_chk
         )
  qed
qed simp

lemma group_loop_effect:
  assumes "length out = length pre"
  shows "group_loop (pre @ es) (real_indices (pre @ es) (length pre)) now ok work
      (out @ map (peek_fill now tat) es) =
    (let (rs, ok', w) = spec_eval now tat work es in Some (ok \<and> ok', w, out @ rs))"
  using assms
proof (induction es arbitrary: pre out ok work)
  case (Cons e es)
  note IH = Cons.IH [where pre = "pre @ [e]", simplified]
  show ?case
  proof (cases "q_Peek e")
    case True
    with IH [of "out @ [peek_fill now tat e]"] Cons.prems show ?thesis
      by (simp add: real_indices_Cons peek_fill_def respond_def case_prod_beta Let_def)
  next
    case False
    let ?g = "chk (work (q_Key e)) now e"
    from IH [of "out @ [respond e ?g]" "ok \<and> \<not> g_throttled ?g" "advance work now e"] Cons.prems False
    show ?thesis
      by (simp add: real_indices_Cons peek_fill_def respond_def case_prod_beta Let_def nth_append
          list_update_append check_entry_chk advance_def conj_assoc)
  qed
qed simp

section \<open>One call against its specification\<close>

lemma group_keys:
  "set (map (\<lambda>i. q_Key (entries ! i)) (real_indices entries 0)) = real_keys entries"
  by (force simp: real_indices_def real_keys_def in_set_conv_nth)

lemma no_real_entries: "real_indices entries 0 = [] \<Longrightarrow> \<forall>e \<in> set entries. q_Peek e"
  by (auto simp: real_indices_def filter_empty_conv in_set_conv_nth)

lemma spec_eval_all_peek:
  "\<forall>e \<in> set es. q_Peek e \<Longrightarrow> spec_eval now tat work es = (map (peek_fill now tat) es, True, work)"
  by (induction es arbitrary: work) (simp_all add: peek_fill_def respond_def)

lemma evaluateRealGroup_effect:
  assumes "store_inv st"
  shows "\<exists>st'. evaluateRealGroup st entries (real_indices entries 0) now
        (map (peek_fill now (tat_of st)) entries)
      = Some (st', snd (spec_throttle now (tat_of st) entries))
    \<and> store_inv st' \<and> tat_of st' = fst (spec_throttle now (tat_of st) entries)"
proof -
  let ?ks = "map (\<lambda>i. q_Key (entries ! i)) (real_indices entries 0)"
  let ?tat = "tat_of st" and ?K = "real_keys entries"
  obtain m st1 where c: "collect_buckets store_get st ?ks [] = Some (m, st1)"
    and st1: "store_inv st1" "tat_of st1 = ?tat" "handles (bucket_addr st1) m" "fst ` set m = ?K"
    using buckets.collect_effect [OF assms, of "[]" ?ks] group_keys [of entries] by auto
  let ?seed = "seed_working read_tat st1 m"
  obtain rs ok w where ev: "spec_eval now ?tat ?seed entries = (rs, ok, w)"
    by (metis prod_cases3)
  have "\<forall>k \<in> ?K. ?seed k = ?tat k"
    using buckets.seed_effect [OF st1(1,3)] st1(2,4) by auto
  note cong = spec_eval_cong [OF this order_refl, of now ?tat, unfolded ev, simplified]
  obtain rs' ok' w' where "spec_eval now ?tat ?tat entries = (rs', ok', w')"
    by (metis prod_cases3)
  with cong have ev': "spec_eval now ?tat ?tat entries = (rs, ok, w')" and w: "\<forall>k \<in> ?K. w k = w' k"
    by simp_all
  have other: "w' k = ?tat k" if "k \<notin> ?K" for k
    using spec_eval_other [OF that, of now ?tat ?tat] ev' by simp
  have loop: "group_loop entries (real_indices entries 0) now True ?seed
      (map (peek_fill now ?tat) entries) = Some (ok, w, rs)"
    using group_loop_effect [of "[]" "[]" entries now True ?seed ?tat] ev by simp
  note wb = buckets.write_back_effect [OF st1(1,3), of w]
  have "(\<lambda>k. if k \<in> ?K then w k else ?tat k) = w'"
    by (rule ext) (simp add: w other)
  then have "tat_of (if ok then write_back write_tat st1 m w else st1) = (if ok then w' else ?tat)"
    using conjunct2 [OF wb, unfolded st1(2,4)] by (simp add: st1(2))
  moreover have "store_inv (if ok then write_back write_tat st1 m w else st1)"
    using wb st1(1) by simp
  moreover have "spec_throttle now ?tat entries = (if ok then w' else ?tat, rs)"
    by (simp add: spec_throttle_def ev')
  ultimately show ?thesis
    by (simp add: evaluateRealGroup_def c loop)
qed

lemma Throttle_effect:
  assumes "store_inv st"
  shows "\<exists>st'. Throttle st None now entries
      = Some (st', snd (spec_throttle now (tat_of st) entries), None)
    \<and> store_inv st' \<and> tat_of st' = fst (spec_throttle now (tat_of st) entries)"
proof -
  obtain st1 where st1: "peek_loop now 0 entries st (replicate (length entries) zero_response) []
      = Some (st1, map (peek_fill now (tat_of st)) entries, real_indices entries 0)"
    "store_inv st1" "tat_of st1 = tat_of st"
    using peek_loop_effect [OF assms, of "[]" "[]" now entries "[]"] by auto
  show ?thesis
  proof (cases "real_indices entries 0 = []")
    case True
    with st1 spec_eval_all_peek [OF no_real_entries [OF True]] show ?thesis
      by (simp add: Throttle_def spec_throttle_def)
  next
    case False
    with st1 evaluateRealGroup_effect [OF st1(2), of entries now] show ?thesis
      by (auto simp: Throttle_def)
  qed
qed

text \<open>As rules: what a call that returned did.\<close>

lemma Throttle_Some:
  assumes "store_inv st" "Throttle st None now entries = Some (st', rs, err)"
  shows "spec_throttle now (tat_of st) entries = (tat_of st', rs)" "err = None" "store_inv st'"
  using Throttle_effect [OF assms(1), of now entries] assms(2) by (auto simp: prod_eq_iff)

lemma Throttle_total:
  assumes "store_inv st"
  shows "\<exists>st' rs err. Throttle st ctxErr now entries = Some (st', rs, err) \<and> store_inv st'"
proof (cases ctxErr)
  case None
  with Throttle_effect [OF assms, of now entries] show ?thesis by auto
qed (simp add: Throttle_def assms)

text \<open>\<open>InMemoryThrottler\<close> as the server sees it: with a context that is never done.\<close>

definition InMemoryThrottle :: "store throttle_fun" where
  "InMemoryThrottle st now entries = Throttle st None now entries"

end
