(* ===== verification/GoStrings.thy ===== *)
theory GoStrings
  imports Prelude
begin

text \<open>
  The parts of Go's \<open>strings\<close>, \<open>unicode\<close>, \<open>utf8\<close> and \<open>strconv\<close> that the program's parsers and
  printers call, on byte strings. Whitespace in Go is a property of runes, so tokenising a line
  decodes UTF-8 as \<open>range\<close> over a string does: an invalid byte is the rune U+FFFD of width one.
  The lemmas say when tokenising, splitting and printing invert each other.
\<close>

section \<open>UTF-8 and white space\<close>

abbreviation (input) RuneError :: nat where "RuneError \<equiv> 0xFFFD"

definition is_cont :: "char \<Rightarrow> bool" where
  "is_cont c \<longleftrightarrow> 0x80 \<le> (of_char c :: nat) \<and> of_char c \<le> (0xBF :: nat)"

text \<open>The accepted range of the second byte, by the first.\<close>

definition second_lo :: "nat \<Rightarrow> nat" where
  "second_lo p0 = (if p0 = 0xE0 then 0xA0 else if p0 = 0xF0 then 0x90 else 0x80)"

definition second_hi :: "nat \<Rightarrow> nat" where
  "second_hi p0 = (if p0 = 0xED then 0x9F else if p0 = 0xF4 then 0x8F else 0xBF)"

text \<open>\<open>utf8.DecodeRuneInString\<close>: the first rune and its width in bytes.\<close>

fun decode_rune :: "string \<Rightarrow> nat \<times> nat" where
  "decode_rune [] = (RuneError, 0)"
| "decode_rune (c0 # s) =
     (let p0 = of_char c0 in
      if p0 < 0x80 then (p0, 1)
      else if p0 < 0xC2 \<or> 0xF4 < p0 then (RuneError, 1)
      else case s of
        [] \<Rightarrow> (RuneError, 1)
      | c1 # s1 \<Rightarrow>
          if of_char c1 < second_lo p0 \<or> second_hi p0 < of_char c1 then (RuneError, 1)
          else if p0 < 0xE0 then (p0 mod 32 * 64 + of_char c1 mod 64, 2)
          else (case s1 of
              [] \<Rightarrow> (RuneError, 1)
            | c2 # s2 \<Rightarrow>
                if \<not> is_cont c2 then (RuneError, 1)
                else if p0 < 0xF0
                then (p0 mod 16 * 4096 + of_char c1 mod 64 * 64 + of_char c2 mod 64, 3)
                else (case s2 of
                    [] \<Rightarrow> (RuneError, 1)
                  | c3 # s3 \<Rightarrow>
                      if \<not> is_cont c3 then (RuneError, 1)
                      else (p0 mod 8 * 262144 + of_char c1 mod 64 * 4096
                            + of_char c2 mod 64 * 64 + of_char c3 mod 64, 4))))"

lemma decode_rune_width: "s \<noteq> [] \<Longrightarrow> 1 \<le> snd (decode_rune s) \<and> snd (decode_rune s) \<le> length s"
  by (cases s) (auto simp: Let_def split: list.splits)

text \<open>\<open>for _, r := range s\<close>: the runes with their bytes.\<close>

function rune_split :: "string \<Rightarrow> (nat \<times> string) list" where
  "rune_split s =
     (if s = [] then []
      else (fst (decode_rune s), take (snd (decode_rune s)) s) # rune_split (drop (snd (decode_rune s)) s))"
  by pat_completeness auto
termination
  by (relation "measure length") (use decode_rune_width in \<open>auto simp: Suc_le_eq\<close>)

declare rune_split.simps [simp del]

lemma rune_split_Nil [simp]: "rune_split [] = []"
  by (simp add: rune_split.simps)

definition IsSpace :: "nat \<Rightarrow> bool" where
  "IsSpace r \<longleftrightarrow>
     (if r \<le> 0xFF then r \<in> {9, 10, 11, 12, 13, 32, 0x85, 0xA0}
      else r = 0x1680 \<or> (0x2000 \<le> r \<and> r \<le> 0x200A) \<or> r \<in> {0x2028, 0x2029, 0x202F, 0x205F, 0x3000})"

lemma rune_split_bytes: "concat (map snd (rune_split s)) = s"
proof (induction s rule: rune_split.induct)
  case (1 s)
  show ?case
  proof (cases "s = []")
    case False
    with 1 show ?thesis by (simp add: rune_split.simps [of s])
  qed simp
qed

lemma rune_split_eq_Nil_iff [simp]: "rune_split s = [] \<longleftrightarrow> s = []"
  by (metis rune_split_Nil rune_split_bytes concat.simps(1) list.simps(8))

lemma rune_split_nonempty_bytes: "(r, b) \<in> set (rune_split s) \<Longrightarrow> b \<noteq> []"
proof (induction s rule: rune_split.induct)
  case (1 s)
  show ?case
  proof (cases "s = []")
    case False
    with 1 decode_rune_width [OF False] show ?thesis
      by (auto simp: rune_split.simps [of s])
  qed (use 1 in simp)
qed

text \<open>
  An ASCII byte always stands for itself, and cuts a string into two that are decoded separately.
\<close>

abbreviation is_ascii :: "char \<Rightarrow> bool" where
  "is_ascii c \<equiv> of_char c < (128 :: nat)"

lemma decode_rune_ascii [simp]: "is_ascii c \<Longrightarrow> decode_rune (c # s) = (of_char c, 1)"
  by (simp add: Let_def)

lemma second_lo_ge: "128 \<le> second_lo p"
  by (simp add: second_lo_def)

lemma ascii_not_cont: "is_ascii c \<Longrightarrow> \<not> is_cont c"
  by (simp add: is_cont_def)

lemma decode_rune_ascii_stop:
  assumes "a \<noteq> []" and c: "is_ascii c"
  shows "decode_rune (a @ c # b) = decode_rune a"
proof -
  have lo: "of_char c < second_lo p" for p using c second_lo_ge [of p] by simp
  obtain c0 s where a: "a = c0 # s" using assms(1) by (cases a) auto
  consider "s = []" | c1 where "s = [c1]" | c1 c2 where "s = [c1, c2]"
    | c1 c2 c3 r where "s = c1 # c2 # c3 # r"
    by (metis list.exhaust)
  then show ?thesis
    by cases (auto simp: a Let_def lo ascii_not_cont c)
qed

lemma rune_split_ascii_Cons [simp]:
  "is_ascii c \<Longrightarrow> rune_split (c # s) = (of_char c, [c]) # rune_split s"
  by (subst rune_split.simps) simp

lemma rune_split_append_ascii:
  assumes c: "is_ascii c"
  shows "rune_split (a @ c # b) = rune_split a @ (of_char c, [c]) # rune_split b"
proof (induction a rule: rune_split.induct)
  case (1 a)
  show ?case
  proof (cases "a = []")
    case True
    with c show ?thesis by simp
  next
    case False
    let ?n = "snd (decode_rune a)"
    note w = decode_rune_width [OF False]
    have "rune_split (a @ c # b) = (fst (decode_rune a), take ?n a) # rune_split (drop ?n a @ c # b)"
      using w False by (subst rune_split.simps) (simp add: decode_rune_ascii_stop [OF False c])
    also have "rune_split (drop ?n a @ c # b) = rune_split (drop ?n a) @ (of_char c, [c]) # rune_split b"
      by (rule 1 [OF False])
    finally show ?thesis using False by (simp add: rune_split.simps [of a])
  qed
qed

text \<open>Appending a string of ASCII bytes only.\<close>

lemma rune_split_append_ascii_list:
  "list_all is_ascii b \<Longrightarrow> rune_split (a @ b) = rune_split a @ map (\<lambda>c. (of_char c, [c])) b"
proof (induction b arbitrary: a)
  case (Cons c b)
  have "rune_split (a @ c # b) = rune_split a @ (of_char c, [c]) # rune_split ([] @ b)"
    using Cons.prems by (simp add: rune_split_append_ascii)
  also have "rune_split ([] @ b) = map (\<lambda>c. (of_char c, [c])) b"
    using Cons.IH [of "[]"] Cons.prems by simp
  finally show ?case by simp
qed simp

lemma ascii_in_runes: "is_ascii c \<Longrightarrow> c \<in> set s \<Longrightarrow> (of_char c, [c]) \<in> set (rune_split s)"
  by (metis in_set_conv_decomp rune_split_append_ascii)

text \<open>
  Any stretch of the runes of a string decodes to itself: cutting a string at rune boundaries never
  changes what the pieces decode to, not even around invalid bytes.
\<close>

lemma decode_rune_prefix:
  assumes "p \<noteq> []" "snd (decode_rune (p @ q)) \<le> length p"
  shows "decode_rune (p @ q) = decode_rune p"
proof -
  consider c0 where "p = [c0]" | c0 c1 where "p = [c0, c1]" | c0 c1 c2 where "p = [c0, c1, c2]"
    | c0 c1 c2 c3 r where "p = c0 # c1 # c2 # c3 # r"
    using assms(1) by (metis list.exhaust)
  then show ?thesis
    using assms(2) by cases (auto simp: Let_def split: list.splits if_splits)
qed

lemma rune_split_Cons_bytes:
  assumes "rune_split s = (r, b) # rs"
  shows "s = b @ concat (map snd rs)" and "rune_split (concat (map snd rs)) = rs"
    and "decode_rune s = (r, length b)"
proof -
  have s: "s \<noteq> []" using assms by auto
  have step: "r = fst (decode_rune s)" "b = take (snd (decode_rune s)) s"
    "rs = rune_split (drop (snd (decode_rune s)) s)"
    using assms s by (simp_all add: rune_split.simps [of s])
  from step(3) show "rune_split (concat (map snd rs)) = rs" by (simp add: rune_split_bytes)
  show "s = b @ concat (map snd rs)"
    using rune_split_bytes [of s] assms by simp
  show "decode_rune s = (r, length b)"
    using step(1,2) decode_rune_width [OF s] by (simp add: prod_eq_iff)
qed

lemma rune_split_suffix:
  "rune_split s = xs @ ys \<Longrightarrow> rune_split (concat (map snd ys)) = ys"
proof (induction xs arbitrary: s)
  case Nil
  then show ?case by (metis append_Nil rune_split_bytes)
next
  case (Cons x xs)
  obtain r b where x: "x = (r, b)" by force
  with Cons.prems have "rune_split (concat (map snd (xs @ ys))) = xs @ ys"
    using rune_split_Cons_bytes(2) [of s r b "xs @ ys"] by simp
  then show ?case by (rule Cons.IH)
qed

lemma rune_split_prefix:
  "rune_split s = xs @ ys \<Longrightarrow> rune_split (concat (map snd xs)) = xs"
proof (induction xs arbitrary: s)
  case (Cons x xs)
  obtain r b where x: "x = (r, b)" by force
  note cons = rune_split_Cons_bytes [of s r b "xs @ ys"]
  have s: "rune_split s = (r, b) # xs @ ys" using Cons.prems x by simp
  let ?p = "b @ concat (map snd xs)"
  have b: "b \<noteq> []" using rune_split_nonempty_bytes [of r b s] s by simp
  have "decode_rune ?p = decode_rune (?p @ concat (map snd ys))"
    using cons(1,3) [OF s] b by (intro decode_rune_prefix [symmetric]) auto
  then have "decode_rune ?p = (r, length b)" using cons(1,3) [OF s] by simp
  then have "rune_split ?p = (r, b) # rune_split (concat (map snd xs))"
    using b by (subst rune_split.simps) simp
  with Cons.IH [OF cons(2) [OF s]] x show ?case by simp
qed simp

section \<open>Tokenising: Fields, Split, Join, IndexFunc, trimming\<close>

text \<open>\<open>strings.Fields\<close>: the maximal runs of non-space runes; \<open>cur\<close> is the run being read.\<close>

fun fields_from :: "(nat \<times> string) list \<Rightarrow> string \<Rightarrow> string list" where
  "fields_from [] cur = (if cur = [] then [] else [cur])"
| "fields_from ((r, b) # rs) cur =
     (if IsSpace r then (if cur = [] then fields_from rs [] else cur # fields_from rs [])
      else fields_from rs (cur @ b))"

definition Fields :: "string \<Rightarrow> string list" where
  "Fields s = fields_from (rune_split s) []"

text \<open>\<open>strings.Split\<close> with a one-byte separator.\<close>

fun Split :: "char \<Rightarrow> string \<Rightarrow> string list" where
  "Split c [] = [[]]"
| "Split c (x # s) =
     (if x = c then [] # Split c s
      else case Split c s of [] \<Rightarrow> [[x]] | t # ts \<Rightarrow> (x # t) # ts)"

fun Join :: "string \<Rightarrow> string list \<Rightarrow> string" where
  "Join sep [] = []"
| "Join sep [t] = t"
| "Join sep (t # ts) = t @ sep @ Join sep ts"

text \<open>\<open>strings.IndexFunc\<close>: the byte offset of the first rune that satisfies \<open>p\<close>, if any.\<close>

fun index_runes :: "(nat \<Rightarrow> bool) \<Rightarrow> (nat \<times> string) list \<Rightarrow> nat \<Rightarrow> nat option" where
  "index_runes p [] i = None"
| "index_runes p ((r, b) # rs) i = (if p r then Some i else index_runes p rs (i + length b))"

definition IndexFunc :: "(nat \<Rightarrow> bool) \<Rightarrow> string \<Rightarrow> nat option" where
  "IndexFunc p s = index_runes p (rune_split s) 0"

definition ContainsFunc :: "(nat \<Rightarrow> bool) \<Rightarrow> string \<Rightarrow> bool" where
  "ContainsFunc p s \<longleftrightarrow> IndexFunc p s \<noteq> None"

definition TrimSuffix :: "string \<Rightarrow> char \<Rightarrow> string" where
  "TrimSuffix s c = (if s \<noteq> [] \<and> last s = c then butlast s else s)"

definition TrimRight :: "string \<Rightarrow> char set \<Rightarrow> string" where
  "TrimRight s cutset = rev (dropWhile (\<lambda>c. c \<in> cutset) (rev s))"

text \<open>\<open>strings.TrimSpace(s) == ""\<close>: there is nothing but white space.\<close>

definition all_space :: "string \<Rightarrow> bool" where
  "all_space s \<longleftrightarrow> list_all (\<lambda>(r, _). IsSpace r) (rune_split s)"

text \<open>A word is what \<open>Fields\<close> can return: non-empty, without a white-space rune.\<close>

definition word_str :: "string \<Rightarrow> bool" where
  "word_str t \<longleftrightarrow> t \<noteq> [] \<and> list_all (\<lambda>(r, _). \<not> IsSpace r) (rune_split t)"

lemma fields_from_word:
  "list_all (\<lambda>(r, _). \<not> IsSpace r) rs \<Longrightarrow>
   fields_from (rs @ rest) cur = fields_from rest (cur @ concat (map snd rs))"
  by (induction rs arbitrary: cur) auto

text \<open>And \<open>Fields\<close> returns words only.\<close>

lemma fields_from_words:
  assumes "rune_split s = pre @ cur @ rs" "list_all (\<lambda>(r, _). \<not> IsSpace r) cur"
  shows "list_all word_str (fields_from rs (concat (map snd cur)))"
  using assms
proof (induction rs arbitrary: pre cur)
  case Nil
  have "word_str (concat (map snd cur))" if "concat (map snd cur) \<noteq> []"
    using Nil that rune_split_suffix [of s pre cur] by (simp add: word_str_def)
  then show ?case by simp
next
  case (Cons x rs)
  obtain r b where x: "x = (r, b)" by force
  show ?case
  proof (cases "IsSpace r")
    case False
    with Cons.IH [of pre "cur @ [x]"] Cons.prems x show ?thesis by simp
  next
    case True
    have rest: "list_all word_str (fields_from rs [])"
      using Cons.IH [of "pre @ cur @ [x]" "[]"] Cons.prems(1) by simp
    have "rune_split (concat (map snd (cur @ x # rs))) = cur @ x # rs"
      using Cons.prems(1) by (rule rune_split_suffix)
    then have "rune_split (concat (map snd cur)) = cur" by (rule rune_split_prefix)
    with Cons.prems(2) have "word_str (concat (map snd cur))" if "concat (map snd cur) \<noteq> []"
      using that by (simp add: word_str_def)
    with rest True x show ?thesis by simp
  qed
qed

lemma Fields_words: "list_all word_str (Fields s)"
  using fields_from_words [of s "[]" "[]" "rune_split s"] by (simp add: Fields_def)

lemma Fields_Nil [simp]: "Fields [] = []"
  by (simp add: Fields_def)

lemma Fields_word [simp]: "word_str t \<Longrightarrow> Fields t = [t]"
  using fields_from_word [of "rune_split t" "[]" "[]"]
  by (simp add: Fields_def word_str_def rune_split_bytes)

lemma IsSpace_ascii_space: "IsSpace 32"
  by (simp add: IsSpace_def)

lemma Fields_space_Cons [simp]: "Fields (CHR '' '' # s) = Fields s"
  by (simp add: Fields_def IsSpace_ascii_space)

lemma Fields_word_space: "word_str t \<Longrightarrow> Fields (t @ CHR '' '' # s) = t # Fields s"
  using fields_from_word [of "rune_split t" "(32, '' '') # rune_split s" "[]"]
  by (simp add: Fields_def word_str_def rune_split_bytes rune_split_append_ascii IsSpace_ascii_space)

text \<open>Tokenising a line of words joined by spaces gives the words back.\<close>

lemma Fields_Join: "list_all word_str ts \<Longrightarrow> Fields (Join '' '' ts) = ts"
  by (induction "'' ''" ts rule: Join.induct) (simp_all add: Fields_word_space)

lemma word_str_append_ascii:
  assumes "word_str a" and "list_all (\<lambda>c. is_ascii c \<and> \<not> IsSpace (of_char c)) b"
  shows "word_str (a @ b)"
  using assms by (auto simp: word_str_def rune_split_append_ascii_list list_all_iff)

lemma Split_nonempty [simp]: "Split c s \<noteq> []"
  by (induction s) (auto split: list.splits)

lemma Split_no_sep: "c \<notin> set s \<Longrightarrow> Split c s = [s]"
  by (induction s) auto

lemma Split_append: "c \<notin> set a \<Longrightarrow> Split c (a @ c # s) = a # Split c s"
  by (induction a) auto

lemma ContainsFunc_iff: "ContainsFunc p s \<longleftrightarrow> (\<exists>(r, b) \<in> set (rune_split s). p r)"
proof -
  have "index_runes p rs i = None \<longleftrightarrow> (\<forall>(r, b) \<in> set rs. \<not> p r)" for rs i
    by (induction rs arbitrary: i) (auto split: if_splits)
  then show ?thesis by (fastforce simp: ContainsFunc_def IndexFunc_def)
qed

lemma all_space_iff_Fields: "all_space s \<longleftrightarrow> Fields s = []"
proof -
  have ne: "fields_from rs cur \<noteq> []" if "cur \<noteq> []" for rs cur
    using that by (induction rs cur rule: fields_from.induct) auto
  have "\<forall>(r, b) \<in> set rs. b \<noteq> [] \<Longrightarrow> list_all (\<lambda>(r, _). IsSpace r) rs \<longleftrightarrow> fields_from rs [] = []" for rs
    by (induction rs) (auto simp: ne split: if_splits)
  then show ?thesis
    using rune_split_nonempty_bytes by (fastforce simp: all_space_def Fields_def)
qed

section \<open>Printing and parsing integers\<close>

text \<open>\<open>strconv.AppendInt(_, v, 10)\<close> and \<open>%d\<close>.\<close>

definition digit_char :: "nat \<Rightarrow> char" where
  "digit_char d = char_of (48 + d)"

fun fmt_nat :: "nat \<Rightarrow> string" where
  "fmt_nat n = (if n < 10 then [digit_char n] else fmt_nat (n div 10) @ [digit_char (n mod 10)])"

declare fmt_nat.simps [simp del]

definition fmt_int :: "int \<Rightarrow> string" where
  "fmt_int v = (if v < 0 then CHR ''-'' # fmt_nat (nat (- v)) else fmt_nat (nat v))"

abbreviation FormatInt :: "int64 \<Rightarrow> string" where
  "FormatInt v \<equiv> fmt_int (sint v)"

text \<open>\<open>strconv.ParseInt(s, 10, 64)\<close>: \<open>None\<close> for a syntax or range error.\<close>

definition digit_val :: "char \<Rightarrow> nat option" where
  "digit_val c = (if 48 \<le> (of_char c :: nat) \<and> of_char c \<le> (57 :: nat) then Some (of_char c - 48) else None)"

fun parse_digits :: "nat \<Rightarrow> string \<Rightarrow> nat option" where
  "parse_digits acc [] = Some acc"
| "parse_digits acc (c # s) =
     (case digit_val c of None \<Rightarrow> None | Some d \<Rightarrow> parse_digits (10 * acc + d) s)"

definition ParseUint :: "string \<Rightarrow> nat option" where
  "ParseUint s =
     (if s = [] then None
      else case parse_digits 0 s of None \<Rightarrow> None | Some n \<Rightarrow> if n < 2 ^ 64 then Some n else None)"

definition ParseInt :: "string \<Rightarrow> int64 option" where
  "ParseInt s =
     (if s = [] then None
      else let neg = (hd s = CHR ''-'');
               s' = (if hd s = CHR ''+'' \<or> hd s = CHR ''-'' then tl s else s)
           in case ParseUint s' of
                None \<Rightarrow> None
              | Some un \<Rightarrow>
                  if \<not> neg \<and> 2 ^ 63 \<le> un then None
                  else if neg \<and> 2 ^ 63 < un then None
                  else Some (word_of_int (if neg then - int un else int un)))"

lemma of_char_digit: "d < 10 \<Longrightarrow> of_char (digit_char d) = 48 + d"
  by (simp add: digit_char_def)

lemma digit_val_char [simp]: "d < 10 \<Longrightarrow> digit_val (digit_char d) = Some d"
  by (simp add: digit_val_def of_char_digit)

lemma parse_digits_append:
  "parse_digits acc (a @ b) = (case parse_digits acc a of None \<Rightarrow> None | Some n \<Rightarrow> parse_digits n b)"
  by (induction acc a rule: parse_digits.induct) (auto split: option.splits)

lemma fmt_nat_nonempty [simp]: "fmt_nat n \<noteq> []"
  by (subst fmt_nat.simps) simp

lemma parse_fmt_nat: "parse_digits 0 (fmt_nat n) = Some n"
proof (induction n rule: fmt_nat.induct)
  case (1 n)
  then show ?case
    by (cases "n < 10") (simp_all add: fmt_nat.simps [of n] parse_digits_append)
qed

lemma fmt_nat_digits: "c \<in> set (fmt_nat n) \<Longrightarrow> \<exists>d < 10. c = digit_char d"
proof (induction n rule: fmt_nat.induct)
  case (1 n)
  have "\<exists>d < 10. digit_char (n mod 10) = digit_char d"
    by (rule exI [of _ "n mod 10"]) simp
  with 1 show ?case by (cases "n < 10") (auto simp: fmt_nat.simps [of n])
qed

lemma digit_char_neq [simp]:
  assumes "d < 10"
  shows "digit_char d \<noteq> CHR ''-''" "digit_char d \<noteq> CHR ''+''" "digit_char d \<noteq> CHR ''|''"
    "digit_char d \<noteq> CHR '' ''" "is_ascii (digit_char d)" "\<not> IsSpace (of_char (digit_char d))"
proof -
  have v: "of_char (digit_char d) = 48 + d" using assms by (rule of_char_digit)
  show "digit_char d \<noteq> CHR ''-''" "digit_char d \<noteq> CHR ''+''" "digit_char d \<noteq> CHR ''|''"
    "digit_char d \<noteq> CHR '' ''"
    using v assms by (auto dest: arg_cong [where f = "of_char :: char \<Rightarrow> nat"])
  show "is_ascii (digit_char d)" "\<not> IsSpace (of_char (digit_char d))"
    using assms by (auto simp: v IsSpace_def)
qed

lemma hd_fmt_nat: "\<exists>d < 10. hd (fmt_nat n) = digit_char d"
  by (rule fmt_nat_digits [of _ n]) (simp add: hd_in_set)

lemma ParseUint_fmt_nat: "n < 2 ^ 64 \<Longrightarrow> ParseUint (fmt_nat n) = Some n"
  by (simp add: ParseUint_def parse_fmt_nat)

text \<open>Every \<open>int64\<close> survives printing and parsing.\<close>

lemma ParseInt_FormatInt [simp]: "ParseInt (FormatInt v) = Some v"
proof (cases "sint v < 0")
  case True
  have "nat (- sint v) \<le> 2 ^ 63" "nat (- sint v) < 2 ^ 64" "int (nat (- sint v)) = - sint v"
    using True sint_bounds [of v] by auto
  with True show ?thesis by (simp add: ParseInt_def fmt_int_def ParseUint_fmt_nat)
next
  case False
  have n: "nat (sint v) < 2 ^ 63" "nat (sint v) < 2 ^ 64" "0 \<le> sint v"
    using False sint_bounds [of v] by auto
  obtain d where "d < 10" "hd (fmt_nat (nat (sint v))) = digit_char d"
    using hd_fmt_nat by blast
  with False n show ?thesis by (simp add: ParseInt_def fmt_int_def ParseUint_fmt_nat)
qed

text \<open>The printed form is ASCII without separators.\<close>

definition plain_char :: "char \<Rightarrow> bool" where
  "plain_char c \<longleftrightarrow> is_ascii c \<and> \<not> IsSpace (of_char c) \<and> c \<noteq> CHR ''|''"

lemma fmt_nat_plain: "list_all plain_char (fmt_nat n)"
  by (auto simp: list_all_iff plain_char_def dest!: fmt_nat_digits)

lemma fmt_int_plain [simp]: "list_all plain_char (fmt_int v)"
  using fmt_nat_plain by (auto simp: fmt_int_def plain_char_def IsSpace_def)

lemma fmt_int_no_pipe [simp]: "CHR ''|'' \<notin> set (fmt_int v)"
  using fmt_int_plain [of v] by (auto simp: list_all_iff plain_char_def)

lemma fmt_nat_length: "n < 10 ^ k \<Longrightarrow> 0 < k \<Longrightarrow> length (fmt_nat n) \<le> k"
proof (induction n arbitrary: k rule: fmt_nat.induct)
  case (1 n)
  show ?case
  proof (cases "n < 10")
    case True
    with 1 show ?thesis by (simp add: fmt_nat.simps [of n])
  next
    case False
    with "1.prems" obtain j where j: "k = Suc j" "0 < j"
      by (cases k; cases "k - 1") auto
    then have "n div 10 < 10 ^ j" using "1.prems"(1) by (simp add: div_less_iff_less_mult mult.commute)
    from "1.IH" [OF False this j(2)] False j(1) show ?thesis by (simp add: fmt_nat.simps [of n])
  qed
qed

text \<open>Every \<open>int64\<close> prints in at most 20 bytes.\<close>

lemma FormatInt_length: "length (FormatInt v) \<le> 20"
proof -
  have b: "- 9223372036854775808 \<le> sint v" "sint v \<le> 9223372036854775807" by (rule sint_bounds)+
  have "nat (- sint v) < 10 ^ 19" "nat (sint v) < 10 ^ 19" using b by simp_all
  from fmt_nat_length [OF this(1)] fmt_nat_length [OF this(2)] show ?thesis
    by (simp add: fmt_int_def)
qed

text \<open>Trimming a set of bytes the rest of the string does not contain.\<close>

lemma TrimRight_one: "x \<in> S \<Longrightarrow> \<forall>c \<in> set s. c \<notin> S \<Longrightarrow> TrimRight (s @ [x]) S = s"
  by (cases s rule: rev_cases) (simp_all add: TrimRight_def)

end
