(* ===== verification/Dhp1.thy ===== *)
theory Dhp1
  imports GoStrings
begin

text \<open>
  \<open>internal/dhp1/dhp1.go\<close>: the mode bytes of a THROTTLE entry and the runes the protocol's
  tokenizers treat as delimiters; and what a key that avoids them is good for: it stays one token
  of a line and one field of an entry.
\<close>

definition ModeReal :: string where "ModeReal = ''R''"
definition ModePeek :: string where "ModePeek = ''P''"

definition IsKeyDelimiter :: "nat \<Rightarrow> bool" where
  "IsKeyDelimiter r \<longleftrightarrow> IsSpace r \<or> r = 0x7C"

lemma pipe_ascii: "is_ascii (CHR ''|'')" "of_char (CHR ''|'') = (0x7C :: nat)"
  by simp_all

lemma no_delimiter_word:
  assumes "key \<noteq> []" "\<not> ContainsFunc IsKeyDelimiter key"
  shows "word_str key" and "CHR ''|'' \<notin> set key"
proof -
  have none: "\<not> IsKeyDelimiter r" if "(r, b) \<in> set (rune_split key)" for r b
    using assms(2) that by (auto simp: ContainsFunc_iff)
  then show "word_str key"
    using assms(1) by (auto simp: word_str_def list_all_iff IsKeyDelimiter_def)
  show "CHR ''|'' \<notin> set key"
    using none ascii_in_runes [OF pipe_ascii(1), of key] by (auto simp: IsKeyDelimiter_def)
qed

end
