(* ===== verification/TextServer.thy ===== *)
theory TextServer
  imports Throttler Dhp1
begin

text \<open>
  \<open>server/textserver.go\<close>: the DHP/1 server, from the bytes of a connection to the reply lines. The
  throttler is an argument, a \<open>throttle_fun\<close> with its state, as in the code it is an interface;
  \<open>keyCount\<close> is its optional method \<open>keyCountEstimate\<close>. Metrics (\<open>server/metrics.go\<close>) are a log of
  the events the code counts or observes. The clock, the uptime in whole seconds and the outcome of
  each flush are arguments.
\<close>

section \<open>Metrics and configuration\<close>

datatype metric =
    RequestsTotal string
  | RequestDuration string
  | ThrottleBatchSize nat
  | ThrottleEntriesTotal string string
  | LineLength nat
  | LineTooLongTotal
  | ConnectionsInc
  | ConnectionsDec

definition DefaultMaxLineSize :: int64 where "DefaultMaxLineSize = 64 * 1024"
definition protocolVersion :: string where "protocolVersion = ''1''"

text \<open>\<open>NewTextServer\<close>'s one decision, the line size.\<close>

definition NewTextServer :: "int64 \<Rightarrow> int64" where
  "NewTextServer maxLineSize = (if maxLineSize <=s 0 then DefaultMaxLineSize else maxLineSize)"

section \<open>Entries and results\<close>

text \<open>\<open>parts\<close> is \<open>strings.Split(tok, "|")\<close>.\<close>

definition parseEntry :: "string \<Rightarrow> request_entry option" where
  "parseEntry tok =
     (let parts = Split (CHR ''|'') tok in
      if length parts \<noteq> 6 then None
      else let key = parts ! 0 in
      if key = [] then None
      else case (ParseInt (parts ! 1), ParseInt (parts ! 2), ParseInt (parts ! 3), ParseInt (parts ! 4)) of
        (Some capacity, Some units, Some period, Some cost) \<Rightarrow>
          if capacity <s 0 \<or> units <s 0 \<or> period <s 0 \<or> cost <s 0 then None
          else if parts ! 5 = ModeReal
          then Some \<lparr>q_Key = key, q_Limit = \<lparr>l_Capacity = capacity, l_Rate = \<lparr>r_Units = units, r_Period = period\<rparr>\<rparr>,
                     q_Cost = cost, q_Peek = False\<rparr>
          else if parts ! 5 = ModePeek
          then Some \<lparr>q_Key = key, q_Limit = \<lparr>l_Capacity = capacity, l_Rate = \<lparr>r_Units = units, r_Period = period\<rparr>\<rparr>,
                     q_Cost = cost, q_Peek = True\<rparr>
          else None
      | _ \<Rightarrow> None)"

definition formatResult :: "response_entry \<Rightarrow> string" where
  "formatResult r =
     (if s_Err r \<noteq> None then ''ERR''
      else s_Key r @ ''|'' @ (if s_Throttled r then ''1'' else ''0'') @ ''|''
           @ FormatInt (s_Remaining r) @ ''|'' @ FormatInt (s_RetryAfter r))"

definition modeLabel :: "bool \<Rightarrow> string" where
  "modeLabel peek = (if peek then ''peek'' else ''real'')"

definition resultLabel :: "response_entry \<Rightarrow> string" where
  "resultLabel r = (if s_Err r \<noteq> None then ''err'' else if s_Throttled r then ''throttled'' else ''admitted'')"

section \<open>The handlers\<close>

text \<open>\<open>handleThrottle\<close>'s first loop; \<open>i\<close> is the index of the first remaining token.\<close>

fun parse_tokens ::
  "nat \<Rightarrow> string list \<Rightarrow> request_entry list \<Rightarrow> bool list \<Rightarrow> nat list \<Rightarrow> metric list
    \<Rightarrow> request_entry list \<times> bool list \<times> nat list \<times> metric list" where
  "parse_tokens i [] entries entryOK entryIdx ms = (entries, entryOK, entryIdx, ms)"
| "parse_tokens i (tok # toks) entries entryOK entryIdx ms =
     (case parseEntry tok of
        Some e \<Rightarrow> parse_tokens (Suc i) toks (entries @ [e]) (entryOK[i := True]) (entryIdx @ [i]) ms
      | None \<Rightarrow> parse_tokens (Suc i) toks entries (entryOK[i := False]) entryIdx
                  (ms @ [ThrottleEntriesTotal ''unknown'' ''err'']))"

text \<open>The two branches of the switch after the throttler's call, and the last loop.\<close>

fun fill_errors :: "nat list \<Rightarrow> string list \<Rightarrow> string list" where
  "fill_errors [] results = results"
| "fill_errors (idx # idxs) results = fill_errors idxs (results[idx := ''ERR''])"

fun fill_results ::
  "nat \<Rightarrow> response_entry list \<Rightarrow> request_entry list \<Rightarrow> nat list \<Rightarrow> string list \<Rightarrow> metric list
    \<Rightarrow> string list \<times> metric list" where
  "fill_results j [] entries entryIdx results ms = (results, ms)"
| "fill_results j (resp # resps) entries entryIdx results ms =
     fill_results (Suc j) resps entries entryIdx (results[entryIdx ! j := formatResult resp])
       (ms @ [ThrottleEntriesTotal (modeLabel (q_Peek (entries ! j))) (resultLabel resp)])"

fun mark_bad :: "nat \<Rightarrow> bool list \<Rightarrow> string list \<Rightarrow> string list" where
  "mark_bad i [] results = results"
| "mark_bad i (ok # oks) results = mark_bad (Suc i) oks (if ok then results else results[i := ''ERR''])"

definition handleThrottle ::
  "'t throttle_fun \<Rightarrow> 't \<Rightarrow> int64 \<Rightarrow> string \<Rightarrow> ('t \<times> string \<times> metric list) option" where
  "handleThrottle throttle t now rest =
     (let tokens = Fields rest;
          (entries, entryOK, entryIdx, ms) =
            parse_tokens 0 tokens [] (replicate (length tokens) False) [] [ThrottleBatchSize (length tokens)];
          results = replicate (length tokens) []
      in do {
        (t, results, ms) \<leftarrow>
          (if entries \<noteq> [] then do {
             (t, responses, err) \<leftarrow> throttle t now entries;
             Some (if err \<noteq> None \<or> length responses \<noteq> length entries
                   then (t, fill_errors entryIdx results,
                         ms @ map (\<lambda>e. ThrottleEntriesTotal (modeLabel (q_Peek e)) ''err'') entries)
                   else (t, fill_results 0 responses entries entryIdx results ms))
           } else Some (t, results, ms));
        let results = mark_bad 0 entryOK results in
        Some (t, if results = [] then ''RESULT'' else ''RESULT '' @ Join '' '' results, ms)
      })"

definition handleHello :: "string \<Rightarrow> string" where
  "handleHello rest =
     (let fields = Fields rest in
      if fields = [] then ''ERROR missing version''
      else if hd fields \<noteq> protocolVersion then ''ERROR unsupported version''
      else ''OK '' @ protocolVersion)"

definition handleStats :: "('t \<Rightarrow> nat) option \<Rightarrow> 't \<Rightarrow> int64 \<Rightarrow> string" where
  "handleStats keyCount t uptime =
     ''STATS '' @ FormatInt uptime @ '' ''
       @ fmt_int (int (case keyCount of None \<Rightarrow> 0 | Some kc \<Rightarrow> kc t))"

definition splitCommand :: "string \<Rightarrow> string \<times> string" where
  "splitCommand line =
     (case IndexFunc (\<lambda>r. \<not> IsSpace r) line of
        None \<Rightarrow> ([], [])
      | Some start \<Rightarrow>
          let line = drop start line in
          (case IndexFunc IsSpace line of
             Some end \<Rightarrow> (take end line, drop end line)
           | None \<Rightarrow> (line, [])))"

definition normalizeCommand :: "string \<Rightarrow> string" where
  "normalizeCommand cmd =
     (if cmd \<in> {''HELLO'', ''THROTTLE'', ''PING'', ''STATS'', ''QUIT''} then cmd else ''unknown'')"

text \<open>\<open>dispatch\<close>: the response, whether to close the connection, and what it counted.\<close>

definition dispatch ::
  "'t throttle_fun \<Rightarrow> ('t \<Rightarrow> nat) option \<Rightarrow> 't \<Rightarrow> int64 \<Rightarrow> int64 \<Rightarrow> string
    \<Rightarrow> ('t \<times> string \<times> bool \<times> metric list) option" where
  "dispatch throttle keyCount t now uptime line =
     (let (cmd, rest) = splitCommand line;
          label = normalizeCommand cmd;
          reply = (\<lambda>t response closeConn ms.
            Some (t, response, closeConn, RequestsTotal label # ms @ [RequestDuration label]))
      in if cmd = ''HELLO'' then reply t (handleHello rest) False []
         else if cmd = ''THROTTLE'' then do {
           (t, response, ms) \<leftarrow> handleThrottle throttle t now rest;
           reply t response False ms
         }
         else if cmd = ''PING'' then reply t ''PONG'' False []
         else if cmd = ''STATS'' then reply t (handleStats keyCount t uptime) False []
         else if cmd = ''QUIT'' then reply t [] True []
         else reply t ''ERROR unknown command'' False [])"

section \<open>Splitting off the command\<close>

lemma index_runes_Some:
  "index_runes p rs i = Some k \<Longrightarrow> \<exists>xs ys. rs = xs @ ys \<and> (\<forall>x \<in> set xs. \<not> p (fst x)) \<and> ys \<noteq> []
    \<and> p (fst (hd ys)) \<and> k = i + length (concat (map snd xs))"
proof (induction rs arbitrary: i)
  case (Cons x rs)
  obtain r b where x: "x = (r, b)" by force
  show ?case
  proof (cases "p r")
    case True
    with Cons.prems x show ?thesis by (intro exI [of _ "[]"] exI [of _ "x # rs"]) simp
  next
    case False
    with Cons.prems x Cons.IH [of "i + length b"] obtain xs ys where
      "rs = xs @ ys" "\<forall>x \<in> set xs. \<not> p (fst x)" "ys \<noteq> []" "p (fst (hd ys))"
      "k = i + length b + length (concat (map snd xs))" by auto
    with False x show ?thesis by (intro exI [of _ "x # xs"] exI [of _ ys]) simp
  qed
qed simp

lemma index_runes_None: "index_runes p rs i = None \<longleftrightarrow> (\<forall>x \<in> set rs. \<not> p (fst x))"
proof (induction rs arbitrary: i)
  case (Cons x rs)
  then show ?case by (cases x) simp
qed simp

lemma IndexFunc_Some:
  assumes "IndexFunc p s = Some k"
  obtains xs ys where "rune_split s = xs @ ys" "\<forall>x \<in> set xs. \<not> p (fst x)" "ys \<noteq> []" "p (fst (hd ys))"
    "take k s = concat (map snd xs)" "drop k s = concat (map snd ys)" "rune_split (drop k s) = ys"
proof -
  obtain xs ys where s: "rune_split s = xs @ ys" "\<forall>x \<in> set xs. \<not> p (fst x)" "ys \<noteq> []" "p (fst (hd ys))"
    and k: "k = length (concat (map snd xs))"
    using assms index_runes_Some by (force simp: IndexFunc_def)
  have "s = concat (map snd xs) @ concat (map snd ys)"
    using rune_split_bytes [of s] s(1) by simp
  then have "take k s = concat (map snd xs)" "drop k s = concat (map snd ys)" using k by simp_all
  with s that rune_split_suffix [OF s(1)] show thesis by metis
qed

lemma fields_from_spaces:
  "\<forall>x \<in> set xs. IsSpace (fst x) \<Longrightarrow> fields_from (xs @ ys) [] = fields_from ys []"
  by (induction xs) auto

text \<open>The command and its arguments are the fields of the line.\<close>

lemma splitCommand_Fields:
  "splitCommand line = (case Fields line of [] \<Rightarrow> ([], []) | cmd # args \<Rightarrow> (cmd, snd (splitCommand line)))"
  "Fields (snd (splitCommand line)) = tl (Fields line)"
proof -
  have "fst (splitCommand line) = (case Fields line of [] \<Rightarrow> [] | cmd # args \<Rightarrow> cmd)
      \<and> (Fields line = [] \<longrightarrow> snd (splitCommand line) = [])
      \<and> Fields (snd (splitCommand line)) = tl (Fields line)"
  proof (cases "IndexFunc (\<lambda>r. \<not> IsSpace r) line")
    case None
    then have "\<forall>x \<in> set (rune_split line). IsSpace (fst x)"
      by (simp add: IndexFunc_def index_runes_None)
    then have "Fields line = []" using fields_from_spaces [of "rune_split line" "[]"] by (simp add: Fields_def)
    with None show ?thesis by (simp add: splitCommand_def)
  next
    case (Some k)
    obtain xs ys where sp: "rune_split line = xs @ ys" "\<forall>x \<in> set xs. IsSpace (fst x)" "ys \<noteq> []"
      "\<not> IsSpace (fst (hd ys))" and ys: "drop k line = concat (map snd ys)" "rune_split (drop k line) = ys"
      by (rule IndexFunc_Some [OF Some]) simp
    have F: "Fields line = fields_from ys []" using sp(1,2) by (simp add: Fields_def fields_from_spaces)
    show ?thesis
    proof (cases "IndexFunc IsSpace (drop k line)")
      case None
      then have "\<forall>x \<in> set ys. \<not> IsSpace (fst x)" using ys(2) by (simp add: IndexFunc_def index_runes_None)
      then have "list_all (\<lambda>(r, _). \<not> IsSpace r) ys" by (auto simp: list_all_iff)
      from fields_from_word [OF this, of "[]" "[]"]
      have "Fields line = (if drop k line = [] then [] else [drop k line])"
        by (simp add: F ys(1))
      moreover have "drop k line \<noteq> []" using ys(2) sp(3) by auto
      ultimately show ?thesis using Some None by (simp add: splitCommand_def)
    next
      case stop: (Some e)
      then obtain us vs where w: "ys = us @ vs" "\<forall>x \<in> set us. \<not> IsSpace (fst x)" "vs \<noteq> []"
        "IsSpace (fst (hd vs))" and cut: "take e (drop k line) = concat (map snd us)"
        "rune_split (drop e (drop k line)) = vs"
        by (metis IndexFunc_Some ys(2))
      obtain r b vs' where vs: "vs = (r, b) # vs'" "IsSpace r" using w(3,4) by (cases vs) auto
      have us: "us \<noteq> []" using w(1,4) sp(4) by (cases us) auto
      have "(fst x, snd x) \<in> set (rune_split line)" if "x \<in> set us" for x
        using that sp(1) w(1) by simp
      then have "concat (map snd us) \<noteq> []"
        using us rune_split_nonempty_bytes by (cases us) fastforce+
      moreover have "list_all (\<lambda>(r, _). \<not> IsSpace r) us" using w(2) by (auto simp: list_all_iff)
      ultimately have "Fields line = concat (map snd us) # fields_from vs' []"
        using fields_from_word [of us vs "[]"] by (simp add: F w(1) vs)
      then show ?thesis
        using Some stop cut vs by (simp add: splitCommand_def Fields_def)
    qed
  qed
  then show "splitCommand line = (case Fields line of [] \<Rightarrow> ([], []) | cmd # args \<Rightarrow> (cmd, snd (splitCommand line)))"
    "Fields (snd (splitCommand line)) = tl (Fields line)"
    by (auto simp: prod_eq_iff split: list.split)
qed

section \<open>The THROTTLE handler\<close>

text \<open>
  What the handler answers, token by token: ERR for a malformed token, otherwise the next response of
  the throttler, or ERR where there is none (the throttler failed).
\<close>

definition entries_of :: "string list \<Rightarrow> request_entry list" where
  "entries_of toks = List.map_filter parseEntry toks"

fun result_tokens :: "string list \<Rightarrow> response_entry list \<Rightarrow> string list" where
  "result_tokens [] rs = []"
| "result_tokens (tok # toks) rs =
     (case parseEntry tok of
        None \<Rightarrow> ''ERR'' # result_tokens toks rs
      | Some e \<Rightarrow> (case rs of [] \<Rightarrow> ''ERR'' | r # _ \<Rightarrow> formatResult r) # result_tokens toks (tl rs))"

definition result_line :: "string list \<Rightarrow> string" where
  "result_line ts = Join '' '' (''RESULT'' # ts)"

definition bad_metrics :: "string list \<Rightarrow> metric list" where
  "bad_metrics toks =
     map (\<lambda>_. ThrottleEntriesTotal ''unknown'' ''err'') (filter (\<lambda>tok. parseEntry tok = None) toks)"

definition entry_metrics :: "request_entry list \<Rightarrow> response_entry list \<Rightarrow> metric list" where
  "entry_metrics es rs =
     map2 (\<lambda>e r. ThrottleEntriesTotal (modeLabel (q_Peek e)) (resultLabel r)) es rs"

definition throttle_reply ::
  "'t throttle_fun \<Rightarrow> 't \<Rightarrow> int64 \<Rightarrow> string list \<Rightarrow> ('t \<times> string \<times> metric list) option" where
  "throttle_reply throttle t now toks =
     (let es = entries_of toks; ms = ThrottleBatchSize (length toks) # bad_metrics toks in
      if es = [] then Some (t, result_line (result_tokens toks []), ms)
      else do {
        (t, rs, err) \<leftarrow> throttle t now es;
        Some (if err = None \<and> length rs = length es
              then (t, result_line (result_tokens toks rs), ms @ entry_metrics es rs)
              else (t, result_line (result_tokens toks []),
                    ms @ map (\<lambda>e. ThrottleEntriesTotal (modeLabel (q_Peek e)) ''err'') es))
      })"

lemma entries_of_simps [simp]:
  "entries_of [] = []"
  "entries_of (tok # toks) = (case parseEntry tok of None \<Rightarrow> [] | Some e \<Rightarrow> [e]) @ entries_of toks"
  by (simp_all add: entries_of_def List.map_filter_simps split: option.split)

lemma bad_metrics_simps [simp]:
  "bad_metrics [] = []"
  "bad_metrics (tok # toks) =
     (if parseEntry tok = None then [ThrottleEntriesTotal ''unknown'' ''err''] else []) @ bad_metrics toks"
  by (simp_all add: bad_metrics_def)

lemma result_tokens_length [simp]: "length (result_tokens toks rs) = length toks"
  by (induction toks rs rule: result_tokens.induct) (auto split: option.split)

text \<open>The indices of the well-formed tokens, and the result slice before the last loop.\<close>

fun ok_indices :: "nat \<Rightarrow> string list \<Rightarrow> nat list" where
  "ok_indices i [] = []"
| "ok_indices i (tok # toks) = (if parseEntry tok = None then [] else [i]) @ ok_indices (Suc i) toks"

fun filled :: "string list \<Rightarrow> response_entry list \<Rightarrow> string list" where
  "filled [] rs = []"
| "filled (tok # toks) rs =
     (case parseEntry tok of
        None \<Rightarrow> [] # filled toks rs
      | Some e \<Rightarrow> (case rs of [] \<Rightarrow> ''ERR'' | r # _ \<Rightarrow> formatResult r) # filled toks (tl rs))"

lemma parse_tokens_eq:
  "parse_tokens (length oks) toks es (oks @ replicate (length toks) False) idx ms =
     (es @ entries_of toks, oks @ map (\<lambda>tok. parseEntry tok \<noteq> None) toks,
      idx @ ok_indices (length oks) toks, ms @ bad_metrics toks)"
proof (induction toks arbitrary: oks es idx ms)
  case (Cons tok toks)
  note IH = Cons.IH [of "oks @ [parseEntry tok \<noteq> None]", simplified]
  show ?case
    using IH by (cases "parseEntry tok") (simp_all add: list_update_append)
qed simp

lemma fill_errors_eq:
  "fill_errors (ok_indices (length out) toks) (out @ replicate (length toks) []) = out @ filled toks []"
proof (induction toks arbitrary: out)
  case (Cons tok toks)
  note IH = Cons.IH [of "out @ [if parseEntry tok = None then [] else ''ERR'']", simplified]
  show ?case
    using IH by (cases "parseEntry tok") (simp_all add: list_update_append)
qed simp

lemma filled_no_entries: "entries_of toks = [] \<Longrightarrow> filled toks rs = replicate (length toks) []"
  by (induction toks) (auto split: option.splits)

lemma drop_eq_Cons: "drop j xs = y # ys \<Longrightarrow> xs ! j = y \<and> drop (Suc j) xs = ys"
  by (metis drop_Suc hd_drop_conv_nth list.distinct(1) list.sel(1,3) drop_all not_le tl_drop)

lemma fill_results_eq:
  assumes "drop j entries = entries_of toks" "drop j entryIdx = ok_indices (length out) toks"
    and "length rs = length (entries_of toks)"
  shows "fill_results j rs entries entryIdx (out @ replicate (length toks) []) ms
    = (out @ filled toks rs, ms @ entry_metrics (entries_of toks) rs)"
  using assms
proof (induction toks arbitrary: j rs out ms)
  case Nil
  then show ?case by (simp add: entry_metrics_def)
next
  case (Cons tok toks)
  show ?case
  proof (cases "parseEntry tok")
    case None
    with Cons.IH [of j "out @ [[]]"] Cons.prems show ?thesis by simp
  next
    case (Some e)
    with Cons.prems(3) obtain r rs' where rs: "rs = r # rs'" "length rs' = length (entries_of toks)"
      by (cases rs) auto
    have e: "entries ! j = e \<and> drop (Suc j) entries = entries_of toks"
      using Cons.prems(1) Some by (intro drop_eq_Cons) simp
    have i: "entryIdx ! j = length out \<and> drop (Suc j) entryIdx = ok_indices (Suc (length out)) toks"
      using Cons.prems(2) Some by (intro drop_eq_Cons) simp
    from Cons.IH [of "Suc j" "out @ [formatResult r]"] e i rs(2)
    show ?thesis
      by (simp add: Some rs(1) list_update_append entry_metrics_def)
  qed
qed

lemma mark_bad_eq:
  "mark_bad (length out) (map (\<lambda>tok. parseEntry tok \<noteq> None) toks) (out @ filled toks rs)
    = out @ result_tokens toks rs"
proof (induction toks arbitrary: out rs)
  case (Cons tok toks)
  show ?case
  proof (cases "parseEntry tok")
    case None
    with Cons.IH [of "out @ [''ERR'']" rs] show ?thesis by (simp add: list_update_append)
  next
    case (Some e)
    let ?t = "case rs of [] \<Rightarrow> ''ERR'' | r # _ \<Rightarrow> formatResult r"
    from Cons.IH [of "out @ [?t]" "tl rs"] show ?thesis by (simp add: Some)
  qed
qed simp

lemma result_line_eq:
  "(if ts = [] then ''RESULT'' else ''RESULT '' @ Join '' '' ts) = result_line ts"
  by (cases ts) (simp_all add: result_line_def)

lemma handleThrottle_eq: "handleThrottle throttle t now rest = throttle_reply throttle t now (Fields rest)"
proof -
  let ?toks = "Fields rest"
  let ?es = "entries_of ?toks"
  have parse: "parse_tokens 0 ?toks [] (replicate (length ?toks) False) [] [ThrottleBatchSize (length ?toks)]
      = (?es, map (\<lambda>tok. parseEntry tok \<noteq> None) ?toks, ok_indices 0 ?toks,
         ThrottleBatchSize (length ?toks) # bad_metrics ?toks)"
    using parse_tokens_eq [of "[]" ?toks "[]" "[]"] by simp
  have mark: "mark_bad 0 (map (\<lambda>tok. parseEntry tok \<noteq> None) ?toks) (filled ?toks rs)
      = result_tokens ?toks rs" for rs
    using mark_bad_eq [of "[]" ?toks rs] by simp
  have fill: "fill_results 0 rs ?es (ok_indices 0 ?toks) (replicate (length ?toks) []) ms
      = (filled ?toks rs, ms @ entry_metrics ?es rs)" if "length rs = length ?es" for rs ms
    using fill_results_eq [of 0 ?es ?toks "ok_indices 0 ?toks" "[]" rs ms] that by simp
  have err: "fill_errors (ok_indices 0 ?toks) (replicate (length ?toks) []) = filled ?toks []"
    using fill_errors_eq [of "[]" ?toks] by simp
  show ?thesis
  proof (cases "?es = []")
    case True
    with mark [of "[]"] filled_no_entries [OF True, of "[]"] show ?thesis
      by (simp add: handleThrottle_def throttle_reply_def parse result_line_eq Let_def)
  next
    case False
    show ?thesis
    proof (cases "throttle t now ?es")
      case None
      with False show ?thesis by (simp add: handleThrottle_def throttle_reply_def parse)
    next
      case (Some r)
      obtain t' rs e where r: "r = (t', rs, e)" by (cases r)
      with False Some fill [of rs] mark [of rs] mark [of "[]"] show ?thesis
        by (simp add: handleThrottle_def throttle_reply_def parse err result_line_eq Let_def)
    qed
  qed
qed

section \<open>Dispatch on the fields of a line\<close>

definition hello_reply :: "string list \<Rightarrow> string" where
  "hello_reply args =
     (case args of [] \<Rightarrow> ''ERROR missing version''
      | v # _ \<Rightarrow> if v = ''1'' then ''OK 1'' else ''ERROR unsupported version'')"

fun dispatch_reply ::
  "'t throttle_fun \<Rightarrow> ('t \<Rightarrow> nat) option \<Rightarrow> 't \<Rightarrow> int64 \<Rightarrow> int64 \<Rightarrow> string list
    \<Rightarrow> ('t \<times> string \<times> bool \<times> metric list) option" where
  "dispatch_reply throttle keyCount t now uptime [] =
     Some (t, ''ERROR unknown command'', False, [RequestsTotal ''unknown'', RequestDuration ''unknown''])"
| "dispatch_reply throttle keyCount t now uptime (cmd # args) =
     (if cmd = ''THROTTLE''
      then map_option (\<lambda>(t, r, ms). (t, r, False, RequestsTotal cmd # ms @ [RequestDuration cmd]))
             (throttle_reply throttle t now args)
      else let label = normalizeCommand cmd; ms = [RequestsTotal label, RequestDuration label] in
        Some (t,
          if cmd = ''HELLO'' then hello_reply args
          else if cmd = ''PING'' then ''PONG''
          else if cmd = ''STATS'' then handleStats keyCount t uptime
          else if cmd = ''QUIT'' then []
          else ''ERROR unknown command'', cmd = ''QUIT'', ms))"

lemma handleHello_eq: "handleHello rest = hello_reply (Fields rest)"
  by (simp add: handleHello_def hello_reply_def protocolVersion_def Let_def split: list.split)

lemma dispatch_eq:
  "dispatch throttle keyCount t now uptime line
     = dispatch_reply throttle keyCount t now uptime (Fields line)"
proof (cases "Fields line")
  case Nil
  then have "splitCommand line = ([], [])" using splitCommand_Fields(1) [of line] by simp
  with Nil show ?thesis by (simp add: dispatch_def normalizeCommand_def Let_def)
next
  case (Cons cmd args)
  obtain rest where sp: "splitCommand line = (cmd, rest)" and args: "Fields rest = args"
    using splitCommand_Fields [of line] Cons by (cases "splitCommand line") auto
  show ?thesis
    by (auto simp: dispatch_def sp Cons Let_def normalizeCommand_def handleHello_eq handleThrottle_eq args
        map_option_case split: option.split)
qed

section \<open>The shape of a reply\<close>

lemma space_not_in_word:
  assumes "word_str t" "is_ascii c" "IsSpace (of_char c)"
  shows "c \<notin> set t"
  using assms ascii_in_runes [OF assms(2), of t] by (auto simp: word_str_def list_all_iff)

lemma newline_facts [simp]: "is_ascii (CHR 0x0A)" "IsSpace 10" "is_ascii (CHR '' '')"
  by (simp_all add: IsSpace_def)

lemma Split_hd_prefix: "\<exists>rest. s = hd (Split c s) @ rest \<and> (rest = [] \<or> hd rest = c)"
proof (induction s)
  case (Cons x s)
  then obtain rest where "s = hd (Split c s) @ rest" "rest = [] \<or> hd rest = c" by blast
  then show ?case
    by (cases "x = c"; cases "Split c s") auto
qed simp

lemma Split_hd_no_sep: "c \<notin> set (hd (Split c s))"
  by (induction s) (auto split: list.split)

lemma parseEntry_key:
  assumes "parseEntry tok = Some e"
  shows "q_Key e = hd (Split (CHR ''|'') tok)" "q_Key e \<noteq> []"
proof -
  have "q_Key e = Split (CHR ''|'') tok ! 0 \<and> q_Key e \<noteq> []"
    using assms by (auto simp: parseEntry_def Let_def split: option.splits if_splits)
  then show "q_Key e = hd (Split (CHR ''|'') tok)" "q_Key e \<noteq> []"
    by (auto simp: hd_conv_nth)
qed

text \<open>A key taken from a token is itself a word, without a separator: it can be sent as a key again.\<close>

lemma parseEntry_key_word:
  assumes "parseEntry tok = Some e" "word_str tok"
  shows "word_str (q_Key e)" "CHR ''|'' \<notin> set (q_Key e)"
proof -
  note key = parseEntry_key [OF assms(1)]
  show "CHR ''|'' \<notin> set (q_Key e)" unfolding key(1) by (rule Split_hd_no_sep)
  obtain rest where tok: "tok = q_Key e @ rest" "rest = [] \<or> hd rest = CHR ''|''"
    using Split_hd_prefix [of tok "CHR ''|''"] key(1) by auto
  show "word_str (q_Key e)"
  proof (cases rest)
    case Nil
    with tok assms(2) show ?thesis by simp
  next
    case (Cons c rest')
    with tok have "rune_split tok = rune_split (q_Key e) @ (of_char (CHR ''|''), ''|'') # rune_split rest'"
      by (simp add: rune_split_append_ascii)
    with assms(2) key(2) show ?thesis by (simp add: word_str_def)
  qed
qed

lemma word_ERR: "word_str ''ERR''" "word_str ''RESULT''"
  by (simp_all add: word_str_def IsSpace_def)

lemma formatResult_word: "word_str (s_Key r) \<Longrightarrow> word_str (formatResult r)"
proof (cases "s_Err r = None")
  case True
  assume key: "word_str (s_Key r)"
  let ?tail = "''|'' @ (if s_Throttled r then ''1'' else ''0'') @ ''|''
    @ FormatInt (s_Remaining r) @ ''|'' @ FormatInt (s_RetryAfter r)"
  have "list_all (\<lambda>c. is_ascii c \<and> \<not> IsSpace (of_char c)) (fmt_int v)" for v
    by (rule list.pred_mono_strong [OF fmt_int_plain]) (simp add: plain_char_def)
  then have "list_all (\<lambda>c. is_ascii c \<and> \<not> IsSpace (of_char c)) ?tail"
    by (simp add: IsSpace_def)
  from word_str_append_ascii [OF key this] True show ?thesis by (simp add: formatResult_def)
qed (simp add: formatResult_def word_ERR)

lemma result_tokens_words:
  assumes "list_all word_str toks" "map s_Key rs = map q_Key (entries_of toks) \<or> rs = []"
  shows "list_all word_str (result_tokens toks rs)"
  using assms
proof (induction toks rs rule: result_tokens.induct)
  case (2 tok toks rs)
  show ?case
  proof (cases "parseEntry tok")
    case None
    with 2 show ?thesis by (simp add: word_ERR)
  next
    case (Some e)
    with 2 have "list_all word_str (result_tokens toks (tl rs))"
      by (cases rs) auto
    moreover have "word_str (case rs of [] \<Rightarrow> ''ERR'' | r # _ \<Rightarrow> formatResult r)"
      using 2(3,4) Some parseEntry_key_word(1) [OF Some]
      by (cases rs) (auto simp: word_ERR intro!: formatResult_word)
    ultimately show ?thesis using Some by simp
  qed
qed simp

lemma Fields_result_line: "list_all word_str ts \<Longrightarrow> Fields (result_line ts) = ''RESULT'' # ts"
  unfolding result_line_def by (rule Fields_Join) (simp add: word_ERR)

lemma not_in_Join:
  "c \<notin> set sep \<Longrightarrow> \<forall>t \<in> set ts. c \<notin> set t \<Longrightarrow> c \<notin> set (Join sep ts)"
  by (induction sep ts rule: Join.induct) auto

lemma result_line_no_space:
  assumes "list_all word_str ts" "is_ascii c" "IsSpace (of_char c)" "c \<noteq> CHR '' ''"
  shows "c \<notin> set (result_line ts)"
  unfolding result_line_def
proof (rule not_in_Join)
  show "c \<notin> set '' ''" using assms(4) by simp
  show "\<forall>t \<in> set (''RESULT'' # ts). c \<notin> set t"
    using assms space_not_in_word word_ERR(2) by (metis list.set_cases list_all_iff set_ConsD)
qed

lemma result_line_no_newline: "list_all word_str ts \<Longrightarrow> CHR 0x0A \<notin> set (result_line ts)"
  by (rule result_line_no_space) (simp_all add: IsSpace_def)

lemma fmt_int_no_newline: "CHR 0x0A \<notin> set (fmt_int v)"
proof
  assume "CHR 0x0A \<in> set (fmt_int v)"
  with fmt_int_plain [of v] have "plain_char (CHR 0x0A)" unfolding list_all_iff by blast
  then show False by (simp add: plain_char_def)
qed

context throttler_contract begin

lemma throttle_reply_result:
  assumes "ok t"
  shows "\<exists>t' r ms. throttle_reply throttle t now toks = Some (t', r, ms) \<and> ok t'
    \<and> (\<exists>rs. r = result_line (result_tokens toks rs)
         \<and> (rs = [] \<or> map s_Key rs = map q_Key (entries_of toks)))"
proof (cases "entries_of toks = []")
  case True
  with assms show ?thesis by (auto simp: throttle_reply_def)
next
  case False
  obtain t' rs err where "throttle t now (entries_of toks) = Some (t', rs, err)" "ok t'"
    "map s_Key rs = map q_Key (entries_of toks)"
    using throttle_returns [OF assms] by blast
  with False show ?thesis
    by (cases "err = None \<and> length rs = length (entries_of toks)")
      (auto simp: throttle_reply_def Let_def)
qed

text \<open>A THROTTLE line is answered by RESULT and one token per token of the request.\<close>

lemma throttle_reply_tokens:
  assumes "ok t" "list_all word_str toks"
  shows "\<exists>t' r ms out. throttle_reply throttle t now toks = Some (t', r, ms) \<and> ok t'
    \<and> Fields r = ''RESULT'' # out \<and> length out = length toks \<and> CHR 0x0A \<notin> set r \<and> r \<noteq> []"
proof -
  obtain t' r ms rs where r: "throttle_reply throttle t now toks = Some (t', r, ms)" "ok t'"
    "r = result_line (result_tokens toks rs)" "rs = [] \<or> map s_Key rs = map q_Key (entries_of toks)"
    using throttle_reply_result [OF assms(1), of now toks] by blast
  have w: "list_all word_str (result_tokens toks rs)"
    using result_tokens_words [OF assms(2)] r(4) by blast
  then have "Fields r = ''RESULT'' # result_tokens toks rs"
    unfolding r(3) by (rule Fields_result_line)
  moreover from w have "CHR 0x0A \<notin> set r" unfolding r(3) by (rule result_line_no_newline)
  ultimately show ?thesis using r(1,2) by (cases "r = []") auto
qed

text \<open>Every line gets one reply, without a newline in it; only QUIT closes, and says nothing.\<close>

lemma dispatch_reply_line:
  assumes "ok t" "list_all word_str words"
  shows "\<exists>t' r closeConn ms. dispatch_reply throttle keyCount t now uptime words = Some (t', r, closeConn, ms)
    \<and> ok t' \<and> CHR 0x0A \<notin> set r \<and> (r = [] \<longleftrightarrow> closeConn)
    \<and> (closeConn \<longleftrightarrow> words \<noteq> [] \<and> hd words = ''QUIT'')"
proof (cases words)
  case Nil
  with assms show ?thesis by simp
next
  case (Cons cmd args)
  show ?thesis
  proof (cases "cmd = ''THROTTLE''")
    case True
    with throttle_reply_tokens [OF assms(1), of args now] assms(2) Cons show ?thesis by auto
  next
    case False
    then show ?thesis using assms(1) Cons
      by (auto simp: Let_def hello_reply_def handleStats_def fmt_int_no_newline split: list.split)
  qed
qed

end

end
