(* ===== verification/ServerConn.thy ===== *)
theory ServerConn
  imports TextServer
begin

text \<open>
  \<open>server/textserver.go\<close>, \<open>readLine\<close> and \<open>handleConn\<close>: one connection, from the bytes the client
  sends before the read side fails (closed, reset or idle too long; the code treats all alike) to the
  lines written back. \<open>bufio.Reader.ReadSlice\<close> of a 4096-byte reader hands out a line, a full
  buffer, or what is left and the error.
\<close>

section \<open>The model\<close>

abbreviation (input) newline :: char where "newline \<equiv> CHR 0x0A"
abbreviation (input) carriage :: char where "carriage \<equiv> CHR 0x0D"

datatype read_err = BufferFull | ReadFailed
datatype line_result = Line string | LineTooLong | ReadEnded

definition ReadSlice :: "nat \<Rightarrow> string \<Rightarrow> string \<times> read_err option \<times> string" where
  "ReadSlice cap s =
     (let n = length (takeWhile (\<lambda>c. c \<noteq> newline) s) in
      if n < length s \<and> n < cap then (take (Suc n) s, None, drop (Suc n) s)
      else if cap \<le> length s then (take cap s, Some BufferFull, drop cap s)
      else (s, Some ReadFailed, []))"

definition readerSize :: nat where "readerSize = 4096"

function readLine_from :: "int64 \<Rightarrow> string \<Rightarrow> string \<Rightarrow> line_result \<times> string" where
  "readLine_from maxSize buf s =
     (let (frag, err, s') = ReadSlice readerSize s; buf' = buf @ frag in
      if sint maxSize < int (length buf') then (LineTooLong, s')
      else case err of
        None \<Rightarrow> (Line (TrimSuffix (TrimSuffix buf' newline) carriage), s')
      | Some BufferFull \<Rightarrow> readLine_from maxSize buf' s'
      | Some ReadFailed \<Rightarrow> (ReadEnded, s'))"
  by pat_completeness auto
termination
  by (relation "measure (\<lambda>(maxSize, buf, s). length s)")
    (auto simp: ReadSlice_def readerSize_def Let_def split: if_splits)

declare readLine_from.simps [simp del]

definition readLine :: "int64 \<Rightarrow> string \<Rightarrow> line_result \<times> string" where
  "readLine maxSize s = readLine_from maxSize [] s"

section \<open>One line against its specification\<close>

text \<open>
  The specification: the bytes up to the first newline, if there is one and the line with it is no
  longer than \<open>maxSize\<close>. The size of the read buffer does not appear.
\<close>

definition line_spec :: "int64 \<Rightarrow> string \<Rightarrow> line_result" where
  "line_spec maxSize s =
     (let n = length (takeWhile (\<lambda>c. c \<noteq> newline) s) in
      if sint maxSize < int (min (Suc n) (length s)) then LineTooLong
      else if n < length s then Line (TrimSuffix (take n s) carriage)
      else ReadEnded)"

lemma takeWhile_split:
  assumes "length (takeWhile P s) < length s"
  shows "\<not> P (s ! length (takeWhile P s))" "take (length (takeWhile P s)) s = takeWhile P s"
  using assms nth_length_takeWhile takeWhile_eq_take by (blast, metis)

lemma TrimSuffix_line:
  assumes "length (takeWhile (\<lambda>c. c \<noteq> newline) s) < length s"
  shows "TrimSuffix (buf @ take (Suc (length (takeWhile (\<lambda>c. c \<noteq> newline) s))) s) newline
    = buf @ take (length (takeWhile (\<lambda>c. c \<noteq> newline) s)) s"
  using takeWhile_split(1) [OF assms] assms
    by (simp add: TrimSuffix_def take_Suc_conv_app_nth append_assoc [symmetric] del: append_assoc)

text \<open>A full buffer: no newline among its bytes.\<close>

lemma takeWhile_drop:
  assumes "k \<le> length (takeWhile P s)"
  shows "length (takeWhile P (drop k s)) = length (takeWhile P s) - k"
proof -
  have "\<forall>x \<in> set (take k s). P x"
    by (metis assms set_takeWhileD set_take_subset_set_take takeWhile_eq_take subset_iff)
  then have "takeWhile P (take k s @ drop k s) = take k s @ takeWhile P (drop k s)"
    by (intro takeWhile_append2) blast
  moreover have "k \<le> length s" using assms length_takeWhile_le [of P s] by linarith
  ultimately show ?thesis by simp
qed

lemma readLine_from_spec:
  fixes maxSize :: int64
  assumes "int (length buf) \<le> sint maxSize \<or> buf = []"
  shows "fst (readLine_from maxSize buf s) =
      (let n = length (takeWhile (\<lambda>c. c \<noteq> newline) s) in
       if sint maxSize < int (length buf + min (Suc n) (length s)) then LineTooLong
       else if n < length s then Line (TrimSuffix (buf @ take n s) carriage)
       else ReadEnded)
    \<and> (\<forall>l. fst (readLine_from maxSize buf s) = Line l \<longrightarrow>
         snd (readLine_from maxSize buf s) = drop (Suc (length (takeWhile (\<lambda>c. c \<noteq> newline) s))) s)"
  using assms
proof (induction maxSize buf s rule: readLine_from.induct)
  case (1 maxSize buf s)
  let ?n = "length (takeWhile (\<lambda>c. c \<noteq> newline) s)"
  have n: "?n \<le> length s" by (rule length_takeWhile_le)
  consider (line) "?n < length s" "?n < readerSize"
    | (full) "readerSize \<le> ?n" "readerSize \<le> length s" | (rest) "?n = length s" "length s < readerSize"
    using n by linarith
  then show ?case
  proof cases
    case line
    then show ?thesis
      by (subst (1 2 3) readLine_from.simps) (simp add: ReadSlice_def Let_def TrimSuffix_line)
  next
    case rest
    then show ?thesis
      by (subst (1 2 3) readLine_from.simps) (simp add: ReadSlice_def Let_def)
  next
    case full
    let ?b = "buf @ take readerSize s" and ?s = "drop readerSize s"
    have slice: "ReadSlice readerSize s = (take readerSize s, Some BufferFull, ?s)"
      using full by (simp add: ReadSlice_def Let_def)
    show ?thesis
    proof (cases "sint maxSize < int (length ?b)")
      case True
      then have "readLine_from maxSize buf s = (LineTooLong, ?s)"
        by (subst readLine_from.simps) (simp add: slice)
      moreover have "sint maxSize < int (length buf + min (Suc ?n) (length s))"
        using True full by auto
      ultimately show ?thesis by (simp add: Let_def)
    next
      case False
      then have step: "readLine_from maxSize buf s = readLine_from maxSize ?b ?s"
        by (subst readLine_from.simps) (simp add: slice)
      have n': "length (takeWhile (\<lambda>c. c \<noteq> newline) ?s) = ?n - readerSize"
        using full(1) by (rule takeWhile_drop)
      have "take ?n s = take readerSize s @ take (?n - readerSize) ?s"
        using full by (metis le_add_diff_inverse take_add)
      then have cut: "buf @ take ?n s = ?b @ take (?n - readerSize) ?s" by simp
      have len: "length ?b + min (Suc (?n - readerSize)) (length ?s)
          = length buf + min (Suc ?n) (length s)"
        using full by simp
      have lt: "?n - readerSize < length ?s \<longleftrightarrow> ?n < length s" using full by auto
      have rest: "drop (Suc (?n - readerSize)) ?s = drop (Suc ?n) s" using full by (simp add: Suc_diff_le)
      have "int (length ?b) \<le> sint maxSize" using False by simp
      with "1.IH" [OF slice [symmetric] refl refl refl False refl refl]
      have IH: "fst (readLine_from maxSize ?b ?s) =
          (let n = ?n - readerSize in
           if sint maxSize < int (length ?b + min (Suc n) (length ?s)) then LineTooLong
           else if n < length ?s then Line (TrimSuffix (?b @ take n ?s) carriage)
           else ReadEnded)
        \<and> (\<forall>l. fst (readLine_from maxSize ?b ?s) = Line l \<longrightarrow>
             snd (readLine_from maxSize ?b ?s) = drop (Suc (?n - readerSize)) ?s)"
        unfolding n' by blast
      then show ?thesis unfolding step Let_def len lt cut rest .
    qed
  qed
qed

lemma readLine_spec:
  "fst (readLine maxSize s) = line_spec maxSize s"
  "fst (readLine maxSize s) = Line l \<Longrightarrow>
     snd (readLine maxSize s) = drop (Suc (length (takeWhile (\<lambda>c. c \<noteq> newline) s))) s"
  using readLine_from_spec [of "[]" maxSize s]
  by (simp_all add: readLine_def line_spec_def Let_def)

text \<open>What one call takes from the connection, all of it kept in \<open>buf\<close>, is bounded.\<close>

lemma ReadSlice_parts:
  "ReadSlice cap s = (frag, err, s') \<Longrightarrow> s = frag @ s' \<and> length frag \<le> cap"
  by (auto simp: ReadSlice_def Let_def split: if_splits)

lemma readLine_from_bound:
  assumes "int (length buf) \<le> max 0 (sint maxSize)"
  shows "length (snd (readLine_from maxSize buf s)) \<le> length s
    \<and> int (length buf) + int (length s) - int (length (snd (readLine_from maxSize buf s)))
        \<le> max 0 (sint maxSize) + int readerSize"
  using assms
proof (induction maxSize buf s rule: readLine_from.induct)
  case (1 maxSize buf s)
  obtain frag err s' where sl: "ReadSlice readerSize s = (frag, err, s')" by (metis prod_cases3)
  note parts = ReadSlice_parts [OF sl]
  show ?case
  proof (cases "\<not> sint maxSize < int (length (buf @ frag)) \<and> err = Some BufferFull")
    case True
    then have step: "readLine_from maxSize buf s = readLine_from maxSize (buf @ frag) s'"
      by (subst readLine_from.simps) (simp add: sl)
    have "int (length (buf @ frag)) \<le> max 0 (sint maxSize)" using True by simp
    with "1.IH" [OF sl [symmetric] refl refl] True
    have "length (snd (readLine_from maxSize (buf @ frag) s')) \<le> length s'
      \<and> int (length (buf @ frag)) + int (length s') - int (length (snd (readLine_from maxSize (buf @ frag) s')))
        \<le> max 0 (sint maxSize) + int readerSize"
      by simp
    with parts show ?thesis unfolding step by auto
  next
    case False
    then have "snd (readLine_from maxSize buf s) = s'"
      by (subst readLine_from.simps) (auto simp: sl Let_def split: option.splits read_err.splits)
    with parts 1(2) show ?thesis by auto
  qed
qed

lemma readLine_consumes: "fst (readLine maxSize s) = Line l \<Longrightarrow> length (snd (readLine maxSize s)) < length s"
  using readLine_spec [of maxSize s]
  by (auto simp: line_spec_def Let_def split: if_splits)

lemma readLine_shorter: "(Line l, rest) = readLine maxSize s \<Longrightarrow> length rest < length s"
  using readLine_consumes [of maxSize s l] by (metis fst_conv snd_conv)

section \<open>The loop of a connection\<close>

text \<open>
  The \<open>i\<close>-th dispatched line reads the clock \<open>env_clock i\<close> and the uptime \<open>env_uptime i\<close>, and its flush
  succeeds if \<open>env_flush i\<close>; if not, \<open>env_part i\<close> bytes got out before it failed. The result is the
  throttler's state, the lines written, the last of them perhaps in part, and the metrics; \<open>None\<close> is a
  panic of the throttler.
\<close>

record conn_env =
  env_clock :: "nat \<Rightarrow> int64"
  env_uptime :: "nat \<Rightarrow> int64"
  env_flush :: "nat \<Rightarrow> bool"
  env_part :: "nat \<Rightarrow> nat"

text \<open>What a flush of the buffer puts on the connection.\<close>

definition flushed :: "conn_env \<Rightarrow> nat \<Rightarrow> string \<Rightarrow> string list" where
  "flushed env i buf =
     (let sent = (if env_flush env i then buf else take (env_part env i) buf) in if sent = [] then [] else [sent])"

function conn_loop ::
  "'t throttle_fun \<Rightarrow> ('t \<Rightarrow> nat) option \<Rightarrow> int64 \<Rightarrow> conn_env \<Rightarrow> nat \<Rightarrow> 't \<Rightarrow> string
    \<Rightarrow> ('t \<times> string list \<times> metric list) option" where
  "conn_loop throttle keyCount maxLineSize env i t input =
     (case readLine maxLineSize input of
        (LineTooLong, _) \<Rightarrow>
          Some (t, flushed env i (''ERROR line too long'' @ [newline]), [LineTooLongTotal])
      | (ReadEnded, _) \<Rightarrow> Some (t, [], [])
      | (Line line, rest) \<Rightarrow>
          if all_space line
          then do {
            (t, out, ms) \<leftarrow> conn_loop throttle keyCount maxLineSize env i t rest;
            Some (t, out, LineLength (length line) # ms)
          }
          else do {
            (t, resp, closeConn, ms) \<leftarrow> dispatch throttle keyCount t (env_clock env i) (env_uptime env i) line;
            let out = flushed env i (if resp \<noteq> [] then resp @ [newline] else []) in
            if \<not> env_flush env i then Some (t, out, LineLength (length line) # ms)
            else if closeConn then Some (t, out, LineLength (length line) # ms)
            else do {
              (t, outs, ms') \<leftarrow> conn_loop throttle keyCount maxLineSize env (Suc i) t rest;
              Some (t, out @ outs, LineLength (length line) # ms @ ms')
            }
          })"
  by pat_completeness auto
termination
  by (relation "measure (\<lambda>(throttle, keyCount, maxLineSize, env, i, t, input). length input)")
    (auto dest: readLine_shorter)

declare conn_loop.simps [simp del]

lemma flushed_ok [simp]: "env_flush env i \<Longrightarrow> flushed env i buf = (if buf = [] then [] else [buf])"
  by (simp add: flushed_def)

definition handleConn ::
  "'t throttle_fun \<Rightarrow> ('t \<Rightarrow> nat) option \<Rightarrow> int64 \<Rightarrow> conn_env \<Rightarrow> 't \<Rightarrow> string
    \<Rightarrow> ('t \<times> string list \<times> metric list) option" where
  "handleConn throttle keyCount maxLineSize env t input = do {
     (t, out, ms) \<leftarrow> conn_loop throttle keyCount maxLineSize env 0 t input;
     Some (t, out, ConnectionsInc # ms @ [ConnectionsDec])
   }"

section \<open>Pipelining\<close>

text \<open>The lines of a stretch of requests dispatched one after the other.\<close>

fun dispatch_all ::
  "'t throttle_fun \<Rightarrow> ('t \<Rightarrow> nat) option \<Rightarrow> conn_env \<Rightarrow> nat \<Rightarrow> 't \<Rightarrow> string list
    \<Rightarrow> ('t \<times> string list) option" where
  "dispatch_all throttle keyCount env i t [] = Some (t, [])"
| "dispatch_all throttle keyCount env i t (line # lines) = do {
     (t, r, _, _) \<leftarrow> dispatch throttle keyCount t (env_clock env i) (env_uptime env i) line;
     (t, rs) \<leftarrow> dispatch_all throttle keyCount env (Suc i) t lines;
     Some (t, r # rs)
   }"

text \<open>
  A request line a client may pipeline: not blank, not QUIT, no newline or trailing carriage return
  of its own, and within the line limit.
\<close>

definition request_line :: "int64 \<Rightarrow> string \<Rightarrow> bool" where
  "request_line maxLineSize line \<longleftrightarrow>
     newline \<notin> set line \<and> \<not> (line \<noteq> [] \<and> last line = carriage) \<and> \<not> all_space line
     \<and> hd (Fields line) \<noteq> ''QUIT'' \<and> int (length line) < sint maxLineSize"

lemma takeWhile_newline:
  assumes "newline \<notin> set line"
  shows "takeWhile (\<lambda>c. c \<noteq> newline) (line @ newline # rest) = line"
proof -
  have "takeWhile (\<lambda>c. c \<noteq> newline) (line @ newline # rest)
      = line @ takeWhile (\<lambda>c. c \<noteq> newline) (newline # rest)"
    using assms by (intro takeWhile_append2) auto
  then show ?thesis by simp
qed

lemma readLine_request:
  assumes "request_line maxLineSize line"
  shows "readLine maxLineSize (line @ newline # rest) = (Line line, rest)"
proof -
  have tw: "takeWhile (\<lambda>c. c \<noteq> newline) (line @ newline # rest) = line"
    using assms by (intro takeWhile_newline) (simp add: request_line_def)
  have "TrimSuffix line carriage = line" "int (length line) < sint maxLineSize"
    using assms by (auto simp: request_line_def TrimSuffix_def)
  then have "fst (readLine maxLineSize (line @ newline # rest)) = Line line"
    by (simp add: readLine_spec(1) line_spec_def tw Let_def)
  moreover from readLine_spec(2) [OF this]
  have "snd (readLine maxLineSize (line @ newline # rest)) = rest" by (simp add: tw)
  ultimately show ?thesis by (simp add: prod_eq_iff)
qed

text \<open>The request in place \<open>k\<close> is dispatched in the state the ones before it left.\<close>

lemma dispatch_all_nth:
  assumes "dispatch_all throttle keyCount env i t lines = Some (t', rs)" "k < length lines"
  shows "\<exists>before after c ms. dispatch_all throttle keyCount env i t (take k lines) = Some (before, take k rs)
    \<and> dispatch throttle keyCount before (env_clock env (i + k)) (env_uptime env (i + k)) (lines ! k)
      = Some (after, rs ! k, c, ms)"
  using assms
proof (induction lines arbitrary: i t rs k)
  case (Cons line lines)
  from Cons.prems(1) obtain t1 r c ms rs' where d:
    "dispatch throttle keyCount t (env_clock env i) (env_uptime env i) line = Some (t1, r, c, ms)"
    "dispatch_all throttle keyCount env (Suc i) t1 lines = Some (t', rs')" "rs = r # rs'"
    by (auto split: bind_splits)
  show ?case
  proof (cases k)
    case 0
    with d show ?thesis by simp
  next
    case (Suc j)
    with Cons.IH [OF d(2), of j] Cons.prems(2) d show ?thesis by fastforce
  qed
qed simp

text \<open>
  Lines that are replies with \<open>P\<close>, the last one perhaps cut short if a flush may fail.
\<close>

definition whole_line :: "(string \<Rightarrow> bool) \<Rightarrow> string \<Rightarrow> bool" where
  "whole_line P l \<longleftrightarrow> (\<exists>r. l = r @ [newline] \<and> P r)"

definition cut_line :: "(string \<Rightarrow> bool) \<Rightarrow> string \<Rightarrow> bool" where
  "cut_line P l \<longleftrightarrow> (\<exists>r n. l = take n (r @ [newline]) \<and> P r)"

definition reply_lines :: "(string \<Rightarrow> bool) \<Rightarrow> conn_env \<Rightarrow> string list \<Rightarrow> bool" where
  "reply_lines P env out \<longleftrightarrow> (\<forall>l \<in> set out. cut_line P l) \<and> (\<forall>l \<in> set (butlast out). whole_line P l)
     \<and> ((\<forall>j. env_flush env j) \<longrightarrow> (\<forall>l \<in> set out. whole_line P l))"

lemma whole_line_reply [simp]: "P r \<Longrightarrow> whole_line P (r @ [newline])"
  unfolding whole_line_def by blast

lemma cut_line_take: "P r \<Longrightarrow> cut_line P (take n (r @ [newline]))"
  unfolding cut_line_def by blast

lemma cut_line_reply [simp]: "P r \<Longrightarrow> cut_line P (r @ [newline])"
  using cut_line_take [of P r "length (r @ [newline])"] by simp

lemma reply_lines_flushed: "P r \<Longrightarrow> reply_lines P env (flushed env i (r @ [newline]))"
  using cut_line_take [of P r "env_part env i"] by (simp add: reply_lines_def flushed_def Let_def del: take_append)

lemma reply_lines_Nil [simp]: "reply_lines P env []"
  by (simp add: reply_lines_def)

lemma reply_lines_Cons: "P r \<Longrightarrow> reply_lines P env outs \<Longrightarrow> reply_lines P env ((r @ [newline]) # outs)"
  by (auto simp: reply_lines_def)

context throttler_contract begin

lemma dispatch_line:
  assumes "ok t"
  shows "\<exists>t' r closeConn ms. dispatch throttle keyCount t now uptime line = Some (t', r, closeConn, ms)
    \<and> ok t' \<and> newline \<notin> set r \<and> (r = [] \<longleftrightarrow> closeConn)
    \<and> (closeConn \<longleftrightarrow> Fields line \<noteq> [] \<and> hd (Fields line) = ''QUIT'')"
  unfolding dispatch_eq by (rule dispatch_reply_line [OF assms Fields_words])

text \<open>
  Requests at the front of the input are answered one after the other, whatever follows them.
\<close>

lemma conn_loop_prefix:
  assumes "ok t" "list_all (request_line maxLineSize) lines" "\<forall>j. env_flush env j"
  shows "\<exists>t' rs ms. dispatch_all throttle keyCount env i t lines = Some (t', rs)
    \<and> length rs = length lines \<and> ok t'
    \<and> (\<forall>rest t'' outs ms'. conn_loop throttle keyCount maxLineSize env (i + length lines) t' rest = Some (t'', outs, ms')
        \<longrightarrow> conn_loop throttle keyCount maxLineSize env i t (concat (map (\<lambda>l. l @ [newline]) lines) @ rest)
          = Some (t'', map (\<lambda>r. r @ [newline]) rs @ outs, ms @ ms'))"
  using assms(1,2)
proof (induction lines arbitrary: i t)
  case Nil
  then show ?case by simp
next
  case (Cons line lines)
  from Cons.prems(2) have l: "request_line maxLineSize line" "list_all (request_line maxLineSize) lines"
    by simp_all
  obtain t1 r c ms where dl: "dispatch throttle keyCount t (env_clock env i) (env_uptime env i) line
      = Some (t1, r, c, ms)" "ok t1" "r = [] \<longleftrightarrow> c"
    "c \<longleftrightarrow> Fields line \<noteq> [] \<and> hd (Fields line) = ''QUIT''"
    using dispatch_line [OF Cons.prems(1)] by blast
  from dl(4) l(1) have "\<not> c" by (simp add: request_line_def)
  with dl have d: "dispatch throttle keyCount t (env_clock env i) (env_uptime env i) line
      = Some (t1, r, False, ms)" "ok t1" "r \<noteq> []" by simp_all
  from Cons.IH [OF d(2) l(2), of "Suc i"] obtain t' rs ms1 where
    IH: "dispatch_all throttle keyCount env (Suc i) t1 lines = Some (t', rs)" "length rs = length lines" "ok t'"
    "\<And>rest t'' outs ms'. conn_loop throttle keyCount maxLineSize env (Suc i + length lines) t' rest = Some (t'', outs, ms') \<Longrightarrow>
      conn_loop throttle keyCount maxLineSize env (Suc i) t1 (concat (map (\<lambda>l. l @ [newline]) lines) @ rest)
        = Some (t'', map (\<lambda>r. r @ [newline]) rs @ outs, ms1 @ ms')" by blast
  have "conn_loop throttle keyCount maxLineSize env i t (concat (map (\<lambda>l. l @ [newline]) (line # lines)) @ rest)
      = Some (t'', map (\<lambda>r. r @ [newline]) (r # rs) @ outs, (LineLength (length line) # ms @ ms1) @ ms')"
    if "conn_loop throttle keyCount maxLineSize env (i + length (line # lines)) t' rest = Some (t'', outs, ms')"
    for rest t'' outs ms'
    using l(1) assms(3) IH(4) [of rest t'' outs ms'] that
    by (subst conn_loop.simps) (simp add: readLine_request d request_line_def)
  with IH(1-3) d(1) show ?case by (intro exI [of _ t'] exI [of _ "r # rs"]) (fastforce simp del: map_append)
qed

lemma conn_loop_end:
  assumes "0 \<le> sint maxLineSize"
  shows "conn_loop throttle keyCount maxLineSize env i t [] = Some (t, [], [])"
proof -
  have "fst (readLine maxLineSize []) = ReadEnded"
    using assms by (simp add: readLine_spec(1) line_spec_def)
  then obtain rest where "readLine maxLineSize [] = (ReadEnded, rest)" by (metis prod.collapse)
  then show ?thesis by (subst conn_loop.simps) simp
qed

lemma conn_loop_pipeline:
  assumes "ok t" "list_all (request_line maxLineSize) lines" "\<forall>j. env_flush env j" "0 \<le> sint maxLineSize"
  shows "\<exists>t' rs ms. dispatch_all throttle keyCount env i t lines = Some (t', rs)
    \<and> length rs = length lines \<and> ok t'
    \<and> conn_loop throttle keyCount maxLineSize env i t (concat (map (\<lambda>l. l @ [newline]) lines))
      = Some (t', map (\<lambda>r. r @ [newline]) rs, ms)"
  using conn_loop_prefix [OF assms(1-3), of keyCount i] conn_loop_end [OF assms(4)]
  by (metis append_Nil2)

text \<open>
  Whatever arrives, the connection is served without a panic, and what is sent is one line for each
  reply, of which \<open>P\<close> holds if it does of every reply of \<open>dispatch\<close>; only the last may be cut short, by
  a write that fails.
\<close>

lemma conn_loop_replies:
  assumes "ok t" "P ''ERROR line too long''"
    and replies: "\<And>t now up line t' r c ms. ok t \<Longrightarrow>
      dispatch throttle keyCount t now up line = Some (t', r, c, ms) \<Longrightarrow> r \<noteq> [] \<Longrightarrow> P r"
  shows "\<exists>t' out ms. conn_loop throttle keyCount maxLineSize env i t input = Some (t', out, ms) \<and> ok t'
    \<and> reply_lines P env out"
  using assms(1)
proof (induction "length input" arbitrary: input i t rule: less_induct)
  case less
  obtain res rest where rl: "readLine maxLineSize input = (res, rest)" by force
  show ?case
  proof (cases res)
    case (Line line)
    then have shorter: "length rest < length input" using rl readLine_shorter by metis
    show ?thesis
    proof (cases "all_space line")
      case True
      from less.hyps [OF shorter less.prems, of i] rl Line True show ?thesis
        by (subst conn_loop.simps) auto
    next
      case False
      obtain t1 r c ms where d: "dispatch throttle keyCount t (env_clock env i) (env_uptime env i) line
          = Some (t1, r, c, ms)" "ok t1"
        using dispatch_line [OF less.prems] by blast
      note good = replies [OF less.prems d(1)]
      have one: "reply_lines P env (flushed env i (if r \<noteq> [] then r @ [newline] else []))"
        using reply_lines_flushed [of P r] good by (cases "r = []") (simp_all add: flushed_def)
      obtain t2 outs ms2 where rest: "conn_loop throttle keyCount maxLineSize env (Suc i) t1 rest = Some (t2, outs, ms2)"
        "ok t2" "reply_lines P env outs"
        using less.hyps [OF shorter d(2), of "Suc i"] by blast
      have "env_flush env i \<Longrightarrow> reply_lines P env (flushed env i (if r \<noteq> [] then r @ [newline] else []) @ outs)"
        using reply_lines_Cons [of P r env outs] good rest(3) by (cases "r = []") simp_all
      with one rest rl Line False d show ?thesis
        by (subst conn_loop.simps) (cases "r = []"; cases "env_flush env i"; simp add: Let_def)
    qed
  next
    case LineTooLong
    with rl less.prems reply_lines_flushed [of P "''ERROR line too long''", OF assms(2)] show ?thesis
      by (subst conn_loop.simps) simp
  next
    case ReadEnded
    with rl less.prems show ?thesis
      by (subst conn_loop.simps) simp
  qed
qed

end

end
