(* ===== verification/Replies.thy ===== *)
theory Replies
  imports ServerConn
begin

text \<open>
  The replies of DHP/1 as a data type, and what the server writes as a value of it: every line that
  leaves \<open>handleConn\<close> (\<open>server/textserver.go\<close>) is one reply, whatever the client sent. The keys in a
  reply are words without a separator, so that a reply can be read back in one way only.
\<close>

datatype reply_token = BadToken | Answer string bool int64 int64

datatype reply = Pong | Ready | Stats int64 nat | Error string | Result "reply_token list"

fun show_token :: "reply_token \<Rightarrow> string" where
  "show_token BadToken = ''ERR''"
| "show_token (Answer key throttled remaining retryAfter) =
     key @ ''|'' @ (if throttled then ''1'' else ''0'') @ ''|'' @ FormatInt remaining @ ''|'' @ FormatInt retryAfter"

fun show_reply :: "reply \<Rightarrow> string" where
  "show_reply Pong = ''PONG''"
| "show_reply Ready = ''OK 1''"
| "show_reply (Stats uptime keys) = ''STATS '' @ FormatInt uptime @ '' '' @ fmt_int (int keys)"
| "show_reply (Error why) = ''ERROR '' @ why"
| "show_reply (Result ts) = result_line (map show_token ts)"

fun typed_token :: "reply_token \<Rightarrow> bool" where
  "typed_token BadToken \<longleftrightarrow> True"
| "typed_token (Answer key throttled remaining retryAfter) \<longleftrightarrow> word_str key \<and> CHR ''|'' \<notin> set key"

fun typed_reply :: "reply \<Rightarrow> bool" where
  "typed_reply (Error why) \<longleftrightarrow>
     why \<in> {''missing version'', ''unsupported version'', ''unknown command'', ''line too long''}"
| "typed_reply (Result ts) \<longleftrightarrow> list_all typed_token ts"
| "typed_reply _ \<longleftrightarrow> True"

text \<open>A typed reply is one line, and not an empty one.\<close>

lemma typed_token_word: "typed_token x \<Longrightarrow> word_str (show_token x)"
proof (cases x)
  case (Answer key th remaining retryAfter)
  assume "typed_token x"
  with Answer have "word_str (formatResult (zero_response\<lparr>s_Key := key, s_Throttled := th,
      s_Remaining := remaining, s_RetryAfter := retryAfter\<rparr>))"
    by (intro formatResult_word) (simp add: zero_response_def)
  with Answer show ?thesis by (simp add: formatResult_def zero_response_def)
qed (simp add: word_ERR)

lemma typed_reply_line:
  assumes "typed_reply x"
  shows "show_reply x \<noteq> []" "newline \<notin> set (show_reply x)"
proof -
  show "newline \<notin> set (show_reply x)"
  proof (cases x)
    case (Result ts)
    with assms have "list_all word_str (map show_token ts)"
      by (auto simp: list_all_iff intro: typed_token_word)
    with Result show ?thesis by (simp add: result_line_no_newline)
  qed (use assms in \<open>auto simp: fmt_int_no_newline\<close>)
  show "show_reply x \<noteq> []"
  proof (cases x)
    case (Result ts)
    then show ?thesis by (cases ts) (simp_all add: result_line_def)
  qed simp_all
qed

section \<open>The server's replies\<close>

lemma formatResult_typed:
  assumes "word_str (s_Key r)" "CHR ''|'' \<notin> set (s_Key r)"
  shows "\<exists>x. formatResult r = show_token x \<and> typed_token x"
proof (cases "s_Err r")
  case None
  with assms show ?thesis
    by (intro exI [of _ "Answer (s_Key r) (s_Throttled r) (s_Remaining r) (s_RetryAfter r)"])
      (simp add: formatResult_def)
next
  case (Some e)
  then show ?thesis by (intro exI [of _ BadToken]) (simp add: formatResult_def)
qed

lemma result_tokens_typed:
  assumes "list_all word_str toks" "map s_Key rs = map q_Key (entries_of toks) \<or> rs = []"
  shows "\<exists>xs. result_tokens toks rs = map show_token xs \<and> list_all typed_token xs"
  using assms
proof (induction toks rs rule: result_tokens.induct)
  case (1 rs)
  show ?case by (intro exI [of _ "[]"]) simp
next
  case (2 tok toks rs)
  show ?case
  proof (cases "parseEntry tok")
    case None
    with 2 obtain xs where "result_tokens toks rs = map show_token xs" "list_all typed_token xs" by auto
    with None show ?thesis by (intro exI [of _ "BadToken # xs"]) simp
  next
    case (Some e)
    with 2 obtain xs where xs: "result_tokens toks (tl rs) = map show_token xs" "list_all typed_token xs"
      by (cases rs) auto
    obtain x where "(case rs of [] \<Rightarrow> ''ERR'' | r # _ \<Rightarrow> formatResult r) = show_token x" "typed_token x"
    proof (cases rs)
      case Nil
      then show ?thesis using that [of BadToken] by simp
    next
      case (Cons r rs')
      with 2(4) Some have "s_Key r = q_Key e" by simp
      moreover have "word_str tok" using 2(3) by simp
      ultimately show ?thesis
        using formatResult_typed [of r] parseEntry_key_word [OF Some] Cons that by auto
    qed
    with xs Some show ?thesis by (intro exI [of _ "x # xs"]) simp
  qed
qed

context throttler_contract begin

lemma dispatch_typed:
  assumes "ok t" "dispatch throttle keyCount t now uptime line = Some (t', r, c, ms)" "r \<noteq> []"
  shows "\<exists>x. r = show_reply x \<and> typed_reply x"
proof (cases "Fields line")
  case Nil
  with assms(2) have "r = show_reply (Error ''unknown command'')" by (simp add: dispatch_eq)
  then show ?thesis by (intro exI [of _ "Error ''unknown command''"]) simp
next
  case (Cons cmd args)
  have words: "list_all word_str args" using Fields_words [of line] Cons by simp
  note reply = assms(2) [unfolded dispatch_eq Cons]
  consider "cmd = ''THROTTLE''" | "cmd = ''HELLO''" | "cmd = ''PING''" | "cmd = ''STATS''" | "cmd = ''QUIT''"
    | "cmd \<notin> {''THROTTLE'', ''HELLO'', ''PING'', ''STATS'', ''QUIT''}" by blast
  then show ?thesis
  proof cases
    case 1
    obtain t1 out m rs where t: "throttle_reply throttle t now args = Some (t1, out, m)"
      "out = result_line (result_tokens args rs)" "rs = [] \<or> map s_Key rs = map q_Key (entries_of args)"
      using throttle_reply_result [OF assms(1), of now args] by blast
    obtain xs where "result_tokens args rs = map show_token xs" "list_all typed_token xs"
      using result_tokens_typed [OF words] t(3) by blast
    with 1 reply t(1,2) show ?thesis by (intro exI [of _ "Result xs"]) simp
  next
    case 2
    then have "r = hello_reply args" using reply by (simp add: Let_def)
    then have "r \<in> {show_reply Ready, show_reply (Error ''missing version''), show_reply (Error ''unsupported version'')}"
      by (simp add: hello_reply_def split: list.split)
    then show ?thesis
      by (elim insertE emptyE) (rule exI, rule conjI, assumption, simp)+
  next
    case 3
    then show ?thesis using reply by (intro exI [of _ Pong]) (simp add: Let_def)
  next
    case 4
    then show ?thesis using reply
      by (intro exI [of _ "Stats uptime (case keyCount of None \<Rightarrow> 0 | Some kc \<Rightarrow> kc t)"])
        (simp add: Let_def handleStats_def)
  next
    case 5
    then show ?thesis using reply assms(3) by (simp add: Let_def)
  next
    case 6
    then show ?thesis using reply by (intro exI [of _ "Error ''unknown command''"]) (simp add: Let_def)
  qed
qed

lemma conn_loop_typed:
  assumes "ok t"
  shows "\<exists>t' out ms. conn_loop throttle keyCount maxLineSize env i t input = Some (t', out, ms) \<and> ok t'
    \<and> reply_lines (\<lambda>r. \<exists>x. r = show_reply x \<and> typed_reply x) env out"
proof -
  let ?P = "\<lambda>r. \<exists>x. r = show_reply x \<and> typed_reply x"
  show ?thesis
  proof (rule conn_loop_replies [where P = ?P, OF assms])
    show "?P ''ERROR line too long''" by (intro exI [of _ "Error ''line too long''"]) simp
    show "?P r" if "ok t" "dispatch throttle keyCount t now up line = Some (t', r, c, ms)" "r \<noteq> []"
      for t now up line t' r c ms
      using that by (rule dispatch_typed)
  qed
qed

end

end
