(* ===== verification/ThrottleProps.thy ===== *)
theory ThrottleProps
  imports Throttling Replies
begin

text \<open>
  The properties of \<open>InMemoryThrottler\<close>: a call refines the specification on a map of TATs, honours
  the result contract of the \<open>Throttler\<close> interface, commits all of its Real entries or none, and,
  over any sequence of calls, never commits more cost on a key, in any window of time, than the key's
  limit allows (a lemma here; \<open>ConcurrentLimit\<close> rests on it).
\<close>

section \<open>Sequences of calls\<close>

text \<open>Calls made one after the other, each with its clock reading and its entries.\<close>

fun throttle_calls ::
  "store \<Rightarrow> (int64 \<times> request_entry list) list \<Rightarrow> (store \<times> response_entry list list) option" where
  "throttle_calls st [] = Some (st, [])"
| "throttle_calls st ((now, entries) # calls) = do {
     (st, rs, _) \<leftarrow> Throttle st None now entries;
     (st, rss) \<leftarrow> throttle_calls st calls;
     Some (st, rs # rss)
   }"

text \<open>A call committed when none of its Real entries reports being throttled.\<close>

definition committed :: "request_entry list \<Rightarrow> response_entry list \<Rightarrow> bool" where
  "committed entries rs \<longleftrightarrow> list_all2 (\<lambda>e r. q_Peek e \<or> \<not> s_Throttled r) entries rs"

definition real_cost :: "string \<Rightarrow> request_entry list \<Rightarrow> int" where
  "real_cost key entries =
     (\<Sum>e \<leftarrow> filter (\<lambda>e. \<not> q_Peek e \<and> q_Key e = key) entries. sint (EffectiveCost (q_Cost e)))"

text \<open>The cost on a key of the calls that committed, of those with a clock reading in \<open>[t1, t2]\<close>.\<close>

fun committed_cost ::
  "int \<Rightarrow> int \<Rightarrow> string \<Rightarrow> (int64 \<times> request_entry list) list \<Rightarrow> response_entry list list \<Rightarrow> int" where
  "committed_cost t1 t2 key ((now, entries) # calls) (rs # rss) =
     (if in_window t1 t2 now \<and> committed entries rs then real_cost key entries else 0)
     + committed_cost t1 t2 key calls rss"
| "committed_cost t1 t2 key _ _ = 0"

lemma respond_sel [simp]:
  "s_Key (respond e g) = q_Key e" "s_Throttled (respond e g) = g_throttled g"
  "s_Remaining (respond e g) = g_remaining g" "s_RetryAfter (respond e g) = g_retryAfter g"
  "s_Err (respond e g) = None"
  by (simp_all add: respond_def set_result_def zero_response_def)

lemma spec_eval_keys: "map s_Key (fst (spec_eval now tat work es)) = map q_Key es"
  by (induction es arbitrary: work) (simp_all add: case_prod_beta Let_def)

lemma spec_eval_length [simp]: "length (fst (spec_eval now tat work es)) = length es"
  using spec_eval_keys [of now tat work es] by (metis length_map)

lemma spec_eval_err: "\<forall>r \<in> set (fst (spec_eval now tat work es)). s_Err r = None"
  by (induction es arbitrary: work) (simp_all add: case_prod_beta Let_def)

lemma spec_eval_committed:
  "fst (snd (spec_eval now tat work es)) \<longleftrightarrow> committed es (fst (spec_eval now tat work es))"
  by (induction es arbitrary: work) (simp_all add: case_prod_beta Let_def committed_def)

definition chain :: "int64 \<Rightarrow> request_entry list \<Rightarrow> (string \<Rightarrow> int64) \<Rightarrow> string \<Rightarrow> int64" where
  "chain now es tat = foldl (\<lambda>work e. if q_Peek e then work else advance work now e) tat es"

lemma spec_eval_chain: "snd (snd (spec_eval now tat work es)) = chain now es work"
  by (induction es arbitrary: work) (simp_all add: case_prod_beta Let_def chain_def)

lemma spec_throttle_eq:
  "snd (spec_throttle now tat es) = fst (spec_eval now tat tat es)"
  "fst (spec_throttle now tat es) =
     (if committed es (snd (spec_throttle now tat es)) then chain now es tat else tat)"
  by (simp_all add: spec_throttle_def case_prod_beta Let_def
      spec_eval_committed [symmetric] spec_eval_chain)

text \<open>The facts about one call that returned, over the store.\<close>

lemma Throttle_facts:
  assumes "store_inv st" "Throttle st None now entries = Some (st', rs, err)"
  shows "rs = fst (spec_eval now (tat_of st) (tat_of st) entries)"
    and "tat_of st' = (if committed entries rs then chain now entries (tat_of st) else tat_of st)"
    and "err = None" "store_inv st'"
  using Throttle_Some [OF assms] spec_throttle_eq [of now "tat_of st" entries] by simp_all

text \<open>
  The result contract of the \<open>Throttler\<close> interface, for every state of the context: one response per
  entry, in order, each echoing its key; on a live context no response and no call carries an error;
  on a finished one every response is throttled with the context's error, which the call returns too,
  and the store is not touched.
\<close>

lemma Throttle_result_contract:
  assumes "store_inv st"
  shows "\<exists>st' rs err. Throttle st ctxErr now entries = Some (st', rs, err) \<and> store_inv st'
    \<and> map s_Key rs = map q_Key entries
    \<and> (case ctxErr of
         None \<Rightarrow> err = None \<and> list_all (\<lambda>r. s_Err r = None) rs
       | Some e \<Rightarrow> err = Some (ContextErr e) \<and> st' = st
           \<and> list_all (\<lambda>r. s_Throttled r \<and> s_Err r = Some (ContextErr e)) rs)"
proof (cases ctxErr)
  case None
  obtain st' where t: "Throttle st None now entries = Some (st', snd (spec_throttle now (tat_of st) entries), None)"
    using Throttle_effect [OF assms] by blast
  with Throttle_facts [OF assms t] None spec_eval_keys spec_eval_err show ?thesis
    by (simp add: list_all_iff)
next
  case (Some e)
  with assms show ?thesis
    by (simp add: Throttle_def list_all_iff comp_def)
qed

interpretation in_memory: throttler_contract InMemoryThrottle store_inv
  by unfold_locales (use Throttle_result_contract in \<open>simp add: InMemoryThrottle_def; blast\<close>)

section \<open>The rate limit over calls\<close>

text \<open>Every Real entry on the key carries this limit.\<close>

definition key_limit :: "string \<Rightarrow> limit \<Rightarrow> request_entry list \<Rightarrow> bool" where
  "key_limit key lim es \<longleftrightarrow> (\<forall>e \<in> set es. \<not> q_Peek e \<longrightarrow> q_Key e = key \<longrightarrow> q_Limit e = lim)"

definition key_requests :: "string \<Rightarrow> int64 \<Rightarrow> request_entry list \<Rightarrow> (int64 \<times> int64) list" where
  "key_requests key now es =
     map (\<lambda>e. (now, EffectiveCost (q_Cost e))) (filter (\<lambda>e. \<not> q_Peek e \<and> q_Key e = key) es)"

abbreviation limit_run :: "limit \<Rightarrow> int64 \<Rightarrow> (int64 \<times> int64) list \<Rightarrow> (bool list \<times> int64) option" where
  "limit_run lim \<equiv> gcra_run (l_Capacity lim) (EffectiveUnits (r_Units (l_Rate lim))) (r_Period (l_Rate lim))"

text \<open>A committed call is a run of the bucket in which everything is admitted.\<close>

lemma chain_run:
  assumes "fst (snd (spec_eval now tat work es))" "key_limit key lim es"
  shows "limit_run lim (work key) (key_requests key now es)
    = Some (replicate (length (key_requests key now es)) True, chain now es work key)"
  using assms
proof (induction es arbitrary: work)
  case (Cons e es)
  have tail: "key_limit key lim es" using Cons.prems(2) by (simp add: key_limit_def)
  show ?case
  proof (cases "q_Peek e")
    case True
    with Cons.IH [OF _ tail, of work] Cons.prems(1) show ?thesis
      by (simp add: case_prod_beta Let_def chain_def key_requests_def)
  next
    case False
    let ?g = "chk (work (q_Key e)) now e"
    have adm: "\<not> g_throttled ?g" and rest: "fst (snd (spec_eval now tat (advance work now e) es))"
      using Cons.prems(1) False by (simp_all add: case_prod_beta Let_def)
    note IH = Cons.IH [OF rest tail]
    show ?thesis
    proof (cases "q_Key e = key")
      case True
      with Cons.prems(2) False have "q_Limit e = lim" by (simp add: key_limit_def)
      with check_entry_chk [of "work key" now e] True
      have "gcraCheck (work key) now (l_Capacity lim) (EffectiveUnits (r_Units (l_Rate lim)))
          (r_Period (l_Rate lim)) (EffectiveCost (q_Cost e)) = Some ?g"
        by (simp add: check_entry_def)
      with IH True False adm show ?thesis
        by (simp add: key_requests_def chain_def advance_def)
    next
      case other: False
      with IH False advance_other [of key e work now] show ?thesis
        by (simp add: key_requests_def chain_def)
    qed
  qed
qed (simp add: key_requests_def chain_def)

lemma gcra_run_append:
  "gcra_run c u p tat xs = Some (as, tat') \<Longrightarrow> gcra_run c u p tat' ys = Some (bs, tat'') \<Longrightarrow>
   gcra_run c u p tat (xs @ ys) = Some (as @ bs, tat'')"
proof (induction xs arbitrary: tat as)
  case (Cons x xs)
  obtain now cost where x: "x = (now, cost)" by force
  obtain r where r: "gcraCheck tat now c u p cost = Some r" using gcraCheck_no_panic by blast
  with Cons.prems(1) x obtain as' where as':
    "gcra_run c u p (if g_throttled r then tat else g_admittedTAT r) xs = Some (as', tat')"
    "as = (\<not> g_throttled r) # as'"
    by (auto simp: bind_eq_Some_conv)
  from Cons.IH [OF as'(1) Cons.prems(2)] as'(2) x r show ?case by simp
qed simp

text \<open>The cost of requests that are all admitted.\<close>

abbreviation window_cost :: "int \<Rightarrow> int \<Rightarrow> (int64 \<times> int64) list \<Rightarrow> int" where
  "window_cost t1 t2 rs \<equiv> (\<Sum>(now, cost) \<leftarrow> rs. if in_window t1 t2 now then sint cost else 0)"

lemma admitted_cost_all: "admitted_cost t1 t2 (replicate (length rs) True) rs = window_cost t1 t2 rs"
  by (induction rs) (auto simp: admitted_cost_def)

lemma key_requests_cost:
  "window_cost t1 t2 (key_requests key now es) = (if in_window t1 t2 now then real_cost key es else 0)"
  by (simp add: key_requests_def real_cost_def comp_def)

lemma throttle_calls_run:
  assumes "store_inv st" "throttle_calls st calls = Some (st', rss)"
    and "\<forall>(now, es) \<in> set calls. key_limit key lim es"
  shows "\<exists>reqs. limit_run lim (tat_of st key) reqs = Some (replicate (length reqs) True, tat_of st' key)
    \<and> window_cost t1 t2 reqs = committed_cost t1 t2 key calls rss
    \<and> fst ` set reqs \<subseteq> fst ` set calls"
  using assms
proof (induction calls arbitrary: st rss)
  case Nil
  then show ?case by (intro exI [of _ "[]"]) simp
next
  case (Cons call calls)
  obtain now es where call: "call = (now, es)" by force
  with Cons.prems(2) obtain st1 rs err rss' where t: "Throttle st None now es = Some (st1, rs, err)"
    and rest: "throttle_calls st1 calls = Some (st', rss')" and rss: "rss = rs # rss'"
    by (auto simp: bind_eq_Some_conv)
  note f = Throttle_facts [OF Cons.prems(1) t]
  obtain reqs where reqs: "limit_run lim (tat_of st1 key) reqs
      = Some (replicate (length reqs) True, tat_of st' key)"
    "window_cost t1 t2 reqs = committed_cost t1 t2 key calls rss'" "fst ` set reqs \<subseteq> fst ` set calls"
    using Cons.IH [OF f(4) rest] Cons.prems(3) by auto
  show ?case
  proof (cases "committed es rs")
    case False
    with f(2) reqs call rss show ?thesis by (intro exI [of _ reqs]) auto
  next
    case True
    have lim: "key_limit key lim es" using Cons.prems(3) call by simp
    let ?new = "key_requests key now es"
    have "fst (snd (spec_eval now (tat_of st) (tat_of st) es))"
      using True unfolding spec_eval_committed f(1) .
    from chain_run [OF this lim] True f(2)
    have "limit_run lim (tat_of st key) ?new = Some (replicate (length ?new) True, tat_of st1 key)"
      by simp
    from gcra_run_append [OF this reqs(1)]
    have "limit_run lim (tat_of st key) (?new @ reqs)
        = Some (replicate (length (?new @ reqs)) True, tat_of st' key)"
      by (simp add: replicate_add)
    moreover have "fst ` set (?new @ reqs) \<subseteq> fst ` set (call # calls)"
      using reqs(3) call by (auto simp: key_requests_def)
    ultimately show ?thesis
      using reqs(2) True call rss
      by (intro exI [of _ "?new @ reqs"]) (simp add: key_requests_cost)
  qed
qed

text \<open>
  The rate limit. Of calls made one after the other, those with a clock reading in a window of
  \<open>t2 - t1\<close> commit at most the capacity and what drains in the window, on a key whose Real entries
  all carry the same limit. The other keys, the Peek entries, the calls before and after the window
  and the order of the clock readings are arbitrary.
\<close>

definition within_limit :: "limit \<Rightarrow> int \<Rightarrow> int \<Rightarrow> bool" where
  "within_limit lim len cost \<longleftrightarrow> cost * sint (r_Period (l_Rate lim))
     \<le> sint (l_Capacity lim) * sint (r_Period (l_Rate lim)) + len * sint (EffectiveUnits (r_Units (l_Rate lim)))"

lemma throttle_calls_rate:
  assumes "store_inv st" and calls: "throttle_calls st calls = Some (st', rss)"
    and lim: "\<forall>(now, es) \<in> set calls. key_limit key lim es \<and> 0 \<le> sint now" and window: "t1 \<le> t2"
    and sane: "0 \<le> sint (r_Period (l_Rate lim))" "0 \<le> sint (l_Capacity lim)"
  shows "within_limit lim (t2 - t1) (committed_cost t1 t2 key calls rss)"
proof -
  have "\<forall>(now, es) \<in> set calls. key_limit key lim es" using lim by auto
  then obtain reqs where reqs: "limit_run lim (tat_of st key) reqs
      = Some (replicate (length reqs) True, tat_of st' key)"
    and cost: "window_cost t1 t2 reqs = committed_cost t1 t2 key calls rss"
    and times: "fst ` set reqs \<subseteq> fst ` set calls"
    using throttle_calls_run [OF assms(1) calls, of key lim] by blast
  have "\<forall>(now, cost) \<in> set reqs. 0 \<le> sint now"
    using times lim by fastforce
  from gcra_run_rate [OF reqs this window _ sane] show ?thesis
    by (simp add: within_limit_def admitted_cost_all cost)
qed

section \<open>One call against several\<close>

text \<open>When a batch of Real entries commits, it does what its entries do in calls of their own.\<close>

lemma committed_Cons [simp]:
  "committed (e # es) (r # rs) \<longleftrightarrow> (q_Peek e \<or> \<not> s_Throttled r) \<and> committed es rs"
  "committed [] []"
  by (simp_all add: committed_def)

lemma spec_eval_tat_irrelevant:
  "list_all (\<lambda>e. \<not> q_Peek e) es \<Longrightarrow> spec_eval now tat work es = spec_eval now tat' work es"
  by (induction es arbitrary: work) simp_all

lemma committed_singles:
  assumes "store_inv st" "list_all (\<lambda>e. \<not> q_Peek e) es"
    and "spec_eval now (tat_of st) (tat_of st) es = (rs, True, w)"
  shows "\<exists>st'. throttle_calls st (map (\<lambda>e. (now, [e])) es) = Some (st', map (\<lambda>r. [r]) rs)
    \<and> store_inv st' \<and> tat_of st' = w"
  using assms
proof (induction es arbitrary: st rs)
  case (Cons e es)
  let ?g = "chk (tat_of st (q_Key e)) now e"
  from Cons.prems(2) have real: "\<not> q_Peek e" "list_all (\<lambda>e. \<not> q_Peek e) es" by simp_all
  with Cons.prems(3) obtain rs' where adm: "\<not> g_throttled ?g" and rs: "rs = respond e ?g # rs'"
    and tail: "spec_eval now (tat_of st) (advance (tat_of st) now e) es = (rs', True, w)"
    by (auto simp: Let_def split: prod.splits)
  obtain st1 where st1: "Throttle st None now [e] = Some (st1, [respond e ?g], None)" "store_inv st1"
    "tat_of st1 = advance (tat_of st) now e"
    using Throttle_effect [OF Cons.prems(1), of now "[e]"] real(1) adm
    by (auto simp: spec_throttle_def)
  have "spec_eval now (tat_of st1) (tat_of st1) es = (rs', True, w)"
    using tail spec_eval_tat_irrelevant [OF real(2)] unfolding st1(3) by metis
  from Cons.IH [OF st1(2) real(2) this] st1(1) rs show ?case by auto
qed simp

text \<open>
  The parts of a call: each Peek entry, and then the Real entries as one group. A call does what its
  parts do in calls of their own.
\<close>

definition call_parts :: "request_entry list \<Rightarrow> request_entry list list" where
  "call_parts entries =
     map (\<lambda>e. [e]) (filter q_Peek entries)
     @ (let reals = filter (\<lambda>e. \<not> q_Peek e) entries in if reals = [] then [] else [reals])"

definition one_part :: "request_entry list \<Rightarrow> bool" where
  "one_part es \<longleftrightarrow> list_all (\<lambda>e. \<not> q_Peek e) es \<or> length es = 1"

text \<open>The responses of a call in the order of its parts.\<close>

definition part_answers :: "request_entry list \<Rightarrow> response_entry list \<Rightarrow> response_entry list" where
  "part_answers entries rs =
     map snd (filter (\<lambda>(e, r). q_Peek e) (zip entries rs)) @ map snd (filter (\<lambda>(e, r). \<not> q_Peek e) (zip entries rs))"

lemma call_parts_one: "list_all one_part (call_parts entries)"
  by (auto simp: call_parts_def one_part_def list_all_iff Let_def)

lemma throttle_calls_append:
  "throttle_calls st (xs @ ys) = do {
     (st, r1) \<leftarrow> throttle_calls st xs;
     (st, r2) \<leftarrow> throttle_calls st ys;
     Some (st, r1 @ r2)
   }"
proof (induction xs arbitrary: st)
  case (Cons x xs)
  obtain now es where "x = (now, es)" by force
  with Cons.IH show ?case by (simp add: Option.bind_assoc case_prod_beta cong: Option.bind_cong)
qed (simp add: case_prod_beta)

lemma peek_calls:
  assumes "store_inv st" "\<forall>e \<in> set es. q_Peek e"
  shows "\<exists>st'. throttle_calls st (map (\<lambda>e. (now, [e])) es)
      = Some (st', map (\<lambda>e. [respond e (chk (tat_of st (q_Key e)) now e)]) es)
    \<and> store_inv st' \<and> tat_of st' = tat_of st"
  using assms
proof (induction es arbitrary: st)
  case (Cons e es)
  obtain st1 where t: "Throttle st None now [e] = Some (st1, snd (spec_throttle now (tat_of st) [e]), None)"
    "store_inv st1" "tat_of st1 = fst (spec_throttle now (tat_of st) [e])"
    using Throttle_effect [OF Cons.prems(1)] by blast
  have e: "spec_throttle now (tat_of st) [e] = (tat_of st, [respond e (chk (tat_of st (q_Key e)) now e)])"
    using Cons.prems(2) by (simp add: spec_throttle_def)
  from Cons.IH [OF t(2)] Cons.prems(2) t(1,3) show ?case by (auto simp: e)
qed simp

lemma spec_eval_parts:
  "spec_eval now tat work es = (rs, ok, w) \<Longrightarrow>
    map snd (filter (\<lambda>(e, r). q_Peek e) (zip es rs)) = map (\<lambda>e. respond e (chk (tat (q_Key e)) now e)) (filter q_Peek es)
    \<and> spec_eval now tat work (filter (\<lambda>e. \<not> q_Peek e) es)
        = (map snd (filter (\<lambda>(e, r). \<not> q_Peek e) (zip es rs)), ok, w)"
  by (induction es arbitrary: work rs ok w) (auto simp: Let_def split: prod.splits if_splits)

lemma call_is_its_parts:
  assumes "store_inv st" "Throttle st None now entries = Some (st', rs, err)"
  shows "\<exists>st'' rss. throttle_calls st (map (Pair now) (call_parts entries)) = Some (st'', rss)
    \<and> concat rss = part_answers entries rs \<and> tat_of st'' = tat_of st'"
proof -
  let ?peeks = "filter q_Peek entries" and ?reals = "filter (\<lambda>e. \<not> q_Peek e) entries"
  obtain ok w where ev: "spec_eval now (tat_of st) (tat_of st) entries = (rs, ok, w)"
    and tat: "tat_of st' = (if ok then w else tat_of st)"
    using Throttle_Some(1) [OF assms] by (auto simp: spec_throttle_def split: prod.splits)
  note parts = spec_eval_parts [OF ev]
  obtain st1 where st1: "throttle_calls st (map (\<lambda>e. (now, [e])) ?peeks)
      = Some (st1, map (\<lambda>e. [respond e (chk (tat_of st (q_Key e)) now e)]) ?peeks)"
    "store_inv st1" "tat_of st1 = tat_of st"
    using peek_calls [OF assms(1), of ?peeks now] by auto
  obtain st2 where st2: "Throttle st1 None now ?reals = Some (st2, snd (spec_throttle now (tat_of st) ?reals), None)"
    "tat_of st2 = fst (spec_throttle now (tat_of st) ?reals)"
    using Throttle_effect [OF st1(2), of now ?reals] unfolding st1(3) by blast
  have reals: "spec_throttle now (tat_of st) ?reals
      = (tat_of st', map snd (filter (\<lambda>(e, r). \<not> q_Peek e) (zip entries rs)))"
    using parts by (simp add: spec_throttle_def tat)
  have "concat (map (\<lambda>e. [respond e (chk (tat_of st (q_Key e)) now e)]) ?peeks)
      = map snd (filter (\<lambda>(e, r). q_Peek e) (zip entries rs))"
    using parts by (simp add: concat_map_singleton)
  with st1 st2 reals show ?thesis
  proof (cases "?reals = []")
    case True
    with reals have "tat_of st' = tat_of st" "map snd (filter (\<lambda>(e, r). \<not> q_Peek e) (zip entries rs)) = []"
      by (auto simp: spec_throttle_def)
    with True st1 \<open>concat _ = _\<close> show ?thesis
      by (simp add: call_parts_def part_answers_def comp_def)
  qed (auto simp: call_parts_def part_answers_def comp_def throttle_calls_append reals)
qed

section \<open>The properties\<close>

text \<open>
  C2 (refinement). On a well-formed store a call of \<open>Throttle\<close> does not panic, keeps the store well
  formed, and does to the TATs and answers exactly what the specification on a plain map from keys
  to TATs says: Peek entries against the map, Real entries chained on a private copy, the copy
  committed if and only if all Real entries were admitted.
\<close>

theorem Throttle_refines_spec:
  assumes "store_inv st"
  shows "\<exists>st'. Throttle st None now entries
      = Some (st', snd (spec_throttle now (tat_of st) entries), None)
    \<and> store_inv st' \<and> tat_of st' = fst (spec_throttle now (tat_of st) entries)"
  using assms by (rule Throttle_effect)

theorem Throttle_refines_spec_witness:
  "\<exists>st'. Throttle (fst (newStore 4 0)) None 5000
       [\<lparr>q_Key = ''a'', q_Limit = \<lparr>l_Capacity = 2, l_Rate = \<lparr>r_Units = 1, r_Period = 1000\<rparr>\<rparr>, q_Cost = 1, q_Peek = False\<rparr>]
     = Some (st', [\<lparr>s_Key = ''a'', s_Throttled = False, s_Remaining = 2, s_RetryAfter = 0, s_Err = None\<rparr>], None)
     \<and> tat_of st' ''a'' = 6000"
proof -
  let ?e = "\<lparr>q_Key = ''a'', q_Limit = \<lparr>l_Capacity = 2, l_Rate = \<lparr>r_Units = 1, r_Period = 1000\<rparr>\<rparr>,
    q_Cost = 1, q_Peek = False\<rparr>"
  have g: "gcraCheck 0 5000 2 1 1000 1
      = Some \<lparr>g_throttled = False, g_remaining = 2, g_retryAfter = 0, g_admittedTAT = 6000\<rparr>" by code_simp
  have tat: "tat_of (fst (newStore 4 0)) = (\<lambda>_. 0)" by (rule ext) simp
  have "spec_throttle 5000 (\<lambda>_. 0) [?e] = ((\<lambda>_. 0)(''a'' := 6000),
      [\<lparr>s_Key = ''a'', s_Throttled = False, s_Remaining = 2, s_RetryAfter = 0, s_Err = None\<rparr>])"
    by (simp add: spec_throttle_def chk_def check_entry_def EffectiveCost_id EffectiveUnits_id g
        advance_def respond_def set_result_def zero_response_def)
  with Throttle_refines_spec [OF newStore_inv, of 4 0 5000 "[?e]"] show ?thesis
    unfolding tat by auto
qed

text \<open>
  C10 (safety). One call is a transaction for its Real entries. If any of them reports being
  throttled, no key's TAT changes at all; otherwise the TATs are the ones its Real entries leave one
  after the other, each on top of those before it.
\<close>

theorem Throttle_all_or_none:
  assumes "store_inv st" and "Throttle st None now entries = Some (st', rs, err)"
  shows "(if \<exists>i < length entries. \<not> q_Peek (entries ! i) \<and> s_Throttled (rs ! i)
          then tat_of st' = tat_of st
          else tat_of st' = foldl (\<lambda>tat e. if q_Peek e then tat else advance tat now e) (tat_of st) entries)"
proof -
  note f = Throttle_facts [OF assms]
  have "length rs = length entries" unfolding f(1) by simp
  then have com: "committed entries rs
      \<longleftrightarrow> \<not> (\<exists>i < length entries. \<not> q_Peek (entries ! i) \<and> s_Throttled (rs ! i))"
    by (auto simp: committed_def list_all2_conv_all_nth)
  show ?thesis using f(2) unfolding com chain_def by (metis (lifting))
qed

definition example_entry :: "string \<Rightarrow> int64 \<Rightarrow> bool \<Rightarrow> request_entry" where
  "example_entry key cost peek = \<lparr>q_Key = key,
     q_Limit = \<lparr>l_Capacity = 2, l_Rate = \<lparr>r_Units = 1, r_Period = 1000\<rparr>\<rparr>, q_Cost = cost, q_Peek = peek\<rparr>"

lemma example_checks:
  "gcraCheck 0 5000 2 1 1000 1
     = Some \<lparr>g_throttled = False, g_remaining = 2, g_retryAfter = 0, g_admittedTAT = 6000\<rparr>"
  "gcraCheck 6000 5000 2 1 1000 2
     = Some \<lparr>g_throttled = True, g_remaining = 1, g_retryAfter = 1000, g_admittedTAT = 6000\<rparr>"
  "gcraCheck 0 5000 2 1 1000 3
     = Some \<lparr>g_throttled = True, g_remaining = 2, g_retryAfter = 0, g_admittedTAT = 0\<rparr>"
  "gcraCheck 6000 5000 2 1 1000 1
     = Some \<lparr>g_throttled = False, g_remaining = 1, g_retryAfter = 0, g_admittedTAT = 7000\<rparr>"
  by code_simp+

lemmas example_simps = example_entry_def spec_throttle_def chk_def check_entry_def EffectiveCost_id
  EffectiveUnits_id example_checks advance_def respond_def set_result_def zero_response_def

text \<open>The second entry is throttled, so the first, admitted by itself, is not written either.\<close>

theorem Throttle_all_or_none_witness:
  "\<exists>st' rs. Throttle (fst (newStore 4 0)) None 5000
       [example_entry ''a'' 1 False, example_entry ''b'' 3 False] = Some (st', rs, None)
     \<and> map s_Throttled rs = [False, True] \<and> tat_of st' ''a'' = 0"
proof -
  let ?st = "fst (newStore 4 0)" and ?es = "[example_entry ''a'' 1 False, example_entry ''b'' 3 False]"
  have tat: "tat_of ?st = (\<lambda>_. 0)" by (rule ext) simp
  have "map s_Throttled (snd (spec_throttle 5000 (\<lambda>_. 0) ?es)) = [False, True]"
    by (simp add: example_simps)
  then obtain st' rs where t: "Throttle ?st None 5000 ?es = Some (st', rs, None)"
    and rs: "map s_Throttled rs = [False, True]"
    using Throttle_effect [OF newStore_inv, of 4 0 5000 ?es] unfolding tat by auto
  from rs have "s_Throttled (rs ! 1)" by auto
  then have "\<exists>i < length ?es. \<not> q_Peek (?es ! i) \<and> s_Throttled (rs ! i)"
    by (intro exI [of _ 1]) (simp add: example_entry_def)
  with Throttle_all_or_none [OF newStore_inv t] tat have "tat_of st' = (\<lambda>_. 0)" by simp
  with t rs show ?thesis by auto
qed

text \<open>
  C21 (equivalence). Batching does not change the limits. Any call gives the responses, and leaves the
  TATs, of its Peek entries sent one per call and then its Real entries in a call of their own, at the
  same clock reading; and a batch of Real entries that commits does what its entries do sent one per
  call, in order: two entries on one key chain just as two calls would.
\<close>

theorem Throttle_batch_is_sequential:
  assumes "store_inv st" and "Throttle st None now entries = Some (st', rs, err)"
  shows "(\<exists>st'' rss. throttle_calls st (map (Pair now) (call_parts entries)) = Some (st'', rss)
      \<and> concat rss = part_answers entries rs \<and> tat_of st'' = tat_of st')
    \<and> (list_all (\<lambda>e. \<not> q_Peek e) entries \<and> list_all (\<lambda>r. \<not> s_Throttled r) rs \<longrightarrow>
      (\<exists>st''. throttle_calls st (map (\<lambda>e. (now, [e])) entries) = Some (st'', map (\<lambda>r. [r]) rs)
        \<and> tat_of st'' = tat_of st'))"
proof (intro conjI impI, rule call_is_its_parts [OF assms], elim conjE)
  assume real: "list_all (\<lambda>e. \<not> q_Peek e) entries" and adm: "list_all (\<lambda>r. \<not> s_Throttled r) rs"
  note f = Throttle_facts [OF assms(1,2)]
  have len: "length rs = length entries" unfolding f(1) by simp
  then have com: "committed entries rs"
    using adm by (simp add: committed_def list_all2_conv_all_nth list_all_length)
  with f(1) spec_eval_committed [of now "tat_of st" "tat_of st" entries]
    spec_eval_chain [of now "tat_of st" "tat_of st" entries]
  have "spec_eval now (tat_of st) (tat_of st) entries = (rs, True, chain now entries (tat_of st))"
    by (simp add: prod_eq_iff)
  from committed_singles [OF assms(1) real this] f(2) com
  show "\<exists>st''. throttle_calls st (map (\<lambda>e. (now, [e])) entries) = Some (st'', map (\<lambda>r. [r]) rs)
        \<and> tat_of st'' = tat_of st'" by auto
qed

theorem Throttle_batch_is_sequential_witness:
  "\<exists>st'' r1 r2. throttle_calls (fst (newStore 4 0))
       [(5000, [example_entry ''a'' 1 False]), (5000, [example_entry ''a'' 1 False])]
     = Some (st'', [[r1], [r2]]) \<and> \<not> s_Throttled r1 \<and> \<not> s_Throttled r2 \<and> tat_of st'' ''a'' = 7000"
proof -
  let ?st = "fst (newStore 4 0)" and ?es = "[example_entry ''a'' 1 False, example_entry ''a'' 1 False]"
  have tat: "tat_of ?st = (\<lambda>_. 0)" by (rule ext) simp
  have "map s_Throttled (snd (spec_throttle 5000 (\<lambda>_. 0) ?es)) = [False, False]"
    "fst (spec_throttle 5000 (\<lambda>_. 0) ?es) ''a'' = 7000"
    by (simp_all add: example_simps)
  then obtain st' rs where t: "Throttle ?st None 5000 ?es = Some (st', rs, None)"
    and rs: "map s_Throttled rs = [False, False]" and st': "tat_of st' ''a'' = 7000"
    using Throttle_effect [OF newStore_inv, of 4 0 5000 ?es] unfolding tat by auto
  from rs obtain r1 r2 where r: "rs = [r1, r2]" "\<not> s_Throttled r1" "\<not> s_Throttled r2" by auto
  have "list_all (\<lambda>e. \<not> q_Peek e) ?es" by (simp add: example_entry_def)
  with r have "\<exists>st''. throttle_calls ?st (map (\<lambda>e. (5000, [e])) ?es) = Some (st'', map (\<lambda>r. [r]) rs)
      \<and> tat_of st'' = tat_of st'"
    using conjunct2 [OF Throttle_batch_is_sequential [OF newStore_inv t]] by simp
  then show ?thesis using r st' by auto
qed

end
