(* ===== verification/TextServerProps.thy ===== *)
theory TextServerProps
  imports ThrottleProps
begin

text \<open>
  The properties of the server: what a THROTTLE line is answered, how a line is read off the
  connection, that pipelined requests are answered one by one and in order, and what is counted.
  The statements about a whole connection are for the server over \<open>InMemoryThrottler\<close>, through the
  interpretation \<open>in_memory\<close> of the throttler's contract.
\<close>

section \<open>Lemmas\<close>

lemma NewTextServer_pos: "0 < sint (NewTextServer m)"
  by (simp add: NewTextServer_def DefaultMaxLineSize_def int64_simps)

abbreviation is_entry_metric :: "metric \<Rightarrow> bool" where
  "is_entry_metric m \<equiv> (case m of ThrottleEntriesTotal _ _ \<Rightarrow> True | _ \<Rightarrow> False)"

lemma entries_and_bad: "length (entries_of toks) + length (bad_metrics toks) = length toks"
  by (induction toks) (auto split: option.split)

lemma throttle_reply_metrics:
  assumes "throttle_reply throttle t now toks = Some (t', r, ms)"
  shows "\<exists>es. ms = ThrottleBatchSize (length toks) # es \<and> length es = length toks \<and> list_all is_entry_metric es"
proof -
  have cases: "ms = ThrottleBatchSize (length toks) # bad_metrics toks \<and> entries_of toks = []
    \<or> (\<exists>rs. length rs = length (entries_of toks) \<and>
          ms = ThrottleBatchSize (length toks) # bad_metrics toks @ entry_metrics (entries_of toks) rs)
    \<or> ms = ThrottleBatchSize (length toks) # bad_metrics toks
          @ map (\<lambda>e. ThrottleEntriesTotal (modeLabel (q_Peek e)) ''err'') (entries_of toks)"
    using assms by (auto simp: throttle_reply_def Let_def bind_eq_Some_conv split: if_splits)
  have "list_all is_entry_metric (bad_metrics toks)" "list_all is_entry_metric (entry_metrics es rs)"
    "length rs = length es \<Longrightarrow> length (entry_metrics es rs) = length es" for es rs
    by (auto simp: bad_metrics_def entry_metrics_def list_all_iff)
  with cases entries_and_bad [of toks] show ?thesis
    by (elim disjE exE conjE) (auto simp: list_all_iff)
qed

definition command_labels :: "string set" where
  "command_labels = {''HELLO'', ''THROTTLE'', ''PING'', ''STATS'', ''QUIT'', ''unknown''}"

lemma unknown_label: "''unknown'' \<in> command_labels" "''THROTTLE'' \<in> command_labels"
  by (simp_all add: command_labels_def)

lemma normalizeCommand_known:
  assumes "cmd \<noteq> ''THROTTLE''"
  shows "normalizeCommand cmd \<in> command_labels" "normalizeCommand cmd \<noteq> ''THROTTLE''"
proof -
  have "normalizeCommand cmd \<in> command_labels \<and> normalizeCommand cmd \<noteq> ''THROTTLE''"
  proof (cases "cmd \<in> {''HELLO'', ''THROTTLE'', ''PING'', ''STATS'', ''QUIT''}")
    case True
    then have eq: "normalizeCommand cmd = cmd" by (simp only: normalizeCommand_def if_True)
    have "{''HELLO'', ''THROTTLE'', ''PING'', ''STATS'', ''QUIT''} \<subseteq> command_labels"
      by (simp add: command_labels_def)
    from subsetD [OF this True] show ?thesis unfolding eq by (rule conjI [OF _ assms])
  next
    case False
    then have "normalizeCommand cmd = ''unknown''" by (simp only: normalizeCommand_def if_False)
    then show ?thesis by (simp add: unknown_label)
  qed
  then show "normalizeCommand cmd \<in> command_labels" "normalizeCommand cmd \<noteq> ''THROTTLE''" by simp_all
qed

section \<open>What a connection counts\<close>

definition batch_sizes :: "metric list \<Rightarrow> nat list" where
  "batch_sizes ms = List.map_filter (\<lambda>m. case m of ThrottleBatchSize n \<Rightarrow> Some n | _ \<Rightarrow> None) ms"

lemma batch_sizes_simps [simp]:
  "batch_sizes [] = []" "batch_sizes (ThrottleBatchSize n # ms) = n # batch_sizes ms"
  "\<nexists>n. m = ThrottleBatchSize n \<Longrightarrow> batch_sizes (m # ms) = batch_sizes ms"
  "batch_sizes (ms @ ms') = batch_sizes ms @ batch_sizes ms'"
  by (auto simp: batch_sizes_def List.map_filter_def split: metric.split)

definition accounts :: "metric list \<Rightarrow> bool" where
  "accounts ms \<longleftrightarrow> ConnectionsInc \<notin> set ms \<and> ConnectionsDec \<notin> set ms
     \<and> (\<forall>l. count_list ms (RequestsTotal l) = count_list ms (RequestDuration l))
     \<and> (\<forall>l. RequestsTotal l \<in> set ms \<longrightarrow> l \<in> command_labels)
     \<and> length (batch_sizes ms) = count_list ms (RequestsTotal ''THROTTLE'')
     \<and> length (filter is_entry_metric ms) = sum_list (batch_sizes ms)"

lemma accounts_append: "accounts ms \<Longrightarrow> accounts ms' \<Longrightarrow> accounts (ms @ ms')"
  by (auto simp: accounts_def)

lemma accounts_small [simp]:
  "accounts []" "accounts [LineTooLongTotal]" "accounts (LineLength n # ms) = accounts ms"
  by (simp_all add: accounts_def)

lemma entry_metrics_only:
  assumes "list_all is_entry_metric es"
  shows "batch_sizes es = []" "filter is_entry_metric es = es" "\<not> is_entry_metric m \<Longrightarrow> count_list es m = 0"
    "\<not> is_entry_metric m \<Longrightarrow> m \<notin> set es"
  using assms by (induction es) (auto split: metric.splits)

lemma dispatch_accounts:
  assumes "dispatch throttle keyCount t now up line = Some (t', r, closeConn, ms)"
  shows "accounts ms"
proof -
  consider toks mid where "throttle_reply throttle t now toks = Some (t', r, mid)"
      "ms = RequestsTotal ''THROTTLE'' # mid @ [RequestDuration ''THROTTLE'']"
    | label where "ms = [RequestsTotal label, RequestDuration label]" "label \<in> command_labels" "label \<noteq> ''THROTTLE''"
  proof (cases "Fields line")
    case Nil
    with assms that(2) [of "''unknown''"] show thesis by (auto simp: dispatch_eq unknown_label)
  next
    case (Cons cmd args)
    show thesis
    proof (cases "cmd = ''THROTTLE''")
      case True
      with assms Cons that(1) show thesis by (auto simp: dispatch_eq)
    next
      case False
      with assms Cons that(2) [OF _ normalizeCommand_known [OF False]] show thesis by (auto simp: dispatch_eq Let_def)
    qed
  qed
  then show ?thesis
  proof cases
    case 1
    from throttle_reply_metrics [OF 1(1)] obtain es where es: "mid = ThrottleBatchSize (length toks) # es"
      "length es = length toks" "list_all is_entry_metric es" by blast
    note only = entry_metrics_only [OF es(3)]
    show ?thesis unfolding 1(2) es(1) using es(2) only unknown_label by (simp add: accounts_def)
  next
    case 2
    then show ?thesis by (simp add: accounts_def)
  qed
qed

lemma conn_loop_accounts:
  "conn_loop throttle keyCount maxLineSize env i t input = Some (t', out, ms) \<Longrightarrow> accounts ms"
proof (induction "length input" arbitrary: input i t t' out ms rule: less_induct)
  case less
  obtain res rest where rl: "readLine maxLineSize input = (res, rest)" by force
  show ?case
  proof (cases res)
    case (Line line)
    then have shorter: "length rest < length input" using rl readLine_shorter by metis
    note IH = less.hyps [OF shorter]
    note loop = less.prems [unfolded conn_loop.simps [of _ _ _ _ _ _ input] rl Line]
    show ?thesis
    proof (cases "all_space line")
      case True
      with loop obtain ms' where "conn_loop throttle keyCount maxLineSize env i t rest = Some (t', out, ms')"
        "ms = LineLength (length line) # ms'" by (auto split: bind_splits)
      with IH show ?thesis by simp
    next
      case False
      with loop obtain t1 r c ms1 where d: "dispatch throttle keyCount t (env_clock env i) (env_uptime env i) line
          = Some (t1, r, c, ms1)" by (auto split: bind_splits)
      from False loop d consider "ms = LineLength (length line) # ms1"
        | outs ms2 where "conn_loop throttle keyCount maxLineSize env (Suc i) t1 rest = Some (t', outs, ms2)"
            "ms = LineLength (length line) # ms1 @ ms2"
        by (auto simp: Let_def split: bind_splits if_splits)
      then show ?thesis using dispatch_accounts [OF d] IH by cases (simp_all add: accounts_append)
    qed
  qed (use less.prems rl in \<open>auto simp: conn_loop.simps\<close>)
qed

section \<open>Pipelined requests\<close>

text \<open>
  Requests pipelined on one connection are all answered, one line each and in the order they were
  sent, with nothing in between: the order the client relies on to match responses to its calls.
\<close>

lemma handleConn_pipelined:
  assumes "store_inv st" and "list_all (request_line (NewTextServer m)) lines" and "\<forall>j. env_flush env j"
  shows "\<exists>st' rs ms. dispatch_all InMemoryThrottle (Some throttler_keyCountEstimate) env 0 st lines = Some (st', rs)
    \<and> length rs = length lines
    \<and> handleConn InMemoryThrottle (Some throttler_keyCountEstimate) (NewTextServer m) env st
        (concat (map (\<lambda>l. l @ [CHR 0x0A]) lines)) = Some (st', map (\<lambda>r. r @ [CHR 0x0A]) rs, ms)"
proof -
  have "0 \<le> sint (NewTextServer m)" using NewTextServer_pos [of m] by simp
  from in_memory.conn_loop_pipeline [OF assms this, of "Some throttler_keyCountEstimate" 0]
  show ?thesis by (auto simp: handleConn_def)
qed

section \<open>The properties\<close>

text \<open>
  C18 (equivalence). For every throttler and every line, the THROTTLE handler's loops over index
  slices compute the token-wise answer: each malformed token is ERR, each well-formed one the
  throttler's response at its position among the well-formed ones, all of them ERR when the
  throttler fails or returns a slice of another length.
\<close>

theorem handleThrottle_tokenwise:
  "handleThrottle throttle t now rest = throttle_reply throttle t now (Fields rest)"
  by (rule handleThrottle_eq)

text \<open>
  C35 (invariant). What a connection counts adds up. The gauge of open connections goes up once and down
  once, however the connection ends; in between, under every label as many requests are counted as are
  timed, the labels are six fixed ones, so that a client cannot create any, and each THROTTLE request
  has its batch size observed once and counts as many entries as that says, malformed ones included.
\<close>

theorem handleConn_counts:
  assumes "handleConn throttle keyCount maxLineSize env t input = Some (t', out, ms)"
  shows "\<exists>mid. ms = ConnectionsInc # mid @ [ConnectionsDec]
    \<and> ConnectionsInc \<notin> set mid \<and> ConnectionsDec \<notin> set mid
    \<and> (\<forall>l. count_list mid (RequestsTotal l) = count_list mid (RequestDuration l))
    \<and> (\<forall>l. RequestsTotal l \<in> set mid \<longrightarrow> l \<in> command_labels)
    \<and> length (batch_sizes mid) = count_list mid (RequestsTotal ''THROTTLE'')
    \<and> length (filter is_entry_metric mid) = sum_list (batch_sizes mid)"
proof -
  obtain mid where mid: "conn_loop throttle keyCount maxLineSize env 0 t input = Some (t', out, mid)"
    "ms = ConnectionsInc # mid @ [ConnectionsDec]"
    using assms by (auto simp: handleConn_def split: bind_splits)
  with conn_loop_accounts [OF mid(1)] show ?thesis by (auto simp: accounts_def)
qed

theorem handleConn_counts_witness:
  "\<exists>mid. map_option (\<lambda>(t, out, ms). ms) (handleConn NoOpThrottle None 1000
        \<lparr>env_clock = (\<lambda>_. 0), env_uptime = (\<lambda>_. 0), env_flush = (\<lambda>_. True), env_part = (\<lambda>_. 0)\<rparr> () (''PING'' @ [CHR 0x0A]))
      = Some (ConnectionsInc # mid @ [ConnectionsDec])
    \<and> (\<forall>l. count_list mid (RequestsTotal l) = count_list mid (RequestDuration l))"
proof -
  let ?env = "\<lparr>env_clock = (\<lambda>_. 0), env_uptime = (\<lambda>_. 0), env_flush = (\<lambda>_. True), env_part = (\<lambda>_. 0)\<rparr>"
  obtain t' out ms where c: "handleConn NoOpThrottle None 1000 ?env () (''PING'' @ [CHR 0x0A]) = Some (t', out, ms)"
    using no_op.conn_loop_typed [OF TrueI, of None 1000 ?env 0 "()" "''PING'' @ [CHR 0x0A]"] by (auto simp: handleConn_def)
  from handleConn_counts [OF c] c show ?thesis by auto
qed

text \<open>
  C20 (equivalence). Reading a line through a 4096-byte buffer gives what the specification reads off
  the whole input: the bytes up to the first newline, with one trailing carriage return dropped, if
  the line with its newline is within the limit; too long otherwise; and the end of the input where no
  newline is left. No line is cut or joined at a buffer boundary. And whatever the client sends, one
  call never takes more than the limit and one buffer from the connection, so it never buffers more.
\<close>

theorem readLine_exact:
  "fst (readLine maxSize s) = line_spec maxSize s
    \<and> (case fst (readLine maxSize s) of
         Line _ \<Rightarrow> snd (readLine maxSize s) = drop (Suc (length (takeWhile (\<lambda>c. c \<noteq> CHR 0x0A) s))) s
       | _ \<Rightarrow> True)
    \<and> int (length s) - int (length (snd (readLine maxSize s))) \<le> max 0 (sint maxSize) + 4096"
proof -
  have "int (length s) - int (length (snd (readLine maxSize s))) \<le> max 0 (sint maxSize) + 4096"
    using readLine_from_bound [of "[]" maxSize s] by (simp add: readLine_def readerSize_def)
  then show ?thesis using readLine_spec [of maxSize s] by (simp split: line_result.split)
qed

text \<open>
  C25 (type). What the server writes is typed. Whatever bytes a client sends and wherever the connection
  breaks, serving it does not panic and leaves the store well formed, and everything written is a
  sequence of lines, each the text of a well-typed reply of the protocol: PONG, OK, STATS, one of four
  errors, or RESULT with, for each entry, ERR or an answer whose key is a word without a separator. Only
  the last line can be cut short, and only by a write that fails. No reply can carry a newline from a
  key and so pass for two.
\<close>

theorem handleConn_typed:
  assumes "store_inv st"
  shows "\<exists>st' out ms. handleConn InMemoryThrottle (Some throttler_keyCountEstimate) maxLineSize env st input
      = Some (st', out, ms) \<and> store_inv st'
    \<and> (\<forall>l \<in> set (if \<forall>j. env_flush env j then out else butlast out). \<exists>x. l = show_reply x @ [CHR 0x0A] \<and> typed_reply x
         \<and> show_reply x \<noteq> [] \<and> CHR 0x0A \<notin> set (show_reply x))
    \<and> (\<forall>l \<in> set out. \<exists>x n. l = take n (show_reply x @ [CHR 0x0A]) \<and> typed_reply x
         \<and> show_reply x \<noteq> [] \<and> CHR 0x0A \<notin> set (show_reply x))"
proof -
  obtain st' out ms where c: "conn_loop InMemoryThrottle (Some throttler_keyCountEstimate) maxLineSize env 0 st input
      = Some (st', out, ms)" "store_inv st'"
    and lines: "reply_lines (\<lambda>r. \<exists>x. r = show_reply x \<and> typed_reply x) env out"
    using in_memory.conn_loop_typed [OF assms, of "Some throttler_keyCountEstimate" maxLineSize env 0 input] by blast
  have "\<exists>x. l = show_reply x @ [CHR 0x0A] \<and> typed_reply x \<and> show_reply x \<noteq> [] \<and> CHR 0x0A \<notin> set (show_reply x)"
    if "l \<in> set (if \<forall>j. env_flush env j then out else butlast out)" for l
  proof -
    have "whole_line (\<lambda>r. \<exists>x. r = show_reply x \<and> typed_reply x) l"
      using lines that by (auto simp: reply_lines_def split: if_splits)
    then show ?thesis using typed_reply_line unfolding whole_line_def by blast
  qed
  moreover have "\<exists>x n. l = take n (show_reply x @ [CHR 0x0A]) \<and> typed_reply x \<and> show_reply x \<noteq> []
      \<and> CHR 0x0A \<notin> set (show_reply x)" if "l \<in> set out" for l
  proof -
    have "cut_line (\<lambda>r. \<exists>x. r = show_reply x \<and> typed_reply x) l"
      using lines that by (simp add: reply_lines_def)
    then show ?thesis using typed_reply_line unfolding cut_line_def by blast
  qed
  ultimately show ?thesis
    using c by (intro exI [of _ st'] exI [of _ out] exI [of _ "ConnectionsInc # ms @ [ConnectionsDec]"])
      (simp add: handleConn_def)
qed

theorem handleConn_typed_witness:
  "\<exists>st' out ms. handleConn InMemoryThrottle (Some throttler_keyCountEstimate) 16
      \<lparr>env_clock = (\<lambda>_. 5000), env_uptime = (\<lambda>_. 0), env_flush = (\<lambda>_. True), env_part = (\<lambda>_. 0)\<rparr> (fst (newStore 4 0))
      (''PING'' @ [CHR 0x0A] @ ''THROTTLE a|2|1|1000|1|R'' @ [CHR 0x0A]) = Some (st', out, ms)"
  using handleConn_typed [OF newStore_inv] by blast

end
