(* ===== verification/Wire.thy ===== *)
theory Wire
  imports TextServer
begin

text \<open>
  The client's half of DHP/1 (\<open>client/conn.go\<close>: \<open>validateKey\<close>, \<open>encodeThrottle\<close>, \<open>decodeResult\<close>)
  and its round trips with the server's half (\<open>parseEntry\<close>, \<open>formatResult\<close>).
\<close>

section \<open>The model\<close>

definition validateKey :: "string \<Rightarrow> go_err option" where
  "validateKey key = (if key = [] \<or> ContainsFunc IsKeyDelimiter key then Some (ErrInvalidKey key) else None)"

definition maxEncodedEntryOverhead :: nat where
  "maxEncodedEntryOverhead = 4 * (1 + 20) + 1 + 1 + 1"

text \<open>\<open>writeInt\<close> appends the decimal form to the builder, here the string so far.\<close>

definition writeInt :: "string \<Rightarrow> int64 \<Rightarrow> string" where
  "writeInt b v = b @ FormatInt v"

definition encode_entry :: "string \<Rightarrow> request_entry \<Rightarrow> string" where
  "encode_entry b e =
     (let b = b @ '' '' @ q_Key e;
          b = writeInt (b @ ''|'') (l_Capacity (q_Limit e));
          b = writeInt (b @ ''|'') (EffectiveUnits (r_Units (l_Rate (q_Limit e))));
          b = writeInt (b @ ''|'') (r_Period (l_Rate (q_Limit e)));
          b = writeInt (b @ ''|'') (EffectiveCost (q_Cost e))
      in b @ ''|'' @ (if q_Peek e then ModePeek else ModeReal))"

text \<open>The size the builder is grown to, and the line.\<close>

definition encoded_size :: "request_entry list \<Rightarrow> nat" where
  "encoded_size entries =
     fold (\<lambda>e size. size + length (q_Key e) + maxEncodedEntryOverhead) entries (length ''THROTTLE'')
     + length [CHR 0x0A]"

definition encodeThrottle :: "request_entry list \<Rightarrow> string" where
  "encodeThrottle entries =
     (if entries = [] then ''THROTTLE'' @ [CHR 0x0A]
      else fold (\<lambda>e b. encode_entry b e) entries ''THROTTLE'' @ [CHR 0x0A])"

text \<open>\<open>decodeResult\<close>; \<open>i\<close> is the position of the first remaining token.\<close>

fun decode_tokens ::
  "nat \<Rightarrow> string list \<Rightarrow> request_entry list \<Rightarrow> response_entry list \<Rightarrow> go_err + response_entry list" where
  "decode_tokens i [] entries results = Inr results"
| "decode_tokens i (tok # toks) entries results =
     (if tok = ''ERR''
      then decode_tokens (Suc i) toks entries
             (results[i := zero_response\<lparr>s_Key := q_Key (entries ! i), s_Throttled := True, s_Err := Some ErrEntryRejected\<rparr>])
      else let fields = Split (CHR ''|'') tok in
      if length fields \<noteq> 4 then Inl (MalformedResult tok)
      else if fields ! 0 \<noteq> q_Key (entries ! i) then Inl (KeyMismatch (fields ! 0) i (q_Key (entries ! i)))
      else case (ParseInt (fields ! 2), ParseInt (fields ! 3)) of
        (Some remaining, Some retryAfter) \<Rightarrow>
          if remaining <s 0 then Inl (MalformedResult tok)
          else decode_tokens (Suc i) toks entries
                 (results[i := zero_response\<lparr>s_Key := q_Key (entries ! i), s_Throttled := (fields ! 1 = ''1''),
                               s_Remaining := remaining, s_RetryAfter := retryAfter\<rparr>])
      | _ \<Rightarrow> Inl (MalformedResult tok))"

definition decodeResult :: "string \<Rightarrow> request_entry list \<Rightarrow> go_err + response_entry list" where
  "decodeResult line entries =
     (let line = TrimRight line {CHR 0x0D, CHR 0x0A};
          tokens = Fields line
      in if tokens = [] \<or> hd tokens \<noteq> ''RESULT'' then Inl (UnexpectedResponse line)
         else let resultTokens = tl tokens in
         if length resultTokens \<noteq> length entries
         then Inl (EntryCountMismatch (length resultTokens) (length entries) line)
         else decode_tokens 0 resultTokens entries (replicate (length entries) zero_response))"

section \<open>Keys\<close>

lemma validateKey_None:
  "validateKey key = None \<longleftrightarrow> key \<noteq> [] \<and> \<not> ContainsFunc IsKeyDelimiter key"
  by (simp add: validateKey_def)

lemma valid_key_word: "validateKey key = None \<Longrightarrow> word_str key \<and> CHR ''|'' \<notin> set key"
  using no_delimiter_word by (simp add: validateKey_None)

section \<open>Requests: encode, tokenise, parse\<close>

text \<open>What the server makes of an entry the client sends: the defaults filled in.\<close>

definition normalise :: "request_entry \<Rightarrow> request_entry" where
  "normalise e = e\<lparr>q_Limit := (q_Limit e)\<lparr>l_Rate := (l_Rate (q_Limit e))\<lparr>
      r_Units := EffectiveUnits (r_Units (l_Rate (q_Limit e)))\<rparr>\<rparr>, q_Cost := EffectiveCost (q_Cost e)\<rparr>"

text \<open>The token of an entry on the wire, its fields joined by bars.\<close>

definition entry_token :: "request_entry \<Rightarrow> string" where
  "entry_token e = Join ''|'' [q_Key e, FormatInt (l_Capacity (q_Limit e)),
     FormatInt (EffectiveUnits (r_Units (l_Rate (q_Limit e)))), FormatInt (r_Period (l_Rate (q_Limit e))),
     FormatInt (EffectiveCost (q_Cost e)), if q_Peek e then ModePeek else ModeReal]"

lemma encode_entry_eq: "encode_entry b e = b @ '' '' @ entry_token e"
  by (simp add: encode_entry_def entry_token_def writeInt_def Let_def)

lemma encodeThrottle_eq:
  "encodeThrottle entries = Join '' '' (''THROTTLE'' # map entry_token entries) @ [CHR 0x0A]"
proof -
  have "fold (\<lambda>e b. encode_entry b e) es b = b @ concat (map (\<lambda>t. CHR '' '' # t) (map entry_token es))" for es b
    by (induction es arbitrary: b) (simp_all add: encode_entry_eq)
  moreover have "Join '' '' (t # ts) = t @ concat (map (\<lambda>t. CHR '' '' # t) ts)" for t ts
    by (induction ts arbitrary: t) simp_all
  ultimately show ?thesis by (simp add: encodeThrottle_def)
qed

lemma Split_Join:
  "ts \<noteq> [] \<Longrightarrow> list_all (\<lambda>t. c \<notin> set t) ts \<Longrightarrow> Split c (Join [c] ts) = ts"
  by (induction "[c]" ts rule: Join.induct) (simp_all add: Split_no_sep Split_append)

lemma mode_no_pipe: "CHR ''|'' \<notin> set (if p then ModePeek else ModeReal)"
  by (simp add: ModePeek_def ModeReal_def)

lemma parse_entry_token:
  assumes "validateKey (q_Key e) = None"
  shows "parseEntry (entry_token e) =
    (if l_Capacity (q_Limit e) <s 0 \<or> r_Period (l_Rate (q_Limit e)) <s 0 then None else Some (normalise e))"
proof -
  have key: "q_Key e \<noteq> []" "CHR ''|'' \<notin> set (q_Key e)"
    using assms valid_key_word [OF assms] by (auto simp: validateKey_None)
  have "Split (CHR ''|'') (entry_token e) = [q_Key e, FormatInt (l_Capacity (q_Limit e)),
     FormatInt (EffectiveUnits (r_Units (l_Rate (q_Limit e)))), FormatInt (r_Period (l_Rate (q_Limit e))),
     FormatInt (EffectiveCost (q_Cost e)), if q_Peek e then ModePeek else ModeReal]"
    unfolding entry_token_def
    by (rule Split_Join) (simp_all add: key(2) mode_no_pipe del: Join.simps)
  moreover have "\<not> EffectiveUnits u <s 0" "\<not> EffectiveCost c <s 0" for u c
    using EffectiveUnits_pos [of u] EffectiveCost_pos [of c] by (simp_all add: int64_simps del: EffectiveUnits_pos EffectiveCost_pos)
  ultimately show ?thesis
    using key(1) by (simp add: parseEntry_def normalise_def ModePeek_def ModeReal_def)
qed

lemma entry_token_word:
  assumes "validateKey (q_Key e) = None"
  shows "word_str (entry_token e)"
proof -
  have plain: "list_all (\<lambda>c. is_ascii c \<and> \<not> IsSpace (of_char c)) (fmt_int v)" for v
    by (rule list.pred_mono_strong [OF fmt_int_plain]) (simp add: plain_char_def)
  have "entry_token e = q_Key e @ (''|'' @ FormatInt (l_Capacity (q_Limit e)) @ ''|''
      @ FormatInt (EffectiveUnits (r_Units (l_Rate (q_Limit e)))) @ ''|''
      @ FormatInt (r_Period (l_Rate (q_Limit e))) @ ''|'' @ FormatInt (EffectiveCost (q_Cost e))
      @ ''|'' @ (if q_Peek e then ModePeek else ModeReal))"
    by (simp add: entry_token_def)
  also have "word_str \<dots>"
    using valid_key_word [OF assms] plain
    by (intro word_str_append_ascii) (simp_all add: IsSpace_def ModePeek_def ModeReal_def)
  finally show ?thesis .
qed

lemma THROTTLE_word: "word_str ''THROTTLE''"
  by (simp add: word_str_def IsSpace_def)

lemma Fields_encodeThrottle:
  assumes "list_all (\<lambda>e. validateKey (q_Key e) = None) entries"
  shows "Fields (butlast (encodeThrottle entries)) = ''THROTTLE'' # map entry_token entries"
  using assms unfolding encodeThrottle_eq
  by (simp add: Fields_Join THROTTLE_word list_all_iff entry_token_word del: Join.simps)

text \<open>The builder is grown once: the estimate covers the line.\<close>

lemma entry_token_length: "length (entry_token e) + 1 \<le> length (q_Key e) + maxEncodedEntryOverhead"
proof -
  have "length (FormatInt (l_Capacity (q_Limit e))) \<le> 20"
    "length (FormatInt (EffectiveUnits (r_Units (l_Rate (q_Limit e))))) \<le> 20"
    "length (FormatInt (r_Period (l_Rate (q_Limit e)))) \<le> 20"
    "length (FormatInt (EffectiveCost (q_Cost e))) \<le> 20"
    by (rule FormatInt_length)+
  then show ?thesis
    by (simp add: entry_token_def maxEncodedEntryOverhead_def ModePeek_def ModeReal_def)
qed

lemma encodeThrottle_length: "length (encodeThrottle entries) \<le> encoded_size entries"
proof -
  have "length (fold (\<lambda>e b. encode_entry b e) es b)
      \<le> fold (\<lambda>e size. size + length (q_Key e) + maxEncodedEntryOverhead) es n"
    if "length b \<le> n" for es b n
    using that
  proof (induction es arbitrary: b n)
    case (Cons e es)
    have "length (encode_entry b e) \<le> n + length (q_Key e) + maxEncodedEntryOverhead"
      using Cons.prems entry_token_length [of e] by (simp add: encode_entry_eq)
    from Cons.IH [OF this] show ?case by simp
  qed simp
  from this [of "''THROTTLE''" _ entries] show ?thesis
    by (simp add: encodeThrottle_def encoded_size_def)
qed

section \<open>Responses: format, tokenise, decode\<close>

text \<open>What the client makes of a response to one of its entries.\<close>

definition client_view :: "request_entry \<Rightarrow> response_entry \<Rightarrow> response_entry" where
  "client_view e r =
     (if s_Err r \<noteq> None
      then zero_response\<lparr>s_Key := q_Key e, s_Throttled := True, s_Err := Some ErrEntryRejected\<rparr>
      else zero_response\<lparr>s_Key := q_Key e, s_Throttled := s_Throttled r, s_Remaining := s_Remaining r,
             s_RetryAfter := s_RetryAfter r\<rparr>)"

definition decodable :: "request_entry \<Rightarrow> response_entry \<Rightarrow> bool" where
  "decodable e r \<longleftrightarrow> s_Key r = q_Key e \<and> CHR ''|'' \<notin> set (q_Key e) \<and> 0 \<le> sint (s_Remaining r)"

lemma formatResult_fields:
  assumes "s_Err r = None" "CHR ''|'' \<notin> set (s_Key r)"
  shows "formatResult r \<noteq> ''ERR''"
    and "Split (CHR ''|'') (formatResult r) = [s_Key r, if s_Throttled r then ''1'' else ''0'',
      FormatInt (s_Remaining r), FormatInt (s_RetryAfter r)]"
proof -
  have eq: "formatResult r = Join ''|'' [s_Key r, if s_Throttled r then ''1'' else ''0'',
      FormatInt (s_Remaining r), FormatInt (s_RetryAfter r)]"
    using assms(1) by (simp add: formatResult_def)
  show "Split (CHR ''|'') (formatResult r) = [s_Key r, if s_Throttled r then ''1'' else ''0'',
      FormatInt (s_Remaining r), FormatInt (s_RetryAfter r)]"
    unfolding eq by (rule Split_Join) (simp_all add: assms(2) del: Join.simps)
  then show "formatResult r \<noteq> ''ERR''" by auto
qed

lemma decode_one:
  assumes "decodable e r" "entries ! i = e"
  shows "decode_tokens i (formatResult r # toks) entries results
    = decode_tokens (Suc i) toks entries (results[i := client_view e r])"
proof (cases "s_Err r = None")
  case True
  with assms formatResult_fields [of r] show ?thesis
    by (simp add: decodable_def client_view_def int64_simps)
next
  case False
  with assms show ?thesis by (simp add: formatResult_def client_view_def)
qed

lemma decode_tokens_format:
  assumes "list_all2 decodable entries rs" "length out = length pre"
  shows "decode_tokens (length pre) (map formatResult rs) (pre @ entries)
      (out @ replicate (length entries) zero_response) = Inr (out @ map2 client_view entries rs)"
  using assms
proof (induction entries rs arbitrary: pre out rule: list_all2_induct)
  case (Cons e entries r rs)
  from Cons.IH [of "out @ [client_view e r]" "pre @ [e]"] Cons.hyps(1) Cons.prems show ?case
    by (simp add: decode_one list_update_append del: decode_tokens.simps(2))
qed simp

text \<open>A reply line of formatted results decodes to the client's view of them.\<close>

lemma decodeResult_result_line:
  assumes "list_all2 decodable entries rs" "list_all (\<lambda>e. word_str (q_Key e)) entries"
  shows "decodeResult (result_line (map formatResult rs) @ [CHR 0x0A]) entries
    = Inr (map2 client_view entries rs)"
proof -
  have "list_all word_str (map formatResult rs)"
    using assms by (auto simp: list_all_length list_all2_conv_all_nth decodable_def intro!: formatResult_word)
  note w = this
  have "\<forall>c \<in> set (result_line (map formatResult rs)). c \<notin> {CHR 0x0D, CHR 0x0A}"
    using result_line_no_space [OF w, of "CHR 0x0D"] result_line_no_space [OF w, of "CHR 0x0A"]
    by (auto simp: IsSpace_def)
  then have "TrimRight (result_line (map formatResult rs) @ [CHR 0x0A]) {CHR 0x0D, CHR 0x0A}
      = result_line (map formatResult rs)"
    by (intro TrimRight_one) auto
  moreover have "length rs = length entries" using assms(1) by (simp add: list_all2_lengthD)
  ultimately show ?thesis
    using decode_tokens_format [OF assms(1), of "[]" "[]"]
    by (simp add: decodeResult_def Fields_result_line [OF w])
qed

end
