(* ===== verification/WireProps.thy ===== *)
theory WireProps
  imports Wire
begin

text \<open>
  The properties of the wire format: what the client encodes is what the server parses, what the
  server formats is what the client decodes, and a response, from whatever server, is accepted only in
  the shape its request calls for.
\<close>

section \<open>Accepted responses\<close>

text \<open>What a token of a response says of the entry in its place, if it is one the client takes.\<close>

definition read_token :: "request_entry \<Rightarrow> string \<Rightarrow> response_entry option" where
  "read_token e tok =
     (if tok = ''ERR'' then Some (zero_response\<lparr>s_Key := q_Key e, s_Throttled := True, s_Err := Some ErrEntryRejected\<rparr>)
      else case Split (CHR ''|'') tok of
        [key, flag, remaining, retryAfter] \<Rightarrow>
          (case (ParseInt remaining, ParseInt retryAfter) of
             (Some n, Some r) \<Rightarrow>
               if key = q_Key e \<and> 0 \<le> sint n
               then Some (zero_response\<lparr>s_Key := q_Key e, s_Throttled := (flag = ''1''), s_Remaining := n, s_RetryAfter := r\<rparr>)
               else None
           | _ \<Rightarrow> None)
      | _ \<Rightarrow> None)"

lemma length4: "length xs = 4 \<longleftrightarrow> (\<exists>a b c d. xs = [a, b, c, d])"
  by (auto simp: length_Suc_conv eval_nat_numeral)

lemma decode_tokens_step:
  "read_token (entries ! i) tok = Some r \<Longrightarrow>
    decode_tokens i (tok # toks) entries results = decode_tokens (Suc i) toks entries (results[i := r])"
  "read_token (entries ! i) tok = None \<Longrightarrow> \<exists>err. decode_tokens i (tok # toks) entries results = Inl err"
  by (auto simp: read_token_def Let_def int64_simps length4 split: if_splits option.splits list.splits)

lemma decode_tokens_read:
  assumes "length toks = length es" "length out = length pre"
  shows "decode_tokens (length pre) toks (pre @ es) (out @ replicate (length es) zero_response) = Inr rs
    \<longleftrightarrow> (\<exists>new. rs = out @ new \<and> map2 read_token es toks = map Some new)"
  using assms
proof (induction toks es arbitrary: pre out rule: list_induct2)
  case (Cons tok toks e es)
  show ?case
  proof (cases "read_token e tok")
    case None
    obtain err where "decode_tokens (length pre) (tok # toks) (pre @ e # es)
        (out @ replicate (length (e # es)) zero_response) = Inl err"
      using decode_tokens_step(2) [of "pre @ e # es" "length pre" tok toks] None by (metis nth_append_length)
    with None show ?thesis by (auto simp: Cons_eq_map_conv simp del: decode_tokens.simps)
  next
    case (Some r)
    have "decode_tokens (length pre) (tok # toks) (pre @ e # es) (out @ zero_response # replicate (length es) zero_response)
        = decode_tokens (length (pre @ [e])) toks ((pre @ [e]) @ es) ((out @ [r]) @ replicate (length es) zero_response)"
      using decode_tokens_step(1) [of "pre @ e # es" "length pre" tok r] Some Cons.prems
      by (simp add: list_update_append del: decode_tokens.simps)
    with Cons.IH [of "out @ [r]" "pre @ [e]"] Cons.prems Some show ?thesis
      by (auto simp: Cons_eq_map_conv simp del: decode_tokens.simps)
  qed
qed auto

lemma decodeResult_read:
  "decodeResult line entries = Inr rs \<longleftrightarrow>
    (\<exists>toks. Fields (TrimRight line {CHR 0x0D, CHR 0x0A}) = ''RESULT'' # toks \<and> length toks = length entries
      \<and> map2 read_token entries toks = map Some rs)"
proof -
  let ?f = "Fields (TrimRight line {CHR 0x0D, CHR 0x0A})"
  show ?thesis
  proof (cases "\<exists>toks. ?f = ''RESULT'' # toks \<and> length toks = length entries")
    case True
    then obtain toks where "?f = ''RESULT'' # toks" "length toks = length entries" by blast
    with decode_tokens_read [of toks entries "[]" "[]" rs] show ?thesis by (simp add: decodeResult_def Let_def)
  next
    case False
    then show ?thesis by (cases ?f) (auto simp: decodeResult_def Let_def)
  qed
qed

lemma read_token_key: "read_token e tok = Some r \<Longrightarrow> s_Key r = q_Key e"
  by (auto simp: read_token_def split: if_splits option.splits list.splits)

lemma decodeResult_keys:
  assumes "decodeResult line es = Inr rs"
  shows "map s_Key rs = map q_Key es"
proof -
  obtain toks where "length es = length toks" "map2 read_token es toks = map Some rs"
    using assms unfolding decodeResult_read by metis
  then show ?thesis
    by (induction es toks arbitrary: rs rule: list_induct2) (auto simp: Cons_eq_map_conv read_token_key)
qed

section \<open>The properties\<close>

text \<open>
  C19 (roundtrip). What either side writes the other reads back. The line the client sends for entries
  with valid keys tokenises, on the server, to THROTTLE and one token per entry, and each parses back
  to the entry with the defaults for units and cost filled in; an entry with a negative capacity or
  period is the one thing the server rejects. The line the server formats from responses to the
  entries decodes, on the client, to the same responses: key, decision, headroom and retry time, an
  errored one as a rejected entry. And of any line whatever, from whatever server, the client makes
  exactly this: it decodes if and only if it is RESULT with one token for each entry, each of them ERR
  or four fields with the entry's own key first and two 64-bit numbers last, the headroom not negative;
  the responses are then what these tokens say (\<open>read_token\<close>), in the order of the entries. (This is
  more than a server writes: a decision other than 1 counts as 0, and numbers may have a plus sign or
  leading zeros.)
\<close>

theorem wire_roundtrip:
  assumes "list_all (\<lambda>e. validateKey (q_Key e) = None) entries" "list_all2 decodable entries rs"
  shows "(\<exists>toks. Fields (butlast (encodeThrottle entries)) = ''THROTTLE'' # toks
      \<and> map parseEntry toks = map (\<lambda>e. if l_Capacity (q_Limit e) <s 0 \<or> r_Period (l_Rate (q_Limit e)) <s 0
          then None else Some (normalise e)) entries)
    \<and> decodeResult (result_line (map formatResult rs) @ [CHR 0x0A]) entries = Inr (map2 client_view entries rs)
    \<and> (decodeResult line entries = Inr rs' \<longleftrightarrow>
        (\<exists>toks. Fields (TrimRight line {CHR 0x0D, CHR 0x0A}) = ''RESULT'' # toks \<and> length toks = length entries
          \<and> map2 read_token entries toks = map Some rs'))"
proof (intro conjI)
  show "\<exists>toks. Fields (butlast (encodeThrottle entries)) = ''THROTTLE'' # toks
      \<and> map parseEntry toks = map (\<lambda>e. if l_Capacity (q_Limit e) <s 0 \<or> r_Period (l_Rate (q_Limit e)) <s 0
          then None else Some (normalise e)) entries"
    using assms(1) by (simp add: Fields_encodeThrottle list_all_iff parse_entry_token)
  have "list_all (\<lambda>e. word_str (q_Key e)) entries"
    using assms(1) valid_key_word by (auto simp: list_all_iff)
  then show "decodeResult (result_line (map formatResult rs) @ [CHR 0x0A]) entries = Inr (map2 client_view entries rs)"
    by (rule decodeResult_result_line [OF assms(2)])
  show "decodeResult line entries = Inr rs' \<longleftrightarrow>
      (\<exists>toks. Fields (TrimRight line {CHR 0x0D, CHR 0x0A}) = ''RESULT'' # toks \<and> length toks = length entries
        \<and> map2 read_token entries toks = map Some rs')"
    by (rule decodeResult_read)
qed

theorem wire_roundtrip_witness:
  "(\<exists>toks. Fields (butlast (encodeThrottle
       [\<lparr>q_Key = ''a:b'', q_Limit = \<lparr>l_Capacity = 20, l_Rate = \<lparr>r_Units = 0, r_Period = 1000\<rparr>\<rparr>, q_Cost = 0, q_Peek = True\<rparr>]))
     = ''THROTTLE'' # toks
   \<and> map parseEntry toks =
       [Some \<lparr>q_Key = ''a:b'', q_Limit = \<lparr>l_Capacity = 20, l_Rate = \<lparr>r_Units = 1, r_Period = 1000\<rparr>\<rparr>, q_Cost = 1, q_Peek = True\<rparr>])
   \<and> decodeResult (result_line (map formatResult
       [\<lparr>s_Key = ''a:b'', s_Throttled = True, s_Remaining = 3, s_RetryAfter = 77, s_Err = None\<rparr>]) @ [CHR 0x0A])
     [\<lparr>q_Key = ''a:b'', q_Limit = \<lparr>l_Capacity = 20, l_Rate = \<lparr>r_Units = 0, r_Period = 1000\<rparr>\<rparr>, q_Cost = 0, q_Peek = True\<rparr>]
   = Inr [\<lparr>s_Key = ''a:b'', s_Throttled = True, s_Remaining = 3, s_RetryAfter = 77, s_Err = None\<rparr>]"
proof -
  let ?e = "\<lparr>q_Key = ''a:b'', q_Limit = \<lparr>l_Capacity = 20, l_Rate = \<lparr>r_Units = 0, r_Period = 1000\<rparr>\<rparr>, q_Cost = 0, q_Peek = True\<rparr>"
  let ?r = "\<lparr>s_Key = ''a:b'', s_Throttled = True, s_Remaining = 3, s_RetryAfter = 77, s_Err = None\<rparr>"
  have "validateKey ''a:b'' = None" by code_simp
  then have k: "list_all (\<lambda>e. validateKey (q_Key e) = None) [?e]" by simp
  have d: "list_all2 decodable [?e] [?r]" by (simp add: decodable_def)
  from wire_roundtrip [OF k d] show ?thesis
    by (simp add: normalise_def EffectiveUnits_def EffectiveCost_def int64_simps client_view_def zero_response_def)
qed

end
