(* ===== verification/Breaker.thy ===== *)
theory Breaker
  imports Types
begin

text \<open>
  \<open>client/breaker.go\<close>: the per-shard circuit breaker. The atomics are the fields of a record; one
  operation runs in one piece here, and \<open>BreakerSteps\<close> takes it apart. \<open>now\<close> is the
  clock in nanoseconds. The abstract machine \<open>cb_state\<close> is the one its comment describes: closed
  with a failure count, open since a time, half-open with a trial in flight.
\<close>

section \<open>The model\<close>

record circuit_breaker =
  failureThreshold :: int64
  openDuration :: int64
  cb_open :: bool
  consecutiveFailures :: int64
  openedAtNano :: int64
  trialInFlight :: bool

definition defaultBreakerFailureThreshold :: int64 where "defaultBreakerFailureThreshold = 5"
definition defaultBreakerOpenDuration :: int64 where "defaultBreakerOpenDuration = 1 * 1000000000"

definition newCircuitBreaker :: "int64 \<Rightarrow> int64 \<Rightarrow> circuit_breaker" where
  "newCircuitBreaker threshold duration =
     \<lparr>failureThreshold = threshold, openDuration = duration, cb_open = False,
      consecutiveFailures = 0, openedAtNano = 0, trialInFlight = False\<rparr>"

text \<open>\<open>time.Since(time.Unix(0, t))\<close>: a difference of wall clocks, which saturates.\<close>

definition time_since :: "int64 \<Rightarrow> int64 \<Rightarrow> int64" where
  "time_since t now = word_of_int (max (- (2 ^ 63)) (min (2 ^ 63 - 1) (sint now - sint t)))"

definition allow :: "int64 \<Rightarrow> circuit_breaker \<Rightarrow> bool \<times> circuit_breaker" where
  "allow now b =
     (if failureThreshold b <=s 0 \<or> \<not> cb_open b then (True, b)
      else if time_since (openedAtNano b) now <s openDuration b then (False, b)
      else if trialInFlight b then (False, b)
      else (True, b\<lparr>trialInFlight := True\<rparr>))"

definition recordSuccess :: "circuit_breaker \<Rightarrow> circuit_breaker" where
  "recordSuccess b =
     (let b = b\<lparr>consecutiveFailures := 0\<rparr> in
      if cb_open b then b\<lparr>cb_open := False, trialInFlight := False\<rparr> else b)"

definition recordFailure :: "int64 \<Rightarrow> circuit_breaker \<Rightarrow> circuit_breaker" where
  "recordFailure now b =
     (if failureThreshold b <=s 0 then b
      else if trialInFlight b then b\<lparr>openedAtNano := now, trialInFlight := False\<rparr>
      else let b = b\<lparr>consecutiveFailures := consecutiveFailures b + 1\<rparr> in
        if failureThreshold b <=s consecutiveFailures b then b\<lparr>openedAtNano := now, cb_open := True\<rparr>
        else b)"

section \<open>The abstract machine\<close>

datatype cb_state = Closed int | Open int | HalfOpen int

definition cb_abs :: "circuit_breaker \<Rightarrow> cb_state" where
  "cb_abs b =
     (if \<not> cb_open b then Closed (sint (consecutiveFailures b))
      else if trialInFlight b then HalfOpen (sint (openedAtNano b))
      else Open (sint (openedAtNano b)))"

fun spec_allow :: "int \<Rightarrow> int \<Rightarrow> cb_state \<Rightarrow> bool \<times> cb_state" where
  "spec_allow cooldown now (Closed n) = (True, Closed n)"
| "spec_allow cooldown now (Open t) = (if now - t < cooldown then (False, Open t) else (True, HalfOpen t))"
| "spec_allow cooldown now (HalfOpen t) = (False, HalfOpen t)"

fun spec_failure :: "int \<Rightarrow> int \<Rightarrow> cb_state \<Rightarrow> cb_state" where
  "spec_failure threshold now (Closed n) = (if threshold \<le> n + 1 then Open now else Closed (n + 1))"
| "spec_failure threshold now (Open t) = Open now"
| "spec_failure threshold now (HalfOpen t) = Open now"

text \<open>
  The invariant: a trial is in flight only while the breaker is open, an open one has reached its
  threshold, and the count has not wrapped (it takes \<open>2^63\<close> failures in a row to).
\<close>

definition breaker_inv :: "circuit_breaker \<Rightarrow> bool" where
  "breaker_inv b \<longleftrightarrow>
     (trialInFlight b \<longrightarrow> cb_open b) \<and> 0 \<le> sint (consecutiveFailures b)
   \<and> (cb_open b \<longrightarrow> failureThreshold b <=s consecutiveFailures b)"

datatype breaker_event = Allow int64 | Success | Failure int64

fun breaker_step :: "breaker_event \<Rightarrow> circuit_breaker \<Rightarrow> circuit_breaker" where
  "breaker_step (Allow now) b = snd (allow now b)"
| "breaker_step Success b = recordSuccess b"
| "breaker_step (Failure now) b = recordFailure now b"

lemma new_breaker_inv: "breaker_inv (newCircuitBreaker threshold duration)"
  by (simp add: breaker_inv_def newCircuitBreaker_def)

lemma breaker_step_config [simp]:
  "failureThreshold (breaker_step e b) = failureThreshold b"
  "openDuration (breaker_step e b) = openDuration b"
  by (cases e; simp add: allow_def recordSuccess_def recordFailure_def Let_def)+

lemma sint_incr: "sint (c :: int64) < 2 ^ 63 - 1 \<Longrightarrow> sint (c + 1) = sint c + 1"
  using sint_bounds [of c] by (subst sint_add64) (simp_all add: fits64_def)

lemma breaker_step_inv:
  assumes "breaker_inv b" "sint (consecutiveFailures b) < 2 ^ 63 - 1"
  shows "breaker_inv (breaker_step e b)"
  using assms sint_incr [of "consecutiveFailures b"]
  by (cases e) (auto simp: breaker_inv_def allow_def recordSuccess_def recordFailure_def Let_def int64_simps)

lemma sint_time_since:
  "sint (time_since t now) = max (- (2 ^ 63)) (min (2 ^ 63 - 1) (sint now - sint t))"
  unfolding time_since_def by (rule sint_word_of_int64) (simp add: fits64_def)

lemma time_since_less:
  assumes "0 \<le> sint t" "0 \<le> sint now"
  shows "time_since t now <s d \<longleftrightarrow> sint now - sint t < sint d"
  using assms sint_bounds [of t] sint_bounds [of now] by (simp add: sless_sint sint_time_since)

lemma allow_refines:
  assumes "0 < sint (failureThreshold b)" "0 \<le> sint (openedAtNano b)" "0 \<le> sint now"
  shows "(fst (allow now b), cb_abs (snd (allow now b)))
    = spec_allow (sint (openDuration b)) (sint now) (cb_abs b)"
  using assms
  by (auto simp: allow_def cb_abs_def time_since_less sle_sint)

lemma recordSuccess_refines: "breaker_inv b \<Longrightarrow> cb_abs (recordSuccess b) = Closed 0"
  by (auto simp: recordSuccess_def cb_abs_def breaker_inv_def Let_def)

lemma recordFailure_refines:
  assumes "breaker_inv b" "0 < sint (failureThreshold b)" "sint (consecutiveFailures b) < 2 ^ 63 - 1"
  shows "cb_abs (recordFailure now b) = spec_failure (sint (failureThreshold b)) (sint now) (cb_abs b)"
  using assms sint_incr [OF assms(3)]
  by (auto simp: recordFailure_def cb_abs_def breaker_inv_def Let_def sle_sint)

end
