(* ===== verification/ShardConn.thy ===== *)
theory ShardConn
  imports WireProps Breaker
begin

text \<open>
  \<open>client/conn.go\<close>, one call: \<open>shardConn.throttle\<close> and \<open>exchange\<close>. What the network does to the
  call is an argument: whether its submission fails, and what the wait for its response ends with -
  a line of the server, which the reader loop decodes for it, a failed connection, or the end of the
  call's own context. \<open>None\<close> is a panic. The result carries the breaker, the response slice and the
  errors that are joined (none of them: a nil error).
\<close>

section \<open>The model\<close>

text \<open>
  The deadline of a call: the client's timeout, unless the caller's own deadline is at least as
  tight, in which case the caller's context itself is waited on (no second timer). A \<open>time.Time\<close> reaches
  further than 64 bits of nanoseconds: instants are integers here.
\<close>

definition wait_deadline :: "int \<Rightarrow> int64 \<Rightarrow> int option \<Rightarrow> int \<times> bool" where
  "wait_deadline now timeout ctxDeadline =
     (let deadline = now + sint timeout in
      case ctxDeadline of
        None \<Rightarrow> (deadline, True)
      | Some d \<Rightarrow> if deadline < d then (deadline, True) else (d, False))"

datatype wait_outcome = ResponseLine string | ConnFailed go_err | WaitDone ctx_err

record exchange_env =
  x_submit :: "go_err option"
  x_wait :: wait_outcome
  x_ctxErr :: "ctx_err option"

fun fill_valid :: "nat \<Rightarrow> nat list \<Rightarrow> response_entry list \<Rightarrow> response_entry list \<Rightarrow> response_entry list option" where
  "fill_valid j [] answers results = Some results"
| "fill_valid j (idx # idxs) answers results =
     (if j < length answers then fill_valid (Suc j) idxs answers (results[idx := answers ! j]) else None)"

text \<open>\<open>exchange\<close>: (shardFault, err, results).\<close>

definition exchange ::
  "exchange_env \<Rightarrow> request_entry list \<Rightarrow> response_entry list \<Rightarrow> nat list
    \<Rightarrow> (bool \<times> go_err option \<times> response_entry list) option" where
  "exchange env validEntries results validIdx =
     (case x_submit env of
        Some err \<Rightarrow> Some (x_ctxErr env = None, Some err, results)
      | None \<Rightarrow>
          (case x_wait env of
             ResponseLine line \<Rightarrow>
               (case decodeResult line validEntries of
                  Inl err \<Rightarrow> Some (True, Some err, results)
                | Inr answers \<Rightarrow> do {
                    results \<leftarrow> fill_valid 0 validIdx answers results;
                    Some (False, None, results)
                  })
           | ConnFailed err \<Rightarrow> Some (True, Some err, results)
           | WaitDone e \<Rightarrow> Some (x_ctxErr env = None, Some (ContextErr e), results)))"

fun validate_loop ::
  "nat \<Rightarrow> request_entry list \<Rightarrow> response_entry list \<Rightarrow> request_entry list \<Rightarrow> nat list \<Rightarrow> go_err list
    \<Rightarrow> response_entry list \<times> request_entry list \<times> nat list \<times> go_err list" where
  "validate_loop i [] results validEntries validIdx errs = (results, validEntries, validIdx, errs)"
| "validate_loop i (e # es) results validEntries validIdx errs =
     (case validateKey (q_Key e) of
        Some err \<Rightarrow>
          validate_loop (Suc i) es
            (results[i := zero_response\<lparr>s_Key := q_Key e, s_Throttled := True, s_Err := Some err\<rparr>])
            validEntries validIdx (errs @ [err])
      | None \<Rightarrow> validate_loop (Suc i) es results (validEntries @ [e]) (validIdx @ [i]) errs)"

fun fill_failed ::
  "nat list \<Rightarrow> request_entry list \<Rightarrow> bool \<Rightarrow> go_err \<Rightarrow> response_entry list \<Rightarrow> response_entry list" where
  "fill_failed [] entries failOpen err results = results"
| "fill_failed (idx # idxs) entries failOpen err results =
     fill_failed idxs entries failOpen err
       (results[idx := zero_response\<lparr>s_Key := q_Key (entries ! idx), s_Throttled := \<not> failOpen, s_Err := Some err\<rparr>])"

text \<open>
  \<open>throttle\<close>; \<open>now\<close> is the clock the breaker's \<open>allow\<close> reads, \<open>later\<close> the one \<open>recordFailure\<close>
  reads.
\<close>

definition shard_throttle ::
  "string \<Rightarrow> bool \<Rightarrow> int64 \<Rightarrow> int64 \<Rightarrow> exchange_env \<Rightarrow> circuit_breaker \<Rightarrow> request_entry list
    \<Rightarrow> (circuit_breaker \<times> response_entry list \<times> go_err list) option" where
  "shard_throttle addr failOpen now later env b entries =
     (let (results, validEntries, validIdx, errs) =
            validate_loop 0 entries (replicate (length entries) zero_response) [] [] [] in
      if validEntries = [] then Some (b, results, errs)
      else let (allowed, b) = allow now b in
      if \<not> allowed
      then let err = ErrCircuitOpen addr in
           Some (b, fill_failed validIdx entries failOpen err results, errs @ [err])
      else do {
        (shardFault, err, results) \<leftarrow> exchange env validEntries results validIdx;
        let b = (if err \<noteq> None \<and> shardFault then recordFailure later b
                 else if err = None then recordSuccess b
                 else b) in
        case err of
          Some e \<Rightarrow> Some (b, fill_failed validIdx entries failOpen e results, errs @ [e])
        | None \<Rightarrow> Some (b, results, errs)
      })"

section \<open>The slices of a call\<close>

definition valid_entries :: "request_entry list \<Rightarrow> request_entry list" where
  "valid_entries es = filter (\<lambda>e. validateKey (q_Key e) = None) es"

definition invalid_errs :: "request_entry list \<Rightarrow> go_err list" where
  "invalid_errs es = List.map_filter (\<lambda>e. validateKey (q_Key e)) es"

definition failed_response :: "bool \<Rightarrow> go_err \<Rightarrow> request_entry \<Rightarrow> response_entry" where
  "failed_response failOpen err e = zero_response\<lparr>s_Key := q_Key e, s_Throttled := \<not> failOpen, s_Err := Some err\<rparr>"

definition invalid_response :: "request_entry \<Rightarrow> response_entry" where
  "invalid_response e = zero_response\<lparr>s_Key := q_Key e, s_Throttled := True, s_Err := validateKey (q_Key e)\<rparr>"

text \<open>The answers to the valid entries in the places of those, invalid entries marked as such.\<close>

fun merge_answers :: "request_entry list \<Rightarrow> response_entry list \<Rightarrow> response_entry list" where
  "merge_answers [] answers = []"
| "merge_answers (e # es) answers =
     (if validateKey (q_Key e) = None then hd answers # merge_answers es (tl answers)
      else invalid_response e # merge_answers es answers)"

fun valid_indices :: "nat \<Rightarrow> request_entry list \<Rightarrow> nat list" where
  "valid_indices i [] = []"
| "valid_indices i (e # es) = (if validateKey (q_Key e) = None then [i] else []) @ valid_indices (Suc i) es"

lemma valid_entries_simps [simp]:
  "valid_entries [] = []"
  "valid_entries (e # es) = (if validateKey (q_Key e) = None then [e] else []) @ valid_entries es"
  by (simp_all add: valid_entries_def)

lemma invalid_errs_simps [simp]:
  "invalid_errs [] = []"
  "invalid_errs (e # es) = (case validateKey (q_Key e) of None \<Rightarrow> [] | Some err \<Rightarrow> [err]) @ invalid_errs es"
  by (simp_all add: invalid_errs_def List.map_filter_simps split: option.split)

text \<open>The slice after validation: a zero entry stands where an answer is still to come.\<close>

definition pending_slice :: "request_entry list \<Rightarrow> response_entry list" where
  "pending_slice es = map (\<lambda>e. if validateKey (q_Key e) = None then zero_response else invalid_response e) es"

lemma validate_loop_eq:
  "validate_loop (length out) es (out @ replicate (length es) zero_response) ves idx errs =
     (out @ pending_slice es, ves @ valid_entries es, idx @ valid_indices (length out) es, errs @ invalid_errs es)"
proof (induction es arbitrary: out ves idx errs)
  case (Cons e es)
  note IH = Cons.IH [of "out @ [if validateKey (q_Key e) = None then zero_response else invalid_response e]", simplified]
  show ?case
    using IH by (cases "validateKey (q_Key e)")
      (simp_all add: pending_slice_def list_update_append invalid_response_def)
qed (simp add: pending_slice_def)

lemma fill_failed_eq:
  "length out = length pre \<Longrightarrow>
   fill_failed (valid_indices (length out) es) (pre @ es) failOpen err (out @ pending_slice es)
     = out @ merge_answers es (map (failed_response failOpen err) (valid_entries es))"
proof (induction es arbitrary: pre out)
  case (Cons e es)
  note IH = Cons.IH [of "out @ [if validateKey (q_Key e) = None then failed_response failOpen err e else invalid_response e]"
      "pre @ [e]", simplified]
  show ?case
    using IH Cons.prems
    by (cases "validateKey (q_Key e)")
      (simp_all add: pending_slice_def list_update_append failed_response_def [symmetric] nth_append)
qed (simp add: pending_slice_def)

lemma fill_valid_eq:
  "length answers = j + length (valid_entries es) \<Longrightarrow>
   fill_valid j (valid_indices (length out) es) answers (out @ pending_slice es)
     = Some (out @ merge_answers es (drop j answers))"
proof (induction es arbitrary: j out)
  case (Cons e es)
  show ?case
  proof (cases "validateKey (q_Key e)")
    case None
    with Cons.prems have j: "j < length answers" by simp
    from Cons.IH [of "Suc j" "out @ [answers ! j]"] Cons.prems None j show ?thesis
      by (simp add: pending_slice_def list_update_append hd_drop_conv_nth drop_Suc tl_drop)
  next
    case (Some err)
    with Cons.IH [of j "out @ [invalid_response e]"] Cons.prems show ?thesis
      by (simp add: pending_slice_def)
  qed
qed (simp add: pending_slice_def)

section \<open>What a call does\<close>

text \<open>The three ends of a call that reaches the network.\<close>

datatype exchange_end = Answered "response_entry list" | ShardFault go_err | CallerGone go_err

definition exchange_end :: "exchange_env \<Rightarrow> request_entry list \<Rightarrow> exchange_end" where
  "exchange_end env ves =
     (case x_submit env of
        Some err \<Rightarrow> if x_ctxErr env = None then ShardFault err else CallerGone err
      | None \<Rightarrow>
          (case x_wait env of
             ResponseLine line \<Rightarrow> (case decodeResult line ves of Inl err \<Rightarrow> ShardFault err | Inr rs \<Rightarrow> Answered rs)
           | ConnFailed err \<Rightarrow> ShardFault err
           | WaitDone e \<Rightarrow> if x_ctxErr env = None then ShardFault (ContextErr e) else CallerGone (ContextErr e)))"

definition call_spec ::
  "string \<Rightarrow> bool \<Rightarrow> int64 \<Rightarrow> int64 \<Rightarrow> exchange_env \<Rightarrow> circuit_breaker \<Rightarrow> request_entry list
    \<Rightarrow> circuit_breaker \<times> response_entry list \<times> go_err list" where
  "call_spec addr failOpen now later env b es =
     (let ves = valid_entries es; errs = invalid_errs es;
          fail = (\<lambda>b err. (b, merge_answers es (map (failed_response failOpen err) ves), errs @ [err]))
      in if ves = [] then (b, merge_answers es [], errs)
         else if \<not> fst (allow now b) then fail (snd (allow now b)) (ErrCircuitOpen addr)
         else case exchange_end env ves of
                Answered rs \<Rightarrow> (recordSuccess (snd (allow now b)), merge_answers es rs, errs)
              | ShardFault err \<Rightarrow> fail (recordFailure later (snd (allow now b))) err
              | CallerGone err \<Rightarrow> fail (snd (allow now b)) err)"

lemma decodeResult_length: "decodeResult line es = Inr rs \<Longrightarrow> length rs = length es"
  by (drule decodeResult_keys) (rule map_eq_imp_length_eq)

lemma merge_no_valid: "valid_entries es = [] \<Longrightarrow> pending_slice es = merge_answers es answers"
  by (induction es) (auto simp: pending_slice_def split: if_splits)

lemma shard_throttle_eq:
  "shard_throttle addr failOpen now later env b es = Some (call_spec addr failOpen now later env b es)"
proof -
  let ?ves = "valid_entries es" and ?idx = "valid_indices 0 es"
  have val: "validate_loop 0 es (replicate (length es) zero_response) [] [] []
      = (pending_slice es, ?ves, ?idx, invalid_errs es)"
    using validate_loop_eq [of "[]" es "[]" "[]" "[]"] by simp
  have fail: "fill_failed ?idx es failOpen err (pending_slice es)
      = merge_answers es (map (failed_response failOpen err) ?ves)" for err
    using fill_failed_eq [of "[]" "[]" es failOpen err] by simp
  have ok: "fill_valid 0 ?idx rs (pending_slice es) = Some (merge_answers es rs)"
    if "decodeResult line ?ves = Inr rs" for line rs
    using fill_valid_eq [of rs 0 es "[]"] decodeResult_length [OF that] by simp
  obtain a b' where ab: "allow now b = (a, b')" by force
  show ?thesis
  proof (cases "?ves = [] \<or> \<not> a")
    case True
    then show ?thesis
      using merge_no_valid [of es "[]"] by (auto simp: shard_throttle_def call_spec_def val ab fail Let_def)
  next
    case False
    have "exchange env ?ves (pending_slice es) ?idx =
        (case exchange_end env ?ves of
           Answered rs \<Rightarrow> Some (False, None, merge_answers es rs)
         | ShardFault err \<Rightarrow> Some (True, Some err, pending_slice es)
         | CallerGone err \<Rightarrow> Some (False, Some err, pending_slice es))"
      using ok by (auto simp: exchange_def exchange_end_def
          split: option.split wait_outcome.split sum.split)
    with False show ?thesis
      by (auto simp: shard_throttle_def call_spec_def val ab fail Let_def split: exchange_end.split)
  qed
qed

end
