(* ===== verification/ShardConnProps.thy ===== *)
theory ShardConnProps
  imports ShardConn
begin

text \<open>
  The properties of a client call to one shard: its result and what it does to the breaker,
  whatever the network does, and a sequence of calls in which the breaker cuts a shard off.
\<close>

section \<open>Lemmas\<close>

text \<open>Calls one after the other on a shard.\<close>

fun shard_calls ::
  "string \<Rightarrow> bool \<Rightarrow> circuit_breaker \<Rightarrow> (int64 \<times> int64 \<times> exchange_env \<times> request_entry list) list
    \<Rightarrow> (circuit_breaker \<times> response_entry list list) option" where
  "shard_calls addr failOpen b [] = Some (b, [])"
| "shard_calls addr failOpen b ((now, later, env, entries) # calls) = do {
     (b, rs, _) \<leftarrow> shard_throttle addr failOpen now later env b entries;
     (b, rss) \<leftarrow> shard_calls addr failOpen b calls;
     Some (b, rs # rss)
   }"

text \<open>A breaker whose trial flag is set lets nothing through.\<close>

definition cut_off :: "circuit_breaker \<Rightarrow> bool" where
  "cut_off b \<longleftrightarrow> 0 < sint (failureThreshold b) \<and> cb_open b \<and> trialInFlight b"

definition refused :: "string \<Rightarrow> bool \<Rightarrow> request_entry list \<Rightarrow> response_entry list" where
  "refused addr failOpen es =
     merge_answers es (map (failed_response failOpen (ErrCircuitOpen addr)) (valid_entries es))"

lemma cut_off_call:
  assumes "cut_off b"
  shows "\<exists>errs. call_spec addr failOpen now later env b es = (b, refused addr failOpen es, errs)"
proof -
  have "allow now b = (False, b)" using assms by (simp add: cut_off_def allow_def int64_simps)
  then show ?thesis by (simp add: call_spec_def Let_def refused_def)
qed

lemma cut_off_forever:
  "cut_off b \<Longrightarrow> shard_calls addr failOpen b calls
    = Some (b, map (\<lambda>(_, _, _, es). refused addr failOpen es) calls)"
proof (induction calls)
  case (Cons call calls)
  obtain now later env es where call: "call = (now, later, env, es)" by (metis prod_cases4)
  with cut_off_call [OF Cons.prems, of addr failOpen now later env es] Cons.IH [OF Cons.prems]
  show ?case by (auto simp: shard_throttle_eq)
qed simp

section \<open>The properties\<close>

text \<open>
  C14 (equivalence). For every behaviour of the network a call does not panic, and the loops over index
  slices compute the specification: the answers of the shard, or one failure for all of them, in the
  places of the valid entries; each invalid key marked on its own; the breaker told of a success, of
  a failure, or of nothing.
\<close>

theorem shard_throttle_refines:
  "shard_throttle addr failOpen now later env b es = Some (call_spec addr failOpen now later env b es)"
  by (rule shard_throttle_eq)

definition example_call :: "string \<Rightarrow> request_entry" where
  "example_call key = \<lparr>q_Key = key, q_Limit = \<lparr>l_Capacity = 2, l_Rate = \<lparr>r_Units = 1, r_Period = 1000\<rparr>\<rparr>,
     q_Cost = 1, q_Peek = False\<rparr>"

text \<open>
  C30 (error). When the call a caller gives up is the half-open trial, the shard is cut off for
  good: the trial flag stays set, and every later call, at any time and whatever state the shard is
  in, is refused with \<open>ErrCircuitOpen\<close> without reaching the network.
\<close>

theorem cancelled_trial_cuts_off:
  assumes "0 < sint (failureThreshold b)" "cb_open b" "\<not> trialInFlight b"
    and "\<not> time_since (openedAtNano b) now <s openDuration b"
    and "valid_entries es \<noteq> []" "exchange_end env (valid_entries es) = CallerGone err"
    and "shard_throttle addr failOpen now later env b es = Some (b', rs, errs)"
  shows "shard_calls addr failOpen b' calls = Some (b', map (\<lambda>(_, _, _, es). refused addr failOpen es) calls)"
proof -
  have "allow now b = (True, b\<lparr>trialInFlight := True\<rparr>)"
    using assms(1-4) by (simp add: allow_def int64_simps)
  with assms(5-7) have "b' = b\<lparr>trialInFlight := True\<rparr>"
    by (simp add: shard_throttle_eq call_spec_def Let_def)
  with assms(1,2) have "cut_off b'" by (simp add: cut_off_def)
  then show ?thesis by (rule cut_off_forever)
qed

text \<open>
  Two failures trip a breaker of threshold two; past the cooldown the trial's caller cancels; a shard
  that would answer correctly ten seconds later is not asked.
\<close>

theorem cancelled_trial_cuts_off_witness:
  "\<exists>b' rs errs. shard_throttle ''s:1'' True 5000 5001 \<lparr>x_submit = None, x_wait = WaitDone Canceled, x_ctxErr = Some Canceled\<rparr>
       (recordFailure 20 (recordFailure 10 (newCircuitBreaker 2 1000))) [example_call ''k''] = Some (b', rs, errs)
     \<and> shard_calls ''s:1'' True b'
         [(10000005000, 10000005001, \<lparr>x_submit = None, x_wait = ResponseLine ''RESULT k|0|2|0'', x_ctxErr = None\<rparr>, [example_call ''k''])]
       = Some (b', [refused ''s:1'' True [example_call ''k'']])"
proof -
  let ?b = "recordFailure 20 (recordFailure 10 (newCircuitBreaker 2 1000))"
  let ?env = "\<lparr>x_submit = None, x_wait = WaitDone Canceled, x_ctxErr = Some Canceled\<rparr>"
  let ?next = "[(10000005000, 10000005001, \<lparr>x_submit = None, x_wait = ResponseLine ''RESULT k|0|2|0'', x_ctxErr = None\<rparr>, [example_call ''k''])]
    :: (int64 \<times> int64 \<times> exchange_env \<times> request_entry list) list"
  have b: "failureThreshold ?b = 2" "cb_open ?b" "\<not> trialInFlight ?b" "openedAtNano ?b = 20" "openDuration ?b = 1000"
    by code_simp+
  have valid: "valid_entries [example_call ''k''] = [example_call ''k'']"
  proof -
    have "validateKey ''k'' = None" by code_simp
    then show ?thesis by (simp add: example_call_def)
  qed
  obtain b' rs errs where t: "shard_throttle ''s:1'' True 5000 5001 ?env ?b [example_call ''k''] = Some (b', rs, errs)"
    using shard_throttle_eq by (metis prod_cases3)
  have "shard_calls ''s:1'' True b' ?next
      = Some (b', map (\<lambda>(_, _, _, es). refused ''s:1'' True es) ?next)"
  proof (rule cancelled_trial_cuts_off [OF _ b(2,3) _ _ _ t])
    show "0 < sint (failureThreshold ?b)" unfolding b(1) by simp
    show "\<not> time_since (openedAtNano ?b) 5000 <s openDuration ?b"
      unfolding b(4,5) by (simp add: time_since_less)
    show "valid_entries [example_call ''k''] \<noteq> []" unfolding valid by simp
    show "exchange_end ?env (valid_entries [example_call ''k'']) = CallerGone (ContextErr Canceled)"
      by (simp add: exchange_end_def)
  qed
  with t show ?thesis by auto
qed

end
