(* ===== verification/EndToEnd.thy ===== *)
theory EndToEnd
  imports TextServerProps ShardConnProps
begin

text \<open>
  The lemmas that carry a call from the client's entries over the wire to the throttler and back:
  an entry and its normal form are checked alike, the encoded line is a line the server accepts, and
  the throttler's responses survive formatting and decoding unchanged.
\<close>

section \<open>Normal forms\<close>

lemma normalise_sel [simp]: "q_Key (normalise e) = q_Key e" "q_Peek (normalise e) = q_Peek e"
  by (simp_all add: normalise_def)

lemma chk_normalise [simp]: "chk tat now (normalise e) = chk tat now e"
  by (simp add: chk_def check_entry_def normalise_def)

lemma respond_normalise [simp]: "respond (normalise e) g = respond e g"
  by (simp add: respond_def)

lemma advance_normalise [simp]: "advance work now (normalise e) = advance work now e"
  by (rule ext) (simp add: advance_def Let_def)

lemma spec_eval_normalise: "spec_eval now tat work (map normalise es) = spec_eval now tat work es"
  by (induction es arbitrary: work) (simp_all add: Let_def)

lemma spec_throttle_normalise: "spec_throttle now tat (map normalise es) = spec_throttle now tat es"
  by (simp add: spec_throttle_def spec_eval_normalise)

section \<open>Responses\<close>

lemma chk_remaining: "0 \<le> sint (g_remaining (chk tat now e))"
proof -
  have "check_entry tat now e = Some (chk tat now e)" by (rule check_entry_chk)
  then show ?thesis using gcraCheck_remaining by (simp add: check_entry_def)
qed

lemma spec_eval_remaining: "\<forall>r \<in> set (fst (spec_eval now tat work es)). 0 \<le> sint (s_Remaining r)"
  by (induction es arbitrary: work) (simp_all add: case_prod_beta Let_def chk_remaining)

lemma client_view_id: "s_Key r = q_Key e \<Longrightarrow> s_Err r = None \<Longrightarrow> client_view e r = r"
  by (cases r) (simp add: client_view_def zero_response_def)

lemma spec_throttle_responses:
  "map s_Key (snd (spec_throttle now tat es)) = map q_Key es"
  "\<forall>r \<in> set (snd (spec_throttle now tat es)). s_Err r = None \<and> 0 \<le> sint (s_Remaining r)"
  using spec_eval_keys spec_eval_err spec_eval_remaining by (auto simp: spec_throttle_eq(1))

lemma spec_throttle_decodable:
  assumes "list_all (\<lambda>e. validateKey (q_Key e) = None) es"
  shows "list_all2 decodable es (snd (spec_throttle now tat es))"
proof -
  have len: "length (snd (spec_throttle now tat es)) = length es"
    using spec_throttle_responses(1) [of now tat es] by (metis length_map)
  have "decodable (es ! i) (snd (spec_throttle now tat es) ! i)" if "i < length es" for i
  proof -
    have "s_Key (snd (spec_throttle now tat es) ! i) = q_Key (es ! i)"
      using spec_throttle_responses(1) [of now tat es] that len by (metis nth_map)
    moreover have "CHR ''|'' \<notin> set (q_Key (es ! i))"
      using assms that valid_key_word by (simp add: list_all_length)
    ultimately show ?thesis
      using spec_throttle_responses(2) [of now tat es] that len by (simp add: decodable_def)
  qed
  then show ?thesis using len by (simp add: list_all2_conv_all_nth)
qed

section \<open>The encoded line\<close>

lemma encoded_no_space:
  assumes "list_all (\<lambda>e. validateKey (q_Key e) = None) es" "is_ascii c" "IsSpace (of_char c)" "c \<noteq> CHR '' ''"
  shows "c \<notin> set (butlast (encodeThrottle es))"
proof -
  have "c \<notin> set (Join '' '' (''THROTTLE'' # map entry_token es))"
  proof (rule not_in_Join)
    show "c \<notin> set '' ''" using assms(4) by simp
    have "list_all word_str (''THROTTLE'' # map entry_token es)"
      using assms(1) by (simp add: THROTTLE_word list_all_iff entry_token_word)
    then show "\<forall>t \<in> set (''THROTTLE'' # map entry_token es). c \<notin> set t"
      using space_not_in_word [OF _ assms(2,3)] by (simp only: list_all_iff) blast
  qed
  then show ?thesis by (simp add: encodeThrottle_eq)
qed

lemma encoded_request_line:
  assumes "list_all (\<lambda>e. validateKey (q_Key e) = None) es"
    and "int (length (encodeThrottle es)) \<le> sint maxSize"
  shows "request_line maxSize (butlast (encodeThrottle es))"
    and "butlast (encodeThrottle es) @ [CHR 0x0A] = encodeThrottle es"
proof -
  let ?l = "butlast (encodeThrottle es)"
  show l: "?l @ [CHR 0x0A] = encodeThrottle es" by (simp add: encodeThrottle_eq)
  have chars: "CHR 0x0A \<notin> set ?l" "CHR 0x0D \<notin> set ?l"
    using encoded_no_space [OF assms(1)] by (simp_all add: IsSpace_def)
  then have not_cr: "\<not> (?l \<noteq> [] \<and> last ?l = CHR 0x0D)"
    using last_in_set by metis
  note chars(1)
  moreover have "length ?l + 1 = length (encodeThrottle es)" using arg_cong [OF l, of length] by simp
  moreover have "Fields ?l = ''THROTTLE'' # map entry_token es" by (rule Fields_encodeThrottle [OF assms(1)])
  ultimately show "request_line maxSize ?l"
    using assms(2) not_cr by (simp add: request_line_def all_space_iff_Fields)
qed

section \<open>The server's answer to an encoded line\<close>

definition sane_entry :: "request_entry \<Rightarrow> bool" where
  "sane_entry e \<longleftrightarrow> \<not> l_Capacity (q_Limit e) <s 0 \<and> \<not> r_Period (l_Rate (q_Limit e)) <s 0"

lemma entries_of_sane:
  assumes "list_all (\<lambda>e. validateKey (q_Key e) = None) es"
  shows "entries_of (map entry_token es) = map normalise (filter sane_entry es)"
  using assms by (induction es) (auto simp: parse_entry_token sane_entry_def)

text \<open>One response per sane entry, in its place; the others rejected.\<close>

definition rejected :: "request_entry \<Rightarrow> response_entry" where
  "rejected e = zero_response\<lparr>s_Key := q_Key e, s_Throttled := True, s_Err := Some ErrEntryRejected\<rparr>"

fun wire_answers :: "request_entry list \<Rightarrow> response_entry list \<Rightarrow> response_entry list" where
  "wire_answers [] rs = []"
| "wire_answers (e # es) rs =
     (if sane_entry e then hd rs # wire_answers es (tl rs) else rejected e # wire_answers es rs)"

lemma result_tokens_encoded:
  assumes "list_all (\<lambda>e. validateKey (q_Key e) = None) es" "length rs = length (filter sane_entry es)"
  shows "result_tokens (map entry_token es) rs = map formatResult (wire_answers es rs)"
  using assms
proof (induction es arbitrary: rs)
  case (Cons e es)
  show ?case
  proof (cases "sane_entry e")
    case True
    with Cons.prems obtain r rs' where rs: "rs = r # rs'" by (cases rs) auto
    with True Cons.IH [of rs'] Cons.prems show ?thesis
      by (simp add: parse_entry_token sane_entry_def)
  next
    case False
    with Cons.IH [of rs] Cons.prems show ?thesis
      by (auto simp: parse_entry_token sane_entry_def formatResult_def rejected_def)
  qed
qed simp

lemma wire_answers_decodable:
  assumes "list_all (\<lambda>e. validateKey (q_Key e) = None) es"
    and "list_all2 decodable (filter sane_entry es) rs" "\<forall>r \<in> set rs. s_Err r = None"
  shows "list_all2 decodable es (wire_answers es rs)
    \<and> map2 client_view es (wire_answers es rs) = wire_answers es rs"
  using assms
proof (induction es arbitrary: rs)
  case (Cons e es)
  show ?case
  proof (cases "sane_entry e")
    case True
    with Cons.prems obtain r rs' where rs: "rs = r # rs'" "decodable e r" by (cases rs) auto
    with True Cons.IH [of rs'] Cons.prems show ?thesis by (simp add: client_view_id decodable_def)
  next
    case False
    have "CHR ''|'' \<notin> set (q_Key e)" using Cons.prems(1) valid_key_word by simp
    with False Cons.IH [of rs] Cons.prems show ?thesis
      by (simp add: decodable_def rejected_def client_view_def zero_response_def)
  qed
qed simp

text \<open>
  A line of entries with valid keys: the sane ones are one call of the throttler, and the reply
  decodes to its responses, in their places.
\<close>

lemma dispatch_encoded:
  assumes inv: "store_inv st" and keys: "list_all (\<lambda>e. validateKey (q_Key e) = None) es"
  shows "\<exists>st' r ms. dispatch InMemoryThrottle kc st now up (butlast (encodeThrottle es)) = Some (st', r, False, ms)
    \<and> store_inv st' \<and> r \<noteq> []
    \<and> tat_of st' = fst (spec_throttle now (tat_of st) (filter sane_entry es))
    \<and> decodeResult (r @ [CHR 0x0A]) es = Inr (wire_answers es (snd (spec_throttle now (tat_of st) (filter sane_entry es))))"
proof -
  let ?sane = "filter sane_entry es" and ?toks = "map entry_token es"
  let ?rs = "snd (spec_throttle now (tat_of st) ?sane)"
  have sane_keys: "list_all (\<lambda>e. validateKey (q_Key e) = None) ?sane"
    using keys by (simp add: list_all_iff)
  have dec: "list_all2 decodable ?sane ?rs" by (rule spec_throttle_decodable [OF sane_keys])
  then have len: "length ?rs = length ?sane" by (simp add: list_all2_lengthD)
  have toks: "result_tokens ?toks ?rs = map formatResult (wire_answers es ?rs)"
    by (rule result_tokens_encoded [OF keys len])
  have ans: "list_all2 decodable es (wire_answers es ?rs)"
    "map2 client_view es (wire_answers es ?rs) = wire_answers es ?rs"
    using wire_answers_decodable [OF keys dec] spec_throttle_responses(2) by blast+
  have words: "list_all (\<lambda>e. word_str (q_Key e)) es" using keys valid_key_word by (simp add: list_all_iff)
  have decoded: "decodeResult (result_line (result_tokens ?toks ?rs) @ [CHR 0x0A]) es = Inr (wire_answers es ?rs)"
    unfolding toks decodeResult_result_line [OF ans(1) words] ans(2) by (rule refl)
  have nonempty: "result_line ts \<noteq> []" for ts by (cases ts) (simp_all add: result_line_def)
  have fields: "Fields (butlast (encodeThrottle es)) = ''THROTTLE'' # ?toks"
    by (rule Fields_encodeThrottle [OF keys])
  have "\<exists>st' ms. throttle_reply InMemoryThrottle st now ?toks = Some (st', result_line (result_tokens ?toks ?rs), ms)
      \<and> store_inv st' \<and> tat_of st' = fst (spec_throttle now (tat_of st) ?sane)"
  proof (cases "?sane = []")
    case True
    then show ?thesis using inv
      by (simp add: throttle_reply_def entries_of_sane [OF keys] spec_throttle_def)
  next
    case False
    obtain st' where "InMemoryThrottle st now (map normalise ?sane) = Some (st', ?rs, None)"
      "store_inv st'" "tat_of st' = fst (spec_throttle now (tat_of st) ?sane)"
      using Throttle_effect [OF inv, of now "map normalise ?sane"]
      by (auto simp: InMemoryThrottle_def spec_throttle_normalise)
    with False len show ?thesis
      by (simp add: throttle_reply_def entries_of_sane [OF keys] Let_def)
  qed
  with decoded nonempty show ?thesis
    unfolding dispatch_eq fields by auto
qed

lemma wire_answers_sane:
  "list_all sane_entry es \<Longrightarrow> length rs = length es \<Longrightarrow> wire_answers es rs = rs"
proof (induction es arbitrary: rs)
  case (Cons e es)
  then show ?case by (cases rs) auto
qed simp

lemma all_valid:
  assumes "list_all (\<lambda>e. validateKey (q_Key e) = None) es"
  shows "valid_entries es = es" "invalid_errs es = []"
    and "length rs = length es \<Longrightarrow> merge_answers es rs = rs"
proof -
  show "valid_entries es = es" "invalid_errs es = []" using assms by (induction es) auto
  show "merge_answers es rs = rs" if "length rs = length es"
    using assms that
  proof (induction es arbitrary: rs)
    case (Cons e es)
    then show ?case by (cases rs) auto
  qed simp
qed

text \<open>The client's side of a call whose answer decodes.\<close>

lemma shard_throttle_answered:
  assumes "list_all (\<lambda>e. validateKey (q_Key e) = None) es" "es \<noteq> []" "fst (allow now b)"
    and "decodeResult line es = Inr rs"
  shows "shard_throttle addr failOpen now later \<lparr>x_submit = None, x_wait = ResponseLine line, x_ctxErr = None\<rparr> b es
    = Some (recordSuccess (snd (allow now b)), rs, [])"
  using assms(2-4) all_valid [OF assms(1)] decodeResult_length [OF assms(4)]
  by (simp add: shard_throttle_eq call_spec_def exchange_end_def)

section \<open>A rejected entry\<close>

lemma wire_answers_append:
  "list_all sane_entry es \<Longrightarrow> length rs = length es \<Longrightarrow> wire_answers (es @ es') rs = rs @ wire_answers es' []"
proof (induction es arbitrary: rs)
  case (Cons e es)
  then show ?case by (cases rs) auto
qed simp

text \<open>In process, a negative capacity is a check that fails, and the call does not commit.\<close>

lemma negative_capacity_throttled:
  assumes "l_Capacity (q_Limit e) <s 0"
  shows "g_throttled (chk tat now e)"
  using assms by (simp add: chk_def check_entry_def gcraCheck_def)

lemma insane_not_committed:
  assumes "e \<in> set es" "\<not> q_Peek e" "l_Capacity (q_Limit e) <s 0"
  shows "\<not> committed es (fst (spec_eval now tat work es))"
  using assms
proof (induction es arbitrary: work)
  case (Cons x es)
  then show ?case
    by (cases "x = e") (auto simp: case_prod_beta Let_def negative_capacity_throttled)
qed simp

end
