(* ===== verification/Transactions.thy ===== *)
theory Transactions
  imports ThrottleProps
begin

text \<open>
  Concurrent calls of \<open>InMemoryThrottler.Throttle\<close> (\<open>server/throttling.go\<close>) on one store, with the GC
  loop (\<open>server/store.go\<close>) running: every access to a stripe, a mutex or a bucket is a step of its own,
  and the steps of all calls and of the GC interleave freely.

  A call is a Peek entry after the other and then its Real entries as one group; each of these is a
  transaction here, with the transaction it comes after in its call. A transaction collects its
  buckets, locks them in the order of their keys, reads them, checks its entries, writes if it may, and
  unlocks. The lemmas show that the transactions are serializable: each gets the answers, and the
  buckets get the TATs, of \<open>Throttle\<close> calls made one after the other.
\<close>

section \<open>The model\<close>

datatype tx_pc =
    Waiting
  | Collecting "string list"
  | Acquire "string list"
  | Load "(string \<times> addr) list"
  | Save "(string \<times> addr) list"
  | Release "string list"

text \<open>
  The variables of a transaction: \<open>buckets\<close>, \<open>workingTAT\<close> and its part of \<open>result\<close>, beside its clock
  reading, its entries and the transaction it comes after.
\<close>

record tx =
  x_now :: int64
  x_entries :: "request_entry list"
  x_after :: "nat option"
  x_pc :: tx_pc
  x_bs :: "(string \<times> addr) list"
  x_work :: "string \<Rightarrow> int64"
  x_res :: "response_entry list"

definition start_tx :: "int64 \<times> request_entry list \<times> nat option \<Rightarrow> tx" where
  "start_tx r = \<lparr>x_now = fst r, x_entries = fst (snd r), x_after = snd (snd r), x_pc = Waiting,
     x_bs = [], x_work = (\<lambda>_. 0), x_res = []\<rparr>"

text \<open>
  The checks of a transaction, on the TATs it has read: whether it writes, the TATs to write, and its
  responses. A Peek entry never writes.
\<close>

definition tx_check :: "tx \<Rightarrow> (bool \<times> (string \<Rightarrow> int64) \<times> response_entry list) option" where
  "tx_check x =
     (let result = map (\<lambda>e. zero_response\<lparr>s_Key := q_Key e\<rparr>) (x_entries x) in
      if list_ex q_Peek (x_entries x) then
        (let e = hd (x_entries x) in do {
           g \<leftarrow> check_entry (x_work x (q_Key e)) (x_now x) e;
           Some (False, x_work x, [set_result (hd result) g])
         })
      else group_loop (x_entries x) [0..<length (x_entries x)] (x_now x) True (x_work x) result)"

text \<open>The store, the owner of each bucket's mutex, and the transactions.\<close>

record tx_sys =
  t_store :: store
  t_lock :: "addr \<Rightarrow> nat option"
  t_tx :: "nat \<Rightarrow> tx"

definition start_sys :: "store \<Rightarrow> (nat \<Rightarrow> int64 \<times> request_entry list \<times> nat option) \<Rightarrow> tx_sys" where
  "start_sys st reqs = \<lparr>t_store = st, t_lock = (\<lambda>_. None), t_tx = (\<lambda>i. start_tx (reqs i))\<rparr>"

definition set_tx :: "nat \<Rightarrow> tx \<Rightarrow> tx_sys \<Rightarrow> tx_sys" where
  "set_tx i x s = s\<lparr>t_tx := (t_tx s)(i := x)\<rparr>"

definition ready :: "tx_sys \<Rightarrow> tx \<Rightarrow> bool" where
  "ready s x = (case x_after x of None \<Rightarrow> True | Some j \<Rightarrow> x_pc (t_tx s j) = Release [])"

text \<open>Go's iteration over a map has no order: \<open>load\<close> and \<open>save\<close> take any bucket that is left.\<close>

inductive tx_step :: "nat \<Rightarrow> tx_sys \<Rightarrow> tx_sys \<Rightarrow> bool" for i where
  begin_tx: "t_tx s i = x \<Longrightarrow> x_pc x = Waiting \<Longrightarrow> ready s x \<Longrightarrow>
    tx_step i s (set_tx i (x\<lparr>x_pc := Collecting (map q_Key (x_entries x))\<rparr>) s)"
| collected_before: "t_tx s i = x \<Longrightarrow> x_pc x = Collecting (k # ks) \<Longrightarrow> k \<in> fst ` set (x_bs x) \<Longrightarrow>
    tx_step i s (set_tx i (x\<lparr>x_pc := Collecting ks\<rparr>) s)"
| collect: "t_tx s i = x \<Longrightarrow> x_pc x = Collecting (k # ks) \<Longrightarrow> k \<notin> fst ` set (x_bs x) \<Longrightarrow>
    store_get (t_store s) k = Some (b, st) \<Longrightarrow>
    tx_step i s (set_tx i (x\<lparr>x_pc := Collecting ks, x_bs := x_bs x @ [(k, b)]\<rparr>) (s\<lparr>t_store := st\<rparr>))"
| collected_all: "t_tx s i = x \<Longrightarrow> x_pc x = Collecting [] \<Longrightarrow>
    tx_step i s (set_tx i (x\<lparr>x_pc := Acquire (lock_order (x_bs x))\<rparr>) s)"
| acquire: "t_tx s i = x \<Longrightarrow> x_pc x = Acquire (k # ks) \<Longrightarrow> map_of (x_bs x) k = Some b \<Longrightarrow>
    t_lock s b = None \<Longrightarrow>
    tx_step i s (set_tx i (x\<lparr>x_pc := Acquire ks\<rparr>) (s\<lparr>t_lock := (t_lock s)(b := Some i)\<rparr>))"
| acquired_all: "t_tx s i = x \<Longrightarrow> x_pc x = Acquire [] \<Longrightarrow>
    tx_step i s (set_tx i (x\<lparr>x_pc := Load (x_bs x), x_work := (\<lambda>_. 0)\<rparr>) s)"
| load: "t_tx s i = x \<Longrightarrow> x_pc x = Load todo \<Longrightarrow> (k, b) \<in> set todo \<Longrightarrow>
    tx_step i s (set_tx i (x\<lparr>x_pc := Load (removeAll (k, b) todo),
      x_work := (x_work x)(k := read_tat (t_store s) b)\<rparr>) s)"
| check: "t_tx s i = x \<Longrightarrow> x_pc x = Load [] \<Longrightarrow> tx_check x = Some (writes, work, res) \<Longrightarrow>
    tx_step i s (set_tx i (x\<lparr>x_pc := (if writes then Save (x_bs x) else Release (lock_order (x_bs x))),
      x_work := work, x_res := res\<rparr>) s)"
| save: "t_tx s i = x \<Longrightarrow> x_pc x = Save todo \<Longrightarrow> (k, b) \<in> set todo \<Longrightarrow>
    tx_step i s (set_tx i (x\<lparr>x_pc := Save (removeAll (k, b) todo)\<rparr>)
      (s\<lparr>t_store := write_tat (t_store s) b (x_work x k)\<rparr>))"
| saved_all: "t_tx s i = x \<Longrightarrow> x_pc x = Save [] \<Longrightarrow>
    tx_step i s (set_tx i (x\<lparr>x_pc := Release (lock_order (x_bs x))\<rparr>) s)"
| release: "t_tx s i = x \<Longrightarrow> x_pc x = Release (k # ks) \<Longrightarrow> map_of (x_bs x) k = Some b \<Longrightarrow>
    tx_step i s (set_tx i (x\<lparr>x_pc := Release ks\<rparr>) (s\<lparr>t_lock := (t_lock s)(b := None)\<rparr>))"

text \<open>The GC loop rotates one stripe after the other, each under the stripe's own mutex.\<close>

inductive sys_step :: "tx_sys \<Rightarrow> tx_sys \<Rightarrow> bool" where
  tx: "tx_step i s s' \<Longrightarrow> sys_step s s'"
| rotate: "j < length (stripes (t_store s)) \<Longrightarrow>
    sys_step s (s\<lparr>t_store := rotate_nth (t_store s) j\<rparr>)"

section \<open>Buckets and their owners\<close>

lemma set_tx_sel [simp]:
  "t_store (set_tx i x s) = t_store s" "t_lock (set_tx i x s) = t_lock s"
  "t_tx (set_tx i x s) = (t_tx s)(i := x)"
  by (simp_all add: set_tx_def)

text \<open>A key's bucket, in the store or in the hands of a transaction that has collected it.\<close>

definition bound :: "tx_sys \<Rightarrow> string \<Rightarrow> addr \<Rightarrow> bool" where
  "bound s k b \<longleftrightarrow> bucket_addr (t_store s) k = Some b \<or> (\<exists>i. (k, b) \<in> set (x_bs (t_tx s i)))"

definition alloc_inv :: "tx_sys \<Rightarrow> bool" where
  "alloc_inv s \<longleftrightarrow> store_inv (t_store s)
   \<and> (\<forall>k b. bound s k b \<longrightarrow> b < length (heap (t_store s)))
   \<and> (\<forall>k k' b. bound s k b \<longrightarrow> bound s k' b \<longrightarrow> k = k')"

lemma alloc_inv_mono:
  assumes "alloc_inv s" "store_inv (t_store s')" "length (heap (t_store s)) \<le> length (heap (t_store s'))"
    and "\<And>k b. bound s' k b \<Longrightarrow> bound s k b"
  shows "alloc_inv s'"
  using assms unfolding alloc_inv_def by (meson less_le_trans)

lemma alloc_inv_collect:
  assumes inv: "alloc_inv s" and get: "store_get (t_store s) k = Some (b, st)" and i: "x_bs x = x_bs (t_tx s i)"
  shows "alloc_inv (set_tx i (x\<lparr>x_pc := pc, x_bs := x_bs x @ [(k, b)]\<rparr>) (s\<lparr>t_store := st\<rparr>))"
proof -
  let ?s = "set_tx i (x\<lparr>x_pc := pc, x_bs := x_bs x @ [(k, b)]\<rparr>) (s\<lparr>t_store := st\<rparr>)"
  have st: "store_inv (t_store s)" and alloc: "\<And>k b. bound s k b \<Longrightarrow> b < length (heap (t_store s))"
    and inj: "\<And>k k' b. bound s k b \<Longrightarrow> bound s k' b \<Longrightarrow> k = k'"
    using inv unfolding alloc_inv_def by blast+
  note addr = store_get_addr [OF get st]
  have new: "bound ?s k' b' \<Longrightarrow> bound s k' b' \<or> k' = k \<and> b' = b" for k' b'
    using i unfolding bound_def set_tx_sel by (auto simp: addr(1) split: if_splits)
  have kb: "bound s k b \<or> b = length (heap (t_store s)) \<and> length (heap st) = Suc (length (heap (t_store s)))"
    using addr(2) by (auto simp: bound_def split: option.splits)
  have le: "length (heap (t_store s)) \<le> length (heap st)" "b < length (heap st)"
    using addr(2) kb alloc [of k b] by (auto split: option.splits)
  have "b' < length (heap st)" if "bound ?s k' b'" for k' b'
    using new [OF that] alloc [of k' b'] le by auto
  moreover have "k1 = k2" if "bound ?s k1 b'" "bound ?s k2 b'" for k1 k2 b'
    using that [THEN new] kb inj [of _ b'] alloc [of _ b'] by blast
  ultimately show ?thesis
    using store_get_inv [OF get st] by (simp add: alloc_inv_def)
qed

lemma bound_same [simp]:
  "x_bs x = x_bs (t_tx s i) \<Longrightarrow> bound (set_tx i x s) = bound s"
  "bound (s\<lparr>t_lock := l\<rparr>) = bound s"
  "bound (s\<lparr>t_store := write_tat (t_store s) b v\<rparr>) = bound s"
  by (auto simp: bound_def fun_eq_iff)

lemma tx_step_alloc:
  assumes "tx_step i s s'" "alloc_inv s"
  shows "alloc_inv s'"
  using assms
proof cases
  case (collect x k ks b st)
  with assms(2) show ?thesis by (simp add: alloc_inv_collect)
qed (use assms(2) in \<open>simp_all add: alloc_inv_def\<close>)

lemma sys_step_alloc:
  assumes "sys_step s s'" "alloc_inv s"
  shows "alloc_inv s'"
  using assms
proof cases
  case (rotate j)
  show ?thesis
  proof (rule alloc_inv_mono [OF assms(2)])
    show "store_inv (t_store s')" using assms(2) rotate by (simp add: alloc_inv_def rotate_nth_inv)
    have "t_tx s' = t_tx s" by (simp add: rotate(1))
    moreover have "bucket_addr (t_store s) k = Some b" if "bucket_addr (t_store s') k = Some b" for k b
      by (rule bucket_addr_rotate_nth [of _ j]) (use that in \<open>simp add: rotate(1)\<close>)
    ultimately show "bound s k b" if "bound s' k b" for k b
      using that unfolding bound_def by metis
  qed (simp add: rotate(1))
qed (rule tx_step_alloc)

section \<open>Each transaction on its own\<close>

fun pc_ok :: "tx_pc \<Rightarrow> string set \<Rightarrow> (string \<times> addr) list \<Rightarrow> bool" where
  "pc_ok Waiting K bs \<longleftrightarrow> bs = []"
| "pc_ok (Collecting ks) K bs \<longleftrightarrow> fst ` set bs \<union> set ks = K"
| "pc_ok (Acquire ks) K bs \<longleftrightarrow> fst ` set bs = K \<and> set ks \<subseteq> K \<and> distinct ks"
| "pc_ok (Load todo) K bs \<longleftrightarrow> fst ` set bs = K \<and> set todo \<subseteq> set bs"
| "pc_ok (Save todo) K bs \<longleftrightarrow> fst ` set bs = K \<and> set todo \<subseteq> set bs"
| "pc_ok (Release ks) K bs \<longleftrightarrow> fst ` set bs = K \<and> set ks \<subseteq> K \<and> distinct ks"

definition tx_ok :: "int64 \<times> request_entry list \<times> nat option \<Rightarrow> tx \<Rightarrow> bool" where
  "tx_ok r x \<longleftrightarrow> (x_now x, x_entries x, x_after x) = r \<and> one_part (x_entries x)
   \<and> distinct (map fst (x_bs x)) \<and> pc_ok (x_pc x) (q_Key ` set (x_entries x)) (x_bs x)"

lemma lock_order_ok [simp]: "set (lock_order m) = fst ` set m" "distinct (lock_order m) = distinct (map fst m)"
  by (simp_all add: lock_order_def)

lemma tx_step_other: "tx_step i s s' \<Longrightarrow> j \<noteq> i \<Longrightarrow> t_tx s' j = t_tx s j"
  by (erule tx_step.cases) simp_all

lemma tx_step_ok:
  assumes "tx_step i s s'" "tx_ok r (t_tx s i)"
  shows "tx_ok r (t_tx s' i)"
  using assms by cases (auto simp: tx_ok_def)

section \<open>Locks\<close>

text \<open>The keys whose buckets a transaction holds.\<close>

fun held_keys :: "tx_pc \<Rightarrow> (string \<times> addr) list \<Rightarrow> string set" where
  "held_keys (Acquire ks) bs = fst ` set bs - set ks"
| "held_keys (Load todo) bs = fst ` set bs"
| "held_keys (Save todo) bs = fst ` set bs"
| "held_keys (Release ks) bs = set ks"
| "held_keys _ bs = {}"

definition holds :: "tx \<Rightarrow> addr \<Rightarrow> bool" where
  "holds x b \<longleftrightarrow> (\<exists>k. (k, b) \<in> set (x_bs x) \<and> k \<in> held_keys (x_pc x) (x_bs x))"

definition lock_inv :: "tx_sys \<Rightarrow> bool" where
  "lock_inv s \<longleftrightarrow> (\<forall>i b. holds (t_tx s i) b \<longrightarrow> t_lock s b = Some i)"

lemma lock_inv_keep:
  assumes "lock_inv s" "\<And>b. holds x b \<Longrightarrow> holds (t_tx s i) b"
  shows "lock_inv (set_tx i x s)"
  using assms by (auto simp: lock_inv_def)

lemma lock_inv_store [simp]: "lock_inv (s\<lparr>t_store := st\<rparr>) = lock_inv s"
  by (simp add: lock_inv_def)

lemma holds_acquire:
  assumes "x_pc x = Acquire (k # ks)" "map_of (x_bs x) k = Some b" "distinct (map fst (x_bs x))"
    "holds (x\<lparr>x_pc := Acquire ks\<rparr>) a"
  shows "a = b \<or> holds x a"
proof -
  obtain k' where k': "(k', a) \<in> set (x_bs x)" "k' \<in> fst ` set (x_bs x)" "k' \<notin> set ks"
    using assms(4) by (auto simp: holds_def)
  have "a = b" if "k' = k" using map_of_is_SomeI [OF assms(3) k'(1)] assms(2) that by simp
  with k' assms(1) show ?thesis unfolding holds_def by auto
qed

lemma holds_release:
  assumes "alloc_inv s" "t_tx s i = x" "x_pc x = Release (k # ks)" "map_of (x_bs x) k = Some b" "distinct (k # ks)"
    "holds (x\<lparr>x_pc := Release ks\<rparr>) a"
  shows "a \<noteq> b \<and> holds x a"
proof -
  obtain k' where k': "(k', a) \<in> set (x_bs x)" "k' \<in> set ks" using assms(6) by (auto simp: holds_def)
  then have "bound s k' a" "bound s k b"
    using assms(2) map_of_SomeD [OF assms(4)] unfolding bound_def by blast+
  with assms(1) have "a = b \<Longrightarrow> k' = k" unfolding alloc_inv_def by blast
  with k' assms(3,5) show ?thesis by (auto simp: holds_def)
qed

lemma tx_step_locks:
  assumes step: "tx_step i s s'" and inv: "lock_inv s" "alloc_inv s" "tx_ok r (t_tx s i)"
  shows "lock_inv s'"
  using step
proof cases
  case (acquire x k ks b)
  have d: "distinct (map fst (x_bs x))" using inv(3) acquire by (simp add: tx_ok_def)
  note h = holds_acquire [OF acquire(3,4) d]
  show ?thesis
    unfolding lock_inv_def acquire(1)
  proof (intro allI impI)
    fix j a assume "holds (t_tx (set_tx i (x\<lparr>x_pc := Acquire ks\<rparr>) (s\<lparr>t_lock := (t_lock s)(b \<mapsto> i)\<rparr>)) j) a"
    then have "j = i \<and> a = b \<or> holds (t_tx s j) a" using h acquire(2) by (auto split: if_splits)
    with inv(1) acquire(5) show "t_lock (set_tx i (x\<lparr>x_pc := Acquire ks\<rparr>) (s\<lparr>t_lock := (t_lock s)(b \<mapsto> i)\<rparr>)) a = Some j"
      by (auto simp: lock_inv_def)
  qed
next
  case (release x k ks b)
  have d: "distinct (k # ks)" using inv(3) release by (simp add: tx_ok_def)
  note h = holds_release [OF inv(2) release(2-4) d]
  have "holds x b" using release(3) map_of_SomeD [OF release(4)] by (auto simp: holds_def)
  with inv(1) release(2) have b: "t_lock s b = Some i" by (auto simp: lock_inv_def)
  show ?thesis
    unfolding lock_inv_def release(1)
  proof (intro allI impI)
    fix j a assume a: "holds (t_tx (set_tx i (x\<lparr>x_pc := Release ks\<rparr>) (s\<lparr>t_lock := (t_lock s)(b := None)\<rparr>)) j) a"
    then have "holds (t_tx s j) a" "j = i \<Longrightarrow> a \<noteq> b" using h release(2) by (auto split: if_splits)
    with inv(1) b show "t_lock (set_tx i (x\<lparr>x_pc := Release ks\<rparr>) (s\<lparr>t_lock := (t_lock s)(b := None)\<rparr>)) a = Some j"
      by (fastforce simp: lock_inv_def)
  qed
qed (use inv(1) in \<open>auto intro!: lock_inv_keep simp: holds_def\<close>)

lemma held_by_one:
  "lock_inv s \<Longrightarrow> holds (t_tx s i) b \<Longrightarrow> holds (t_tx s j) b \<Longrightarrow> i = j"
  by (metis lock_inv_def option.inject)

text \<open>A transaction starts only after the one before it in its call.\<close>

definition after_inv :: "tx_sys \<Rightarrow> bool" where
  "after_inv s \<longleftrightarrow> (\<forall>i j. x_pc (t_tx s i) \<noteq> Waiting \<longrightarrow> x_after (t_tx s i) = Some j \<longrightarrow> x_pc (t_tx s j) = Release [])"

lemma tx_step_facts:
  assumes "tx_step i s s'"
  shows "x_after (t_tx s' j) = x_after (t_tx s j)" "x_pc (t_tx s i) \<noteq> Release []"
    "x_pc (t_tx s i) = Waiting \<Longrightarrow> ready s (t_tx s i)"
  using assms by (auto elim!: tx_step.cases)

lemma tx_step_after:
  assumes "tx_step i s s'" "after_inv s"
  shows "after_inv s'"
  unfolding after_inv_def
proof (intro allI impI)
  fix m j assume m: "x_pc (t_tx s' m) \<noteq> Waiting" "x_after (t_tx s' m) = Some j"
  note facts = tx_step_facts [OF assms(1)]
  have "x_pc (t_tx s j) = Release []"
  proof (cases "x_pc (t_tx s m) = Waiting")
    case True
    with m tx_step_other [OF assms(1)] have "m = i" by metis
    with True facts(1,3) m(2) show ?thesis by (simp add: ready_def)
  next
    case False
    with assms(2) facts(1) m(2) show ?thesis by (simp add: after_inv_def)
  qed
  with facts(2) tx_step_other [OF assms(1)] show "x_pc (t_tx s' j) = Release []" by metis
qed

definition sys_inv :: "(nat \<Rightarrow> int64 \<times> request_entry list \<times> nat option) \<Rightarrow> tx_sys \<Rightarrow> bool" where
  "sys_inv reqs s \<longleftrightarrow> alloc_inv s \<and> lock_inv s \<and> after_inv s \<and> (\<forall>i. tx_ok (reqs i) (t_tx s i))"

lemma sys_inv_start:
  assumes "store_inv st" "\<forall>i. one_part (fst (snd (reqs i)))"
  shows "sys_inv reqs (start_sys st reqs)"
  using assms
  by (auto simp: sys_inv_def alloc_inv_def bound_def lock_inv_def after_inv_def tx_ok_def holds_def
      start_sys_def start_tx_def store_inv_def)

lemma sys_step_inv:
  assumes "sys_step s s'" "sys_inv reqs s"
  shows "sys_inv reqs s'"
proof -
  note alloc = sys_step_alloc [OF assms(1)]
  show ?thesis using assms(1)
  proof cases
    case (tx i)
    have "tx_ok (reqs j) (t_tx s' j)" for j
      using tx_step_ok [OF tx] tx_step_other [OF tx] assms(2) by (cases "j = i") (auto simp: sys_inv_def)
    moreover have "lock_inv s'"
      using assms(2) tx_step_locks [OF tx] unfolding sys_inv_def by blast
    ultimately show ?thesis
      using alloc tx_step_after [OF tx] assms(2) by (simp add: sys_inv_def)
  next
    case (rotate j)
    have "lock_inv s' = lock_inv s" "after_inv s' = after_inv s" "t_tx s' = t_tx s"
      by (simp_all add: rotate(1) after_inv_def)
    with alloc assms(2) show ?thesis by (auto simp: sys_inv_def)
  qed
qed

end
