(* ===== verification/SerialHeap.thy ===== *)
theory SerialHeap
  imports Transactions
begin

text \<open>
  The transactions of \<open>Transactions\<close> are serializable on the buckets: a transaction takes its place in
  the order when it checks its entries, with all its buckets locked and read. The invariant compares
  the buckets with the heap of the serial run, up to the writes that are still under way.
\<close>

section \<open>The serial order\<close>

text \<open>What a heap of buckets shows a transaction, and what is left of the heap after it.\<close>

definition view :: "(addr \<Rightarrow> int64) \<Rightarrow> (string \<times> addr) list \<Rightarrow> string \<Rightarrow> int64" where
  "view h bs k = (case map_of bs k of None \<Rightarrow> 0 | Some b \<Rightarrow> h b)"

definition put :: "(string \<times> addr) list \<Rightarrow> (string \<Rightarrow> int64) \<Rightarrow> (addr \<Rightarrow> int64) \<Rightarrow> addr \<Rightarrow> int64" where
  "put bs tat h b = (case map_of (map prod.swap bs) b of None \<Rightarrow> h b | Some k \<Rightarrow> tat k)"

definition tx_spec :: "tx \<Rightarrow> (addr \<Rightarrow> int64) \<Rightarrow> (string \<Rightarrow> int64) \<times> response_entry list" where
  "tx_spec x h = spec_throttle (x_now x) (view h (x_bs x)) (x_entries x)"

definition tx_heap :: "tx \<Rightarrow> (addr \<Rightarrow> int64) \<Rightarrow> addr \<Rightarrow> int64" where
  "tx_heap x h = put (x_bs x) (fst (tx_spec x h)) h"

lemma tx_spec_vars [simp]:
  "tx_spec (x\<lparr>x_pc := p, x_work := w, x_res := r\<rparr>) = tx_spec x"
  "tx_heap (x\<lparr>x_pc := p, x_work := w, x_res := r\<rparr>) = tx_heap x"
  by (simp_all add: fun_eq_iff tx_spec_def tx_heap_def)

definition serial_heap :: "(nat \<Rightarrow> tx) \<Rightarrow> (addr \<Rightarrow> int64) \<Rightarrow> nat list \<Rightarrow> addr \<Rightarrow> int64" where
  "serial_heap T h log = foldl (\<lambda>h i. tx_heap (T i) h) h log"

fun serial_answers :: "(nat \<Rightarrow> tx) \<Rightarrow> (addr \<Rightarrow> int64) \<Rightarrow> nat list \<Rightarrow> response_entry list list" where
  "serial_answers T h [] = []"
| "serial_answers T h (i # log) = snd (tx_spec (T i) h) # serial_answers T (tx_heap (T i) h) log"

lemma serial_heap_simps [simp]:
  "serial_heap T h [] = h"
  "serial_heap T h (i # log) = serial_heap T (tx_heap (T i) h) log"
  "serial_heap T h (log @ [i]) = tx_heap (T i) (serial_heap T h log)"
  by (simp_all add: serial_heap_def)

lemma serial_answers_snoc [simp]:
  "serial_answers T h (log @ [i]) = serial_answers T h log @ [snd (tx_spec (T i) (serial_heap T h log))]"
  by (induction log arbitrary: h) simp_all

text \<open>The serial run depends on what the transactions were asked and which buckets they collected.\<close>

definition same_tx :: "tx \<Rightarrow> tx \<Rightarrow> bool" where
  "same_tx x y \<longleftrightarrow> x_now x = x_now y \<and> x_entries x = x_entries y \<and> x_bs x = x_bs y \<and> x_res x = x_res y"

lemma serial_cong:
  assumes "\<forall>i \<in> set log. same_tx (T i) (T' i)"
  shows "serial_heap T h log = serial_heap T' h log" "serial_answers T h log = serial_answers T' h log"
    "map (\<lambda>i. x_res (T i)) log = map (\<lambda>i. x_res (T' i)) log"
  using assms
  by (induction log arbitrary: h) (simp_all add: same_tx_def tx_heap_def tx_spec_def)

lemma view_in:
  assumes "distinct (map fst bs)" "(k, b) \<in> set bs"
  shows "view h bs k = h b"
  using assms by (simp add: view_def)

lemma view_out: "k \<notin> fst ` set bs \<Longrightarrow> view h bs k = 0"
  by (simp add: view_def map_of_eq_None_iff [THEN iffD2])

lemma view_cong: "(\<And>k b. (k, b) \<in> set bs \<Longrightarrow> h b = h' b) \<Longrightarrow> view h bs = view h' bs"
  by (auto simp: view_def fun_eq_iff dest: map_of_SomeD split: option.split)

lemma put_in:
  assumes "(k, b) \<in> set bs" "\<And>k'. (k', b) \<in> set bs \<Longrightarrow> k' = k"
  shows "put bs tat h b = tat k"
proof (cases "map_of (map prod.swap bs) b")
  case None
  with assms(1) show ?thesis by (force simp: map_of_eq_None_iff)
next
  case (Some k')
  with assms(2) have "k' = k" by (auto dest!: map_of_SomeD)
  with Some show ?thesis by (simp add: put_def)
qed

lemma put_out: "b \<notin> snd ` set bs \<Longrightarrow> put bs tat h b = h b"
  by (force simp: put_def dest!: map_of_SomeD split: option.split)

text \<open>The checks of a transaction answer what \<open>Throttle\<close> promises on the TATs it has read.\<close>

lemma tx_check_spec:
  assumes "one_part (x_entries x)"
  shows "\<exists>writes work. tx_check x = Some (writes, work, snd (spec_throttle (x_now x) (x_work x) (x_entries x)))
    \<and> (if writes then work else x_work x) = fst (spec_throttle (x_now x) (x_work x) (x_entries x))"
proof (cases "list_ex q_Peek (x_entries x)")
  case True
  with assms obtain e where e: "x_entries x = [e]" "q_Peek e"
    by (auto simp: one_part_def list_all_iff list_ex_iff length_Suc_conv)
  then have "tx_check x = Some (False, x_work x, snd (spec_throttle (x_now x) (x_work x) (x_entries x)))"
    "x_work x = fst (spec_throttle (x_now x) (x_work x) (x_entries x))"
    by (simp_all add: tx_check_def check_entry_chk spec_throttle_def respond_def)
  then show ?thesis by metis
next
  case False
  then have real: "\<forall>e \<in> set (x_entries x). \<not> q_Peek e" by (simp add: list_ex_iff)
  then have "real_indices (x_entries x) 0 = [0..<length (x_entries x)]"
    "map (peek_fill (x_now x) (x_work x)) (x_entries x) = map (\<lambda>e. zero_response\<lparr>s_Key := q_Key e\<rparr>) (x_entries x)"
    by (simp_all add: real_indices_def peek_fill_def)
  with group_loop_effect [of "[]" "[]" "x_entries x" "x_now x" True "x_work x" "x_work x"] False
  show ?thesis
    by (auto simp: tx_check_def spec_throttle_def case_prod_beta Let_def)
qed

text \<open>The contents of a bucket, zero before it is made.\<close>

definition cell :: "store \<Rightarrow> addr \<Rightarrow> int64" where
  "cell st b = (if b < length (heap st) then heap st ! b else 0)"

lemma cell_get: "store_get st k = Some (b, st') \<Longrightarrow> store_inv st \<Longrightarrow> cell st' = cell st"
  using store_get_addr(2) [of st k b st']
  by (auto simp: cell_def fun_eq_iff nth_append split: option.splits)

lemma cell_write: "b < length (heap st) \<Longrightarrow> cell (write_tat st b v) = (cell st)(b := v)"
  by (auto simp: cell_def fun_eq_iff)

text \<open>A transaction that has decided holds its place in the serial order; it may still have to write.\<close>

definition decided :: "tx \<Rightarrow> bool" where
  "decided x \<longleftrightarrow> (case x_pc x of Save _ \<Rightarrow> True | Release _ \<Rightarrow> True | _ \<Rightarrow> False)"

definition pends :: "tx \<Rightarrow> addr \<Rightarrow> bool" where
  "pends x b \<longleftrightarrow> (\<exists>todo. x_pc x = Save todo \<and> b \<in> snd ` set todo)"

definition pending :: "tx_sys \<Rightarrow> addr \<Rightarrow> bool" where
  "pending s b \<longleftrightarrow> (\<exists>i. pends (t_tx s i) b)"

text \<open>
  How the buckets stand to the heap of the serial run: a bucket has its value there unless a write to
  it is pending, in which case the writer has that value; and what a transaction has read is what the
  serial heap holds.
\<close>

definition loaded :: "tx \<Rightarrow> (addr \<Rightarrow> int64) \<Rightarrow> bool" where
  "loaded x h \<longleftrightarrow> (\<forall>todo. x_pc x = Load todo \<longrightarrow>
     x_work x = (\<lambda>k. if k \<in> fst ` set todo then 0 else view h (x_bs x) k))"

definition saving :: "tx \<Rightarrow> (addr \<Rightarrow> int64) \<Rightarrow> bool" where
  "saving x h \<longleftrightarrow> (\<forall>todo k b. x_pc x = Save todo \<longrightarrow> (k, b) \<in> set todo \<longrightarrow> h b = x_work x k)"

definition heap_inv :: "tx_sys \<Rightarrow> (addr \<Rightarrow> int64) \<Rightarrow> bool" where
  "heap_inv s h \<longleftrightarrow> (\<forall>i. loaded (t_tx s i) h) \<and> (\<forall>i. saving (t_tx s i) h)
   \<and> (\<forall>b. \<not> pending s b \<longrightarrow> h b = cell (t_store s) b)"

lemma sys_inv_tx:
  assumes "sys_inv reqs s"
  shows "distinct (map fst (x_bs (t_tx s i)))" "one_part (x_entries (t_tx s i))"
    "pc_ok (x_pc (t_tx s i)) (q_Key ` set (x_entries (t_tx s i))) (x_bs (t_tx s i))"
    "(x_now (t_tx s i), x_entries (t_tx s i), x_after (t_tx s i)) = reqs i"
  using assms by (simp_all add: sys_inv_def tx_ok_def)

lemma working_holds:
  assumes "x_pc x = Load todo \<or> x_pc x = Save todo" "(k, b) \<in> set (x_bs x)"
  shows "holds x b"
proof -
  have "k \<in> fst ` set (x_bs x)" using assms(2) by (rule rev_image_eqI) simp
  with assms show ?thesis unfolding holds_def by (metis held_keys.simps(2,3))
qed

lemma pends_holds: "sys_inv reqs s \<Longrightarrow> pends (t_tx s i) b \<Longrightarrow> holds (t_tx s i) b"
  using sys_inv_tx(3) [of reqs s i] by (fastforce simp: pends_def intro: working_holds)

lemma not_pending:
  assumes "sys_inv reqs s" "holds (t_tx s i) b" "\<not> pends (t_tx s i) b"
  shows "\<not> pending s b"
proof
  assume "pending s b"
  then obtain j where j: "pends (t_tx s j) b" by (auto simp: pending_def)
  have "lock_inv s" using assms(1) by (simp add: sys_inv_def)
  from held_by_one [OF this assms(2) pends_holds [OF assms(1) j]] assms(3) j show False by simp
qed

lemma pending_update:
  assumes "t_tx s' = (t_tx s)(i := x)" "pends x b = pends (t_tx s i) b"
  shows "pending s' b = pending s b"
  using assms by (auto simp: pending_def)

text \<open>A step that neither loads, checks nor saves.\<close>

lemma heap_inv_keep:
  assumes "heap_inv s h" "loaded x h" "\<forall>todo. x_pc x \<noteq> Save todo"
    and "x_pc (t_tx s i) = Save [] \<or> (\<forall>todo. x_pc (t_tx s i) \<noteq> Save todo)" "cell (t_store s') = cell (t_store s)"
    and "t_tx s' = (t_tx s)(i := x)"
  shows "heap_inv s' h"
proof -
  have "pending s' b = pending s b" for b
    using assms(3,4) by (intro pending_update [OF assms(6)]) (auto simp: pends_def)
  moreover have "saving x h" using assms(3) by (simp add: saving_def)
  ultimately show ?thesis using assms by (auto simp: heap_inv_def)
qed

lemma heap_inv_load:
  assumes inv: "sys_inv reqs s" and hi: "heap_inv s h" and x: "t_tx s i = x" "x_pc x = Load todo" "(k, b) \<in> set todo"
  shows "heap_inv (set_tx i (x\<lparr>x_pc := Load (removeAll (k, b) todo),
      x_work := (x_work x)(k := read_tat (t_store s) b)\<rparr>) s) h"
proof (rule heap_inv_keep [OF hi])
  have ok: "distinct (map fst (x_bs x))" "set todo \<subseteq> set (x_bs x)"
    using sys_inv_tx(1,3) [OF inv, of i] x(1,2) by simp_all
  then have kb: "(k, b) \<in> set (x_bs x)" using x(3) by blast
  then have "bound s k b" using x(1) by (auto simp: bound_def)
  then have "b < length (heap (t_store s))" using inv by (auto simp: sys_inv_def alloc_inv_def)
  moreover have "\<not> pending s b"
    using not_pending [OF inv, of i b] working_holds [OF _ kb] x(1,2) by (simp add: pends_def)
  ultimately have "read_tat (t_store s) b = view h (x_bs x) k"
    using hi view_in [OF ok(1) kb] by (simp add: heap_inv_def cell_def read_tat_def)
  moreover have "k \<notin> fst ` set (removeAll (k, b) todo)"
    using eq_key_imp_eq_value [OF ok(1) kb] ok(2) by auto
  moreover have "k' \<in> fst ` set (removeAll (k, b) todo) \<longleftrightarrow> k' \<in> fst ` set todo" if "k' \<noteq> k" for k'
    using that by force
  moreover have "x_work x = (\<lambda>k. if k \<in> fst ` set todo then 0 else view h (x_bs x) k)"
    using hi x(1,2) by (auto simp: heap_inv_def loaded_def)
  ultimately show "loaded (x\<lparr>x_pc := Load (removeAll (k, b) todo),
      x_work := (x_work x)(k := read_tat (t_store s) b)\<rparr>) h"
    by (auto simp: loaded_def fun_eq_iff)
qed (use x in simp_all)

lemma bucket_key:
  assumes "sys_inv reqs s" "(k, b) \<in> set (x_bs (t_tx s i))" "(k', b) \<in> set (x_bs (t_tx s i))"
  shows "k' = k"
proof -
  have "bound s k b" "bound s k' b" using assms(2,3) by (auto simp: bound_def)
  with assms(1) show ?thesis unfolding sys_inv_def alloc_inv_def by blast
qed

lemma heap_inv_save:
  assumes inv: "sys_inv reqs s" and hi: "heap_inv s h" and x: "t_tx s i = x" "x_pc x = Save todo" "(k, b) \<in> set todo"
  shows "heap_inv (set_tx i (x\<lparr>x_pc := Save (removeAll (k, b) todo)\<rparr>)
      (s\<lparr>t_store := write_tat (t_store s) b (x_work x k)\<rparr>)) h"
    (is "heap_inv ?s h")
proof -
  have bs: "set todo \<subseteq> set (x_bs x)" using sys_inv_tx(3) [OF inv, of i] x(1,2) by simp
  then have kb: "(k, b) \<in> set (x_bs x)" using x(3) by blast
  then have "bound s k b" using x(1) by (auto simp: bound_def)
  then have alloc: "b < length (heap (t_store s))" using inv by (auto simp: sys_inv_def alloc_inv_def)
  have sv: "saving x h" using hi x(1) by (auto simp: heap_inv_def)
  then have "saving (x\<lparr>x_pc := Save (removeAll (k, b) todo)\<rparr>) h" using x(2) by (simp add: saving_def)
  moreover have "loaded (x\<lparr>x_pc := Save (removeAll (k, b) todo)\<rparr>) h" by (simp add: loaded_def)
  moreover have "h a = cell (t_store ?s) a" if "\<not> pending ?s a" for a
  proof (cases "a = b")
    case True
    with sv x(2,3) alloc show ?thesis by (auto simp: saving_def cell_write)
  next
    case False
    then have "pends (x\<lparr>x_pc := Save (removeAll (k, b) todo)\<rparr>) a = pends x a"
      using x(2) by (auto simp: pends_def image_iff)
    then have "pending ?s a = pending s a" using x(1)
      by (intro pending_update [of _ _ i "x\<lparr>x_pc := Save (removeAll (k, b) todo)\<rparr>"]) simp_all
    with that hi False alloc show ?thesis by (simp add: heap_inv_def cell_write)
  qed
  ultimately show ?thesis using hi x(1) by (auto simp: heap_inv_def)
qed

text \<open>What a transaction does to the serial heap is seen by no other that holds its buckets.\<close>

lemma tx_heap_other:
  assumes "b \<notin> snd ` set (x_bs x)"
  shows "tx_heap x h b = h b"
  using assms by (simp add: tx_heap_def put_out)

lemma heap_inv_set:
  assumes "\<And>j. j \<noteq> i \<Longrightarrow> loaded (t_tx s j) h" "\<And>j. j \<noteq> i \<Longrightarrow> saving (t_tx s j) h"
    and "loaded y h" "saving y h" "\<And>b. \<not> pending (set_tx i y s) b \<Longrightarrow> h b = cell (t_store s) b"
  shows "heap_inv (set_tx i y s) h"
  using assms by (simp add: heap_inv_def)

lemma heap_inv_check:
  assumes inv: "sys_inv reqs s" and hi: "heap_inv s h" and x: "t_tx s i = x" "x_pc x = Load []"
    and chk: "tx_check x = Some (writes, work, res)"
  shows "res = snd (tx_spec x h)"
    and "heap_inv (set_tx i (x\<lparr>x_pc := (if writes then Save (x_bs x) else Release (lock_order (x_bs x))),
      x_work := work, x_res := res\<rparr>) s) (tx_heap x h)"
      (is "heap_inv ?s _")
proof -
  let ?y = "x\<lparr>x_pc := (if writes then Save (x_bs x) else Release (lock_order (x_bs x))), x_work := work, x_res := res\<rparr>"
  have view: "x_work x = view h (x_bs x)"
    using hi x by (auto simp: heap_inv_def loaded_def)
  have one: "one_part (x_entries x)" using sys_inv_tx(2) [OF inv, of i] x(1) by simp
  have checked: "res = snd (tx_spec x h)" "(if writes then work else x_work x) = fst (tx_spec x h)"
    using tx_check_spec [OF one] chk by (simp_all add: tx_spec_def view)
  show "res = snd (tx_spec x h)" by (rule checked)
  have dist: "distinct (map fst (x_bs x))" using sys_inv_tx(1) [OF inv, of i] x(1) by simp
  have own: "tx_heap x h b = fst (tx_spec x h) k" if "(k, b) \<in> set (x_bs x)" for k b
    unfolding tx_heap_def
    using bucket_key [OF inv, of k b i, unfolded x(1), OF that] by (rule put_in [OF that])
  have held: "holds x b" if "b \<in> snd ` set (x_bs x)" for b
    using that working_holds [of x "[]"] x(2) by auto
  have other: "tx_heap x h b = h b" if "holds (t_tx s j) b" "j \<noteq> i" for b j
  proof (rule tx_heap_other, rule notI)
    assume "b \<in> snd ` set (x_bs x)"
    with held x(1) have "holds (t_tx s i) b" by simp
    with that inv show False using held_by_one unfolding sys_inv_def by blast
  qed
  have "loaded (t_tx s j) (tx_heap x h)" if "j \<noteq> i" for j
  proof -
    have "view (tx_heap x h) (x_bs (t_tx s j)) = view h (x_bs (t_tx s j))" if "x_pc (t_tx s j) = Load todo" for todo
      using other [OF working_holds \<open>j \<noteq> i\<close>] that by (intro view_cong) blast
    with hi show ?thesis by (auto simp: heap_inv_def loaded_def)
  qed
  moreover have "saving (t_tx s j) (tx_heap x h)" if "j \<noteq> i" for j
    unfolding saving_def
  proof (intro allI impI)
    fix todo k b assume t: "x_pc (t_tx s j) = Save todo" "(k, b) \<in> set todo"
    then have "pends (t_tx s j) b" by (force simp: pends_def)
    with other [OF pends_holds [OF inv] that] t hi show "tx_heap x h b = x_work (t_tx s j) k"
      by (auto simp: heap_inv_def saving_def)
  qed
  moreover have "loaded ?y (tx_heap x h)" by (simp add: loaded_def)
  moreover have "saving ?y (tx_heap x h)"
    using own checked(2) by (auto simp: saving_def)
  moreover have "tx_heap x h b = cell (t_store s) b" if "\<not> pending ?s b" for b
  proof -
    have "pends ?y b \<or> \<not> pends x b" using x(2) by (simp add: pends_def)
    with that x(1) have np: "\<not> pending s b" by (auto simp: pending_def split: if_splits)
    then have "h b = cell (t_store s) b" using hi by (simp add: heap_inv_def)
    moreover have "tx_heap x h b = h b"
    proof (cases "b \<in> snd ` set (x_bs x)")
      case True
      then obtain k where k: "(k, b) \<in> set (x_bs x)" by auto
      have "\<forall>j. \<not> pends (t_tx ?s j) b" using that by (simp add: pending_def)
      from spec [OF this, of i] have "\<not> pends ?y b" by simp
      then have "\<not> writes" using True by (auto simp: pends_def)
      with own [OF k] checked(2) view have "tx_heap x h b = view h (x_bs x) k" by simp
      with view_in [OF dist k] show ?thesis by simp
    qed (rule tx_heap_other)
    ultimately show ?thesis by simp
  qed
  ultimately show "heap_inv ?s (tx_heap x h)" by (rule heap_inv_set)
qed

section \<open>Serializability\<close>

definition in_order :: "(nat \<Rightarrow> nat option) \<Rightarrow> nat list \<Rightarrow> bool" where
  "in_order after log \<longleftrightarrow> (\<forall>n < length log. \<forall>j. after (log ! n) = Some j \<longrightarrow> j \<in> set (take n log))"

lemma in_order_snoc:
  "in_order after log \<Longrightarrow> (\<And>j. after i = Some j \<Longrightarrow> j \<in> set log) \<Longrightarrow> in_order after (log @ [i])"
  by (auto simp: in_order_def nth_append less_Suc_eq)

definition serial_inv ::
  "store \<Rightarrow> (nat \<Rightarrow> int64 \<times> request_entry list \<times> nat option) \<Rightarrow> tx_sys \<Rightarrow> nat list \<Rightarrow> bool" where
  "serial_inv st reqs s log \<longleftrightarrow> distinct log \<and> (\<forall>i. i \<in> set log \<longleftrightarrow> decided (t_tx s i))
   \<and> map (\<lambda>i. x_res (t_tx s i)) log = serial_answers (t_tx s) (cell st) log
   \<and> heap_inv s (serial_heap (t_tx s) (cell st) log)
   \<and> in_order (\<lambda>i. snd (snd (reqs i))) log"

lemma serial_inv_keep:
  assumes "serial_inv st reqs s log" "heap_inv s' (serial_heap (t_tx s) (cell st) log)"
    and "\<And>j. decided (t_tx s' j) = decided (t_tx s j)"
    and "\<And>j. decided (t_tx s j) \<Longrightarrow> same_tx (t_tx s j) (t_tx s' j)"
  shows "serial_inv st reqs s' log"
proof -
  have "\<forall>j \<in> set log. same_tx (t_tx s j) (t_tx s' j)" using assms(1,4) by (simp add: serial_inv_def)
  note cong = serial_cong [OF this]
  from assms(1-3) show ?thesis unfolding serial_inv_def cong by simp
qed

lemma serial_inv_check:
  assumes ser: "serial_inv st reqs s log" and inv: "sys_inv reqs s" and x: "t_tx s i = x" "x_pc x = Load []"
    and chk: "tx_check x = Some (writes, work, res)"
  shows "serial_inv st reqs (set_tx i (x\<lparr>x_pc := (if writes then Save (x_bs x) else Release (lock_order (x_bs x))),
      x_work := work, x_res := res\<rparr>) s) (log @ [i])"
    (is "serial_inv _ _ ?s _")
proof -
  let ?h = "serial_heap (t_tx s) (cell st) log"
  let ?y = "x\<lparr>x_pc := (if writes then Save (x_bs x) else Release (lock_order (x_bs x))), x_work := work, x_res := res\<rparr>"
  define T where "T = (t_tx s)(i := ?y)"
  have T: "t_tx ?s = T" "T i = ?y" by (simp_all add: T_def)
  have i: "i \<notin> set log" using ser x by (simp add: serial_inv_def decided_def)
  then have "\<forall>j \<in> set log. same_tx (t_tx s j) (T j)" by (auto simp: T_def same_tx_def)
  note cong = serial_cong [OF this]
  have "heap_inv s ?h" using ser by (simp add: serial_inv_def)
  note c = heap_inv_check [OF inv this x chk]
  have "serial_heap T (cell st) (log @ [i]) = tx_heap x ?h"
    by (simp add: cong(1) [symmetric] T(2))
  moreover have "map (\<lambda>j. x_res (T j)) (log @ [i]) = serial_answers T (cell st) (log @ [i])"
    using ser by (simp add: cong [symmetric] T(2) c(1) serial_inv_def)
  moreover have "j \<in> set log" if "snd (snd (reqs i)) = Some j" for j
  proof -
    have "x_after x = Some j" using that sys_inv_tx(4) [OF inv, of i] x(1) by (metis snd_conv)
    moreover have "after_inv s" using inv by (simp add: sys_inv_def)
    ultimately have "x_pc (t_tx s j) = Release []" using x unfolding after_inv_def by (metis tx_pc.distinct(5))
    with ser show ?thesis by (simp add: serial_inv_def decided_def)
  qed
  then have "in_order (\<lambda>i. snd (snd (reqs i))) (log @ [i])"
    using ser by (intro in_order_snoc) (simp_all add: serial_inv_def)
  moreover have "j \<in> set (log @ [i]) \<longleftrightarrow> decided (T j)" for j
    using ser by (auto simp: T_def serial_inv_def decided_def)
  moreover have "distinct (log @ [i])" using ser i by (simp add: serial_inv_def)
  ultimately show ?thesis
    unfolding serial_inv_def T(1) using c(2) by simp
qed

text \<open>A transaction takes its place when it checks, which is what it does with nothing left to load.\<close>

lemma tx_step_serial:
  assumes step: "tx_step i s s'" and inv: "sys_inv reqs s" and ser: "serial_inv st reqs s log"
  shows "serial_inv st reqs s' (if x_pc (t_tx s i) = Load [] then log @ [i] else log)"
proof (cases "x_pc (t_tx s i) = Load []")
  case True
  from step show ?thesis
  proof cases
    case (check x writes work res)
    show ?thesis unfolding check(1) using serial_inv_check [OF ser inv check(2-4)] True by simp
  qed (use True in auto)
next
  case False
  let ?h = "serial_heap (t_tx s) (cell st) log"
  have hi: "heap_inv s ?h" using ser by (simp add: serial_inv_def)
  have st: "store_inv (t_store s)" using inv by (simp add: sys_inv_def alloc_inv_def)
  have keep: "serial_inv st reqs s' log"
    if "heap_inv s' ?h" "decided (t_tx s' i) = decided (t_tx s i)"
      "decided (t_tx s i) \<Longrightarrow> same_tx (t_tx s i) (t_tx s' i)"
  proof -
    have "decided (t_tx s' j) = decided (t_tx s j)" "decided (t_tx s j) \<Longrightarrow> same_tx (t_tx s j) (t_tx s' j)" for j
      using that(2,3) tx_step_other [OF step, of j] by (cases "j = i"; simp add: same_tx_def)+
    with serial_inv_keep [OF ser that(1)] show ?thesis by blast
  qed
  from step have "serial_inv st reqs s' log"
  proof cases
    case (load x todo k b)
    show ?thesis
      by (rule keep) (use heap_inv_load [OF inv hi load(2-4)] load in \<open>simp_all add: decided_def\<close>)
  next
    case (check x writes work res)
    with False show ?thesis by simp
  next
    case (save x todo k b)
    show ?thesis
      by (rule keep) (use heap_inv_save [OF inv hi save(2-4)] save in \<open>simp_all add: decided_def same_tx_def\<close>)
  next
    case (collect x k ks b st')
    show ?thesis
      by (rule keep; (rule heap_inv_keep [OF hi])?)
        (use collect cell_get [OF collect(5) st] in \<open>simp_all add: decided_def loaded_def\<close>)
  next
    case (acquired_all x)
    show ?thesis
      by (rule keep; (rule heap_inv_keep [OF hi])?)
        (use acquired_all view_out in \<open>auto simp: decided_def loaded_def fun_eq_iff\<close>)
  qed (rule keep; (rule heap_inv_keep [OF hi])?; force simp: decided_def loaded_def same_tx_def)+
  with False show ?thesis by simp
qed

lemma heap_inv_cong:
  "heap_inv s h \<Longrightarrow> t_tx s' = t_tx s \<Longrightarrow> cell (t_store s') = cell (t_store s) \<Longrightarrow> heap_inv s' h"
  by (simp add: heap_inv_def pending_def)

lemma rotate_serial:
  "serial_inv st reqs s log \<Longrightarrow> serial_inv st reqs (s\<lparr>t_store := rotate_nth (t_store s) j\<rparr>) log"
proof -
  assume ser: "serial_inv st reqs s log"
  have "cell (rotate_nth (t_store s) j) = cell (t_store s)" by (simp add: cell_def fun_eq_iff)
  then have "heap_inv (s\<lparr>t_store := rotate_nth (t_store s) j\<rparr>) h" if "heap_inv s h" for h
    using that by (intro heap_inv_cong [OF that]) simp_all
  with ser show ?thesis by (simp add: serial_inv_def)
qed

lemma sys_step_serial:
  assumes "sys_step s s'" "sys_inv reqs s" "serial_inv st reqs s log"
  shows "\<exists>log. serial_inv st reqs s' log"
  using assms(1)
proof cases
  case (tx i)
  with assms(2,3) show ?thesis by (blast intro: tx_step_serial)
qed (use rotate_serial [OF assms(3)] in blast)

lemma serial_inv_start:
  "store_inv st \<Longrightarrow> serial_inv st reqs (start_sys st reqs) []"
  by (simp add: serial_inv_def decided_def heap_inv_def loaded_def saving_def in_order_def start_sys_def
      start_tx_def)

end
