(* ===== verification/Serializability.thy ===== *)
theory Serializability
  imports SerialHeap
begin

text \<open>
  Concurrent calls of \<open>Throttle\<close> amount to calls made one after the other: the serial run of
  \<open>SerialHeap\<close>, traded from buckets to keys, is a sequence of \<open>Throttle\<close> calls, as long as the GC has
  not let go of a bucket in use; and what happens when it has.
\<close>

section \<open>From buckets to keys\<close>

text \<open>
  The GC lets go of a bucket that nobody has asked for during a whole interval, even if a transaction
  asked before and still has it. \<open>kept_buckets\<close> says it did not happen to a bucket these transactions
  use: each is still the key's bucket.
\<close>

definition kept_buckets :: "tx_sys \<Rightarrow> bool" where
  "kept_buckets s \<longleftrightarrow> (\<forall>i. \<forall>(k, b) \<in> set (x_bs (t_tx s i)). bucket_addr (t_store s) k = Some b)"

text \<open>
  What the GC may drop is a bucket of the start that nobody has asked for yet: its key starts afresh.
\<close>

definition start_tats :: "store \<Rightarrow> tx_sys \<Rightarrow> string \<Rightarrow> int64" where
  "start_tats st s k = (if bucket_addr (t_store s) k = bucket_addr st k then tat_of st k else 0)"

definition fresh_inv :: "store \<Rightarrow> tx_sys \<Rightarrow> bool" where
  "fresh_inv st s \<longleftrightarrow> length (heap st) \<le> length (heap (t_store s))
   \<and> (\<forall>k b. bound s k b \<longrightarrow> bucket_addr st k = Some b \<or> length (heap st) \<le> b)"

lemma fresh_inv_mono:
  assumes "fresh_inv st s" "length (heap (t_store s)) \<le> length (heap (t_store s'))"
    and "\<And>k b. bound s' k b \<Longrightarrow> bound s k b \<or> length (heap (t_store s)) \<le> b"
  shows "fresh_inv st s'"
  using assms unfolding fresh_inv_def by (meson le_trans)

lemma sys_step_fresh:
  assumes "sys_step s s'" "store_inv (t_store s)" "fresh_inv st s"
  shows "fresh_inv st s'"
  using assms(1)
proof cases
  case (rotate j)
  have "bound s k b" if "bound s' k b" for k b
    using that bucket_addr_rotate_nth [of "t_store s" j k b] by (auto simp: bound_def rotate(1))
  with rotate(1) show ?thesis by (intro fresh_inv_mono [OF assms(3)]) simp_all
next
  case (tx i)
  then show ?thesis
  proof cases
    case (collect x k ks b st')
    note addr = store_get_addr [OF collect(5) assms(2)]
    have "length (heap (t_store s)) \<le> length (heap st')"
      using addr(2) by (auto split: option.splits)
    moreover have "bound s k' b' \<or> length (heap (t_store s)) \<le> b'" if "bound s' k' b'" for k' b'
    proof -
      from that have "bound s k' b' \<or> k' = k \<and> b' = b"
        using collect(2) unfolding bound_def collect(1) by (auto simp: addr(1) split: if_splits)
      with addr(2) show ?thesis by (auto simp: bound_def split: option.splits)
    qed
    ultimately show ?thesis by (intro fresh_inv_mono [OF assms(3)]) (simp_all add: collect(1))
  qed (use assms(3) in \<open>simp_all add: fresh_inv_def\<close>)
qed

lemma reachable_invs:
  assumes "store_inv st" "\<forall>i. one_part (fst (snd (reqs i)))" "sys_step\<^sup>*\<^sup>* (start_sys st reqs) s"
  shows "sys_inv reqs s \<and> fresh_inv st s \<and> (\<exists>log. serial_inv st reqs s log)"
  using assms(3)
proof induction
  case base
  show ?case
    using sys_inv_start [OF assms(1,2)] serial_inv_start [OF assms(1)]
    by (auto simp: fresh_inv_def bound_def start_sys_def start_tx_def)
next
  case (step s s')
  then have "store_inv (t_store s)" by (simp add: sys_inv_def alloc_inv_def)
  with step show ?case
    using sys_step_inv sys_step_fresh sys_step_serial by blast
qed

section \<open>One turn of the GC\<close>

text \<open>
  Runs in which no stripe is rotated twice, which is all a turn of the GC loop does, with the stripes
  that have been. In such a run nothing is let go of.
\<close>

inductive turn_step :: "nat set \<times> tx_sys \<Rightarrow> nat set \<times> tx_sys \<Rightarrow> bool" where
  tx: "tx_step i s s' \<Longrightarrow> turn_step (R, s) (R, s')"
| rotate: "j < length (stripes (t_store s)) \<Longrightarrow> j \<notin> R \<Longrightarrow>
    turn_step (R, s) (insert j R, s\<lparr>t_store := rotate_nth (t_store s) j\<rparr>)"

lemma turn_step_sys: "turn_step x y \<Longrightarrow> sys_step (snd x) (snd y)"
  by (erule turn_step.cases) (auto intro: sys_step.intros)

definition turn_inv :: "nat set \<times> tx_sys \<Rightarrow> bool" where
  "turn_inv x \<longleftrightarrow> (let st = t_store (snd x) in store_inv st
   \<and> (\<forall>i. \<forall>(k, b) \<in> set (x_bs (t_tx (snd x) i)). bucket_addr st k = Some b
        \<and> (recent st k \<or> stripeFor st k \<in> Some ` fst x)))"

lemma store_get_stripeFor: "store_get st k = Some (b, st') \<Longrightarrow> stripeFor st' = stripeFor st"
  by (erule store_get_split) (rule stripeFor_cong, simp)

lemma turn_step_inv:
  assumes "turn_step x y" "turn_inv x"
  shows "turn_inv y"
  using assms(1)
proof cases
  case (rotate j s R)
  have "bucket_addr (rotate_nth (t_store s) j) k = Some b
      \<and> (recent (rotate_nth (t_store s) j) k \<or> stripeFor (t_store s) k \<in> Some ` insert j R)"
    if "(k, b) \<in> set (x_bs (t_tx s i))" for i k b
  proof -
    have k: "bucket_addr (t_store s) k = Some b" "recent (t_store s) k \<or> stripeFor (t_store s) k \<in> Some ` R"
      using assms(2) that by (auto simp: turn_inv_def rotate(1) Let_def)
    show ?thesis
    proof (cases "stripeFor (t_store s) k = Some j")
      case True
      with k rotate(4) have "recent (t_store s) k" by auto
      with k(1) True show ?thesis by (simp add: rotate_nth_recent)
    next
      case False
      with k show ?thesis by (auto simp: rotate_nth_stripe)
    qed
  qed
  moreover have "store_inv (rotate_nth (t_store s) j)"
    using assms(2) rotate(3) by (intro rotate_nth_inv) (simp_all add: turn_inv_def rotate(1) Let_def)
  ultimately show ?thesis by (auto simp: turn_inv_def rotate(2) Let_def)
next
  case (tx i s s' R)
  from tx(3) show ?thesis
  proof cases
    case (collect x k ks b st')
    have inv: "store_inv (t_store s)"
      and old: "\<And>j k b. (k, b) \<in> set (x_bs (t_tx s j)) \<Longrightarrow> bucket_addr (t_store s) k = Some b
        \<and> (recent (t_store s) k \<or> stripeFor (t_store s) k \<in> Some ` R)"
      using assms(2) by (auto simp: turn_inv_def tx(1) Let_def)
    note addr = store_get_addr [OF collect(5) inv] and recent = store_get_recent [OF collect(5)]
    have "bucket_addr st' k' = Some b' \<and> (recent st' k' \<or> stripeFor st' k' \<in> Some ` R)"
      if mem: "(k', b') \<in> set (x_bs (t_tx s' j))" for j k' b'
    proof -
      consider "k' = k" "b' = b" | j where "(k', b') \<in> set (x_bs (t_tx s j))"
        using mem collect(2) by (auto simp: collect(1) split: if_splits)
      then show ?thesis
      proof cases
        case 1
        then show ?thesis using addr(1) recent(1) by simp
      next
        case 2
        with old [OF 2] addr recent(2) show ?thesis
          by (auto simp: store_get_stripeFor [OF collect(5)] split: option.splits)
      qed
    qed
    moreover have "t_store s' = st'" by (simp add: collect(1))
    ultimately show ?thesis
      using store_get_inv [OF collect(5) inv] unfolding turn_inv_def tx(2) fst_conv snd_conv Let_def by blast
  qed (use assms(2) in \<open>auto simp: turn_inv_def tx(1,2) Let_def split: if_splits\<close>)
qed

lemma one_turn_keeps:
  assumes "turn_step\<^sup>*\<^sup>* ({}, start_sys st reqs) (R, s)" "store_inv st"
  shows "sys_step\<^sup>*\<^sup>* (start_sys st reqs) s" "kept_buckets s"
proof -
  have "turn_inv ({}, start_sys st reqs)"
    using assms(2) by (simp add: turn_inv_def start_sys_def start_tx_def)
  with assms(1) have "sys_step\<^sup>*\<^sup>* (snd ({} :: nat set, start_sys st reqs)) (snd (R, s)) \<and> turn_inv (R, s)"
  proof (induction rule: rtranclp_induct)
    case (step y z)
    then show ?case using turn_step_sys turn_step_inv by (meson rtranclp.rtrancl_into_rtrancl)
  qed simp
  then show "sys_step\<^sup>*\<^sup>* (start_sys st reqs) s" "kept_buckets s"
    by (auto simp: turn_inv_def kept_buckets_def Let_def)
qed

lemma no_turn: "(\<lambda>s s'. \<exists>i. tx_step i s s')\<^sup>*\<^sup>* s s' \<Longrightarrow> turn_step\<^sup>*\<^sup>* (R, s) (R, s')"
  by (induction rule: rtranclp_induct) (auto intro: turn_step.tx rtranclp.rtrancl_into_rtrancl)

section \<open>Calls on keys\<close>

text \<open>A call looks at the TATs of its own keys only.\<close>

lemma spec_throttle_keys:
  assumes "\<forall>k \<in> q_Key ` set es. tat k = tat' k"
  shows "snd (spec_throttle now tat es) = snd (spec_throttle now tat' es)"
    and "k \<in> q_Key ` set es \<Longrightarrow> fst (spec_throttle now tat es) k = fst (spec_throttle now tat' es) k"
    and "k \<notin> q_Key ` set es \<Longrightarrow> fst (spec_throttle now tat es) k = tat k"
proof -
  have "spec_eval now tat work es = spec_eval now tat' work es" for work
    using assms by (induction es arbitrary: work) (simp_all add: Let_def)
  note eval = this
  have real: "real_keys es \<subseteq> q_Key ` set es" by (auto simp: real_keys_def)
  note cong = spec_eval_cong [OF assms real, of now tat', folded eval]
  show "snd (spec_throttle now tat es) = snd (spec_throttle now tat' es)"
    using cong by (simp add: spec_throttle_def case_prod_beta Let_def eval)
  show "fst (spec_throttle now tat es) k = fst (spec_throttle now tat' es) k" if "k \<in> q_Key ` set es"
    using cong assms that unfolding spec_throttle_def case_prod_beta Let_def eval by auto
  show "k \<notin> q_Key ` set es \<Longrightarrow> fst (spec_throttle now tat es) k = tat k"
    using real spec_eval_other [of k es now tat tat] by (auto simp: spec_throttle_def case_prod_beta Let_def)
qed

text \<open>The serial run on buckets is a sequence of \<open>Throttle\<close> calls, where the keys keep their buckets.\<close>

definition shows_tats :: "(nat \<Rightarrow> tx) \<Rightarrow> (string \<Rightarrow> int64) \<Rightarrow> (addr \<Rightarrow> int64) \<Rightarrow> bool" where
  "shows_tats T tat h \<longleftrightarrow> (\<forall>i. \<forall>(k, b) \<in> set (x_bs (T i)). tat k = h b)"

definition one_bucket :: "(nat \<Rightarrow> tx) \<Rightarrow> bool" where
  "one_bucket T \<longleftrightarrow> (\<forall>i j. \<forall>(k, b) \<in> set (x_bs (T i)). \<forall>(k', b') \<in> set (x_bs (T j)). k = k' \<longleftrightarrow> b = b')"

lemma tx_heap_tats:
  assumes "shows_tats T tat h" "one_bucket T" "distinct (map fst (x_bs (T i)))"
    and "fst ` set (x_bs (T i)) = q_Key ` set (x_entries (T i))"
  defines "sp \<equiv> spec_throttle (x_now (T i)) tat (x_entries (T i))"
  shows "snd (tx_spec (T i) h) = snd sp" "shows_tats T (fst sp) (tx_heap (T i) h)"
proof -
  let ?K = "q_Key ` set (x_entries (T i))" and ?bs = "x_bs (T i)"
  have same: "\<forall>k \<in> ?K. tat k = view h ?bs k"
    using assms(1) view_in [OF assms(3)] unfolding assms(4) [symmetric] shows_tats_def by fastforce
  note keys = spec_throttle_keys [OF same, where now = "x_now (T i)", folded tx_spec_def sp_def]
  show "snd (tx_spec (T i) h) = snd sp" using keys(1) by (simp add: tx_spec_def)
  show "shows_tats T (fst sp) (tx_heap (T i) h)"
    unfolding shows_tats_def
  proof (intro allI ballI, clarify)
    fix j k b assume kb: "(k, b) \<in> set (x_bs (T j))"
    have uniq: "k' = k \<longleftrightarrow> b' = b" if "(k', b') \<in> set ?bs" for k' b'
      using assms(2) that kb unfolding one_bucket_def by fastforce
    show "fst sp k = tx_heap (T i) h b"
    proof (cases "k \<in> ?K")
      case True
      then obtain b' where "(k, b') \<in> set ?bs" unfolding assms(4) [symmetric] by auto
      with uniq have "(k, b) \<in> set ?bs" by blast
      with uniq have "tx_heap (T i) h b = fst (tx_spec (T i) h) k"
        unfolding tx_heap_def by (intro put_in) auto
      with keys(2) [OF True] show ?thesis by (simp add: tx_spec_def)
    next
      case False
      then have "b \<notin> snd ` set ?bs" using uniq unfolding assms(4) [symmetric] by force
      with keys(3) [OF False] kb assms(1) show ?thesis
        by (auto simp: tx_heap_def put_out shows_tats_def)
    qed
  qed
qed

lemma serial_calls:
  assumes "store_inv st" "shows_tats T (tat_of st) h" "one_bucket T"
    and "\<forall>i \<in> set log. distinct (map fst (x_bs (T i))) \<and> fst ` set (x_bs (T i)) = q_Key ` set (x_entries (T i))"
  shows "\<exists>st'. throttle_calls st (map (\<lambda>i. (x_now (T i), x_entries (T i))) log)
      = Some (st', serial_answers T h log) \<and> shows_tats T (tat_of st') (serial_heap T h log)"
  using assms(1,2,4)
proof (induction log arbitrary: st h)
  case (Cons i log)
  obtain st1 where st1: "Throttle st None (x_now (T i)) (x_entries (T i))
      = Some (st1, snd (spec_throttle (x_now (T i)) (tat_of st) (x_entries (T i))), None)"
    "store_inv st1" "tat_of st1 = fst (spec_throttle (x_now (T i)) (tat_of st) (x_entries (T i)))"
    using Throttle_effect [OF Cons.prems(1)] by blast
  have i: "distinct (map fst (x_bs (T i)))" "fst ` set (x_bs (T i)) = q_Key ` set (x_entries (T i))"
    using Cons.prems(3) by simp_all
  note t = tx_heap_tats [OF Cons.prems(2) assms(3) i, folded st1(3)]
  from Cons.IH [OF st1(2) t(2)] Cons.prems(3) obtain st' where
    "throttle_calls st1 (map (\<lambda>i. (x_now (T i), x_entries (T i))) log)
      = Some (st', serial_answers T (tx_heap (T i) h) log)"
    "shows_tats T (tat_of st') (serial_heap T (tx_heap (T i) h) log)" by auto
  with st1(1) t(1) show ?case by simp
qed simp

lemma decided_bs:
  "sys_inv reqs s \<Longrightarrow> decided (t_tx s i) \<Longrightarrow>
    fst ` set (x_bs (t_tx s i)) = q_Key ` set (x_entries (t_tx s i))"
  using sys_inv_tx(3) [of reqs s i] by (simp add: decided_def split: tx_pc.splits)

lemma kept_one_bucket:
  assumes "sys_inv reqs s" "kept_buckets s"
  shows "one_bucket (t_tx s)"
  unfolding one_bucket_def
proof (intro allI ballI, clarify)
  fix i j k b k' b' assume kb: "(k, b) \<in> set (x_bs (t_tx s i))" "(k', b') \<in> set (x_bs (t_tx s j))"
  then have "bucket_addr (t_store s) k = Some b" "bucket_addr (t_store s) k' = Some b'"
    using assms(2) by (auto simp: kept_buckets_def)
  moreover have "bound s k b" "bound s k' b'" using kb by (auto simp: bound_def)
  ultimately show "k = k' \<longleftrightarrow> b = b'" using assms(1) by (auto simp: sys_inv_def alloc_inv_def)
qed

lemma kept_shows_tats:
  assumes "store_inv st" "fresh_inv st s" "kept_buckets s"
  shows "shows_tats (t_tx s) (start_tats st s) (cell st)"
  unfolding shows_tats_def
proof (intro allI ballI, clarify)
  fix i k b assume kb: "(k, b) \<in> set (x_bs (t_tx s i))"
  then have now: "bucket_addr (t_store s) k = Some b" using assms(3) by (auto simp: kept_buckets_def)
  have "bound s k b" using kb by (auto simp: bound_def)
  with assms(2) have "bucket_addr st k = Some b \<or> length (heap st) \<le> b" by (simp add: fresh_inv_def)
  moreover have "b < length (heap st)" if "bucket_addr st k = Some b"
    using assms(1) that by (simp add: store_inv_def)
  ultimately consider "bucket_addr st k = Some b" "b < length (heap st)"
    | "bucket_addr st k \<noteq> Some b" "length (heap st) \<le> b" by fastforce
  then show "start_tats st s k = cell st b"
    by cases (simp_all add: start_tats_def now tat_of_def cell_def)
qed

text \<open>A store in which some keys start afresh.\<close>

lemma stripeFor_heap [simp]: "stripeFor (st\<lparr>heap := h\<rparr>) = stripeFor st"
  by (rule stripeFor_cong) simp

lemma bucket_addr_heap [simp]: "bucket_addr (st\<lparr>heap := h\<rparr>) = bucket_addr st"
  by (simp add: fun_eq_iff bucket_addr_def split: option.split)

lemma store_inv_heap: "length h = length (heap st) \<Longrightarrow> store_inv (st\<lparr>heap := h\<rparr>) = store_inv st"
  by (simp add: store_inv_def)

lemma store_with_tats:
  assumes inv: "store_inv st"
  shows "\<exists>st0. store_inv st0 \<and> tat_of st0 = (\<lambda>k. if P k then tat_of st k else 0)"
proof -
  define h where "h = map (\<lambda>b. if \<exists>k. P k \<and> bucket_addr st k = Some b then heap st ! b else 0) [0..<length (heap st)]"
  have "store_inv (st\<lparr>heap := h\<rparr>)" using inv by (simp add: h_def store_inv_heap)
  moreover have "tat_of (st\<lparr>heap := h\<rparr>) k = (if P k then tat_of st k else 0)" for k
  proof (cases "bucket_addr st k")
    case (Some b)
    then have b: "b < length (heap st)" using inv unfolding store_inv_def by blast
    have "(\<exists>k'. P k' \<and> bucket_addr st k' = Some b) \<longleftrightarrow> P k"
      using inv Some unfolding store_inv_def by blast
    then have "h ! b = (if P k then heap st ! b else 0)" using b by (simp add: h_def)
    with Some show ?thesis by (simp add: tat_of_def)
  qed (simp add: tat_of_def)
  ultimately show ?thesis by blast
qed

section \<open>Running the model\<close>

text \<open>One step of a transaction that takes what is left in its order; \<open>None\<close> when it has to wait.\<close>

definition tx_next :: "nat \<Rightarrow> tx_sys \<Rightarrow> tx_sys option" where
  "tx_next i s =
     (let x = t_tx s i in
      case x_pc x of
        Waiting \<Rightarrow> if ready s x then Some (set_tx i (x\<lparr>x_pc := Collecting (map q_Key (x_entries x))\<rparr>) s) else None
      | Collecting [] \<Rightarrow> Some (set_tx i (x\<lparr>x_pc := Acquire (lock_order (x_bs x))\<rparr>) s)
      | Collecting (k # ks) \<Rightarrow>
          if k \<in> fst ` set (x_bs x) then Some (set_tx i (x\<lparr>x_pc := Collecting ks\<rparr>) s)
          else map_option (\<lambda>(b, st). set_tx i (x\<lparr>x_pc := Collecting ks, x_bs := x_bs x @ [(k, b)]\<rparr>) (s\<lparr>t_store := st\<rparr>))
                 (store_get (t_store s) k)
      | Acquire [] \<Rightarrow> Some (set_tx i (x\<lparr>x_pc := Load (x_bs x), x_work := (\<lambda>_. 0)\<rparr>) s)
      | Acquire (k # ks) \<Rightarrow>
          (case map_of (x_bs x) k of None \<Rightarrow> None
           | Some b \<Rightarrow> if t_lock s b = None
               then Some (set_tx i (x\<lparr>x_pc := Acquire ks\<rparr>) (s\<lparr>t_lock := (t_lock s)(b := Some i)\<rparr>)) else None)
      | Load [] \<Rightarrow> map_option (\<lambda>(writes, work, res).
          set_tx i (x\<lparr>x_pc := (if writes then Save (x_bs x) else Release (lock_order (x_bs x))),
            x_work := work, x_res := res\<rparr>) s) (tx_check x)
      | Load ((k, b) # todo) \<Rightarrow> Some (set_tx i (x\<lparr>x_pc := Load (removeAll (k, b) ((k, b) # todo)),
          x_work := (x_work x)(k := read_tat (t_store s) b)\<rparr>) s)
      | Save [] \<Rightarrow> Some (set_tx i (x\<lparr>x_pc := Release (lock_order (x_bs x))\<rparr>) s)
      | Save ((k, b) # todo) \<Rightarrow> Some (set_tx i (x\<lparr>x_pc := Save (removeAll (k, b) ((k, b) # todo))\<rparr>)
          (s\<lparr>t_store := write_tat (t_store s) b (x_work x k)\<rparr>))
      | Release [] \<Rightarrow> None
      | Release (k # ks) \<Rightarrow> map_option (\<lambda>b.
          set_tx i (x\<lparr>x_pc := Release ks\<rparr>) (s\<lparr>t_lock := (t_lock s)(b := None)\<rparr>)) (map_of (x_bs x) k))"

lemma tx_next_step:
  assumes "tx_next i s = Some s'"
  shows "tx_step i s s'"
proof (cases "x_pc (t_tx s i)")
  case (Load todo)
  show ?thesis
  proof (cases todo)
    case Nil
    with assms Load obtain writes work res where "tx_check (t_tx s i) = Some (writes, work, res)"
      "s' = set_tx i ((t_tx s i)\<lparr>x_pc := (if writes then Save (x_bs (t_tx s i))
          else Release (lock_order (x_bs (t_tx s i)))), x_work := work, x_res := res\<rparr>) s"
      by (auto simp: tx_next_def Let_def split del: if_split)
    with tx_step.check [OF refl] Load Nil show ?thesis by blast
  next
    case (Cons kb rest)
    obtain k b where "kb = (k, b)" by force
    with Cons assms Load tx_step.load [OF refl Load, of k b] show ?thesis
      by (simp add: tx_next_def Let_def del: removeAll.simps)
  qed
next
  case (Save todo)
  show ?thesis
  proof (cases todo)
    case (Cons kb rest)
    obtain k b where "kb = (k, b)" by force
    with Cons assms Save tx_step.save [OF refl Save, of k b] show ?thesis
      by (simp add: tx_next_def Let_def del: removeAll.simps)
  qed (use assms Save in \<open>auto simp: tx_next_def Let_def intro: tx_step.intros\<close>)
qed (use assms in \<open>auto simp: tx_next_def Let_def split: list.splits if_splits option.splits intro: tx_step.intros\<close>)

fun run_schedule :: "nat list \<Rightarrow> tx_sys \<Rightarrow> tx_sys option" where
  "run_schedule [] s = Some s"
| "run_schedule (i # is) s = (case tx_next i s of None \<Rightarrow> None | Some s \<Rightarrow> run_schedule is s)"

lemma run_schedule_steps:
  "run_schedule is s = Some s' \<Longrightarrow> (\<lambda>s s'. \<exists>i. tx_step i s s')\<^sup>*\<^sup>* s s'"
proof (induction "is" arbitrary: s)
  case (Cons i "is")
  then obtain s1 where "tx_next i s = Some s1" "run_schedule is s1 = Some s'" by (auto split: option.splits)
  with tx_next_step Cons.IH show ?case by (metis (mono_tags, lifting) converse_rtranclp_into_rtranclp)
qed simp

section \<open>The order of the calls\<close>

lemma calls_in_order:
  assumes st: "store_inv st" and parts: "\<forall>i. one_part (fst (snd (reqs i)))"
    and run: "sys_step\<^sup>*\<^sup>* (start_sys st reqs) s" and kept: "kept_buckets s"
  shows "\<exists>st0 order st'. store_inv st0 \<and> tat_of st0 = start_tats st s
    \<and> distinct order \<and> set order = {i. decided (t_tx s i)}
    \<and> in_order (\<lambda>i. snd (snd (reqs i))) order
    \<and> throttle_calls st0 (map (\<lambda>i. (fst (reqs i), fst (snd (reqs i)))) order)
        = Some (st', map (\<lambda>i. x_res (t_tx s i)) order)
    \<and> (\<forall>i \<in> set order. \<forall>e \<in> set (fst (snd (reqs i))).
         (\<nexists>j todo. x_pc (t_tx s j) = Save todo) \<longrightarrow> tat_of (t_store s) (q_Key e) = tat_of st' (q_Key e))"
proof -
  obtain order where inv: "sys_inv reqs s" "fresh_inv st s" and ser: "serial_inv st reqs s order"
    using reachable_invs [OF st parts run] by blast
  let ?T = "t_tx s" and ?h = "serial_heap (t_tx s) (cell st) order"
  have order: "distinct order" "set order = {i. decided (?T i)}"
    "map (\<lambda>i. x_res (?T i)) order = serial_answers ?T (cell st) order"
    "heap_inv s ?h" "in_order (\<lambda>i. snd (snd (reqs i))) order"
    using ser by (auto simp: serial_inv_def)
  have reqs: "x_now (?T i) = fst (reqs i)" "x_entries (?T i) = fst (snd (reqs i))" for i
    using sys_inv_tx(4) [OF inv(1), of i] by (metis fst_conv snd_conv)+
  have bs: "\<forall>i \<in> set order. distinct (map fst (x_bs (?T i))) \<and> fst ` set (x_bs (?T i)) = q_Key ` set (x_entries (?T i))"
    using sys_inv_tx(1) [OF inv(1)] decided_bs [OF inv(1)] order(2) by blast
  obtain st0 where st0: "store_inv st0" "tat_of st0 = start_tats st s"
    using store_with_tats [OF st, of "\<lambda>k. bucket_addr (t_store s) k = bucket_addr st k"]
    by (auto simp: start_tats_def [abs_def])
  note shows0 = kept_shows_tats [OF st inv(2) kept, folded st0(2)]
  obtain st' where st': "throttle_calls st0 (map (\<lambda>i. (x_now (?T i), x_entries (?T i))) order)
      = Some (st', serial_answers ?T (cell st) order)" "shows_tats ?T (tat_of st') ?h"
    using serial_calls [OF st0(1) shows0 kept_one_bucket [OF inv(1) kept] bs] by blast
  have "tat_of (t_store s) (q_Key e) = tat_of st' (q_Key e)"
    if e: "i \<in> set order" "e \<in> set (x_entries (?T i))" and idle: "\<nexists>j todo. x_pc (?T j) = Save todo" for i e
  proof -
    obtain b where b: "(q_Key e, b) \<in> set (x_bs (?T i))" using bs e by fastforce
    then have "bucket_addr (t_store s) (q_Key e) = Some b" using kept by (auto simp: kept_buckets_def)
    moreover have "b < length (heap (t_store s))"
      using b inv(1) by (auto simp: sys_inv_def alloc_inv_def bound_def)
    moreover have "?h b = cell (t_store s) b"
      using order(4) idle by (auto simp: heap_inv_def pending_def pends_def)
    moreover have "tat_of st' (q_Key e) = ?h b" using b st'(2) by (auto simp: shows_tats_def)
    ultimately show ?thesis by (simp add: tat_of_def cell_def)
  qed
  moreover have "throttle_calls st0 (map (\<lambda>i. (fst (reqs i), fst (snd (reqs i)))) order)
      = Some (st', map (\<lambda>i. x_res (?T i)) order)"
    using st'(1) unfolding order(3) reqs .
  ultimately show ?thesis
    using order(1,2,5) st0 unfolding reqs by (intro exI [of _ st0] exI [of _ order] exI [of _ st'] conjI ballI impI) simp_all
qed

section \<open>Properties\<close>


text \<open>Two calls for the one token that is left, the second overtaking the first.\<close>

definition two_requests :: "nat \<Rightarrow> int64 \<times> request_entry list \<times> nat option" where
  "two_requests i = (5000, if i < 2 then [example_entry ''a'' 2 False] else [], None)"

definition overtaking :: "nat list" where
  "overtaking = [0, 0, 1, 1, 1, 1, 0, 1, 1, 1, 1, 1, 1, 0, 0, 0, 0, 0]"

text \<open>The system with the state of these two.\<close>

definition two :: "tx \<Rightarrow> tx \<Rightarrow> nat \<Rightarrow> tx" where
  "two x y i = (if i = 0 then x else if i = 1 then y else start_tx (two_requests i))"

lemma two_simps [simp]:
  "two x y 0 = x" "two x y (Suc 0) = y" "(two x y)(0 := z) = two z y" "(two x y)(Suc 0 := z) = two x z"
  by (auto simp: two_def fun_eq_iff)

lemma two_start:
  "start_sys st two_requests
     = \<lparr>t_store = st, t_lock = (\<lambda>_. None), t_tx = two (start_tx (two_requests 0)) (start_tx (two_requests 1))\<rparr>"
  by (auto simp: start_sys_def two_def fun_eq_iff)

lemma last_token:
  "check_entry 0 5000 (example_entry ''a'' 2 False)
     = Some \<lparr>g_throttled = False, g_remaining = 2, g_retryAfter = 0, g_admittedTAT = 7000\<rparr>"
  "check_entry 7000 5000 (example_entry ''a'' 2 False)
     = Some \<lparr>g_throttled = True, g_remaining = 0, g_retryAfter = 2000, g_admittedTAT = 7000\<rparr>"
  by code_simp+

lemma example_entry_sel [simp]: "q_Key (example_entry k c p) = k" "q_Peek (example_entry k c p) = p"
  by (simp_all add: example_entry_def)

lemma overtaking_run:
  assumes "store_get st ''a'' = Some (b, st1)" "store_get st1 ''a'' = Some (b, st2)"
    and "read_tat st2 b = 0" "b < length (heap st2)"
  shows "\<exists>s. run_schedule overtaking (start_sys st two_requests) = Some s
    \<and> x_pc (t_tx s 0) = Release [] \<and> x_pc (t_tx s 1) = Release []
    \<and> map s_Throttled (x_res (t_tx s 0)) = [True] \<and> map s_Throttled (x_res (t_tx s 1)) = [False]"
  using assms
  by (simp add: overtaking_def two_start start_tx_def two_requests_def tx_next_def set_tx_def ready_def
      lock_order_def tx_check_def last_token zero_response_def set_result_def read_tat_def)

lemma store_get_twice:
  assumes "store_inv st"
  obtains b st1 st2 where "store_get st k = Some (b, st1)" "store_get st1 k = Some (b, st2)"
    "store_inv st2" "read_tat st2 b = tat_of st k" "b < length (heap st2)"
proof -
  obtain b st1 where g1: "store_get st k = Some (b, st1)" "store_inv st1"
    "bucket_addr st1 = (bucket_addr st)(k \<mapsto> b)" "tat_of st1 = tat_of st"
    by (rule buckets.get_effect [OF assms])
  obtain b' st2 where g2: "store_get st1 k = Some (b', st2)" "store_inv st2"
    "bucket_addr st2 = (bucket_addr st1)(k \<mapsto> b')" "read_tat st2 b' = tat_of st1 k"
    by (rule buckets.get_effect [OF g1(2)])
  have same: "b' = b" using buckets.get_keeps [OF g1(2) g2(1)] g1(3) by simp
  note g2 = g2 [unfolded same]
  have "bucket_addr st2 k = Some b" by (simp add: g2(3))
  with g2(2) have "b < length (heap st2)" unfolding store_inv_def by blast
  moreover have "read_tat st2 b = tat_of st k" using g2(4) by (simp only: g1(4))
  ultimately show thesis by (intro that [OF g1(1) g2(1,2)])
qed

text \<open>The first has collected its bucket \<open>b\<close>; the second gets another one.\<close>

lemma forgotten_run:
  assumes "store_get st ''a'' = Some (b', st2)" "b \<noteq> b'"
    and "read_tat st2 b = 0" "read_tat st2 b' = 0" "b < length (heap st2)" "b' < length (heap st2)"
  shows "\<exists>s. run_schedule (replicate 10 1 @ replicate 8 0)
      \<lparr>t_store = st, t_lock = (\<lambda>_. None), t_tx = two ((start_tx (two_requests 0))
        \<lparr>x_pc := Collecting [], x_bs := [(''a'', b)]\<rparr>) (start_tx (two_requests 1))\<rparr> = Some s
    \<and> x_pc (t_tx s 0) = Release [] \<and> x_pc (t_tx s 1) = Release []
    \<and> map s_Throttled (x_res (t_tx s 0)) = [False] \<and> map s_Throttled (x_res (t_tx s 1)) = [False]"
  using assms
  by (simp add: numeral_eq_Suc start_tx_def two_requests_def tx_next_def set_tx_def ready_def
      lock_order_def tx_check_def last_token zero_response_def set_result_def read_tat_def)


lemma collected_run:
  assumes "store_get st ''a'' = Some (b, st1)"
  shows "run_schedule [0, 0] (start_sys st two_requests)
    = Some \<lparr>t_store = st1, t_lock = (\<lambda>_. None), t_tx = two ((start_tx (two_requests 0))
        \<lparr>x_pc := Collecting [], x_bs := [(''a'', b)]\<rparr>) (start_tx (two_requests 1))\<rparr>"
  using assms
  by (simp add: two_start start_tx_def two_requests_def tx_next_def set_tx_def ready_def)

lemma tx_steps_sys: "(\<lambda>s s'. \<exists>i. tx_step i s s')\<^sup>*\<^sup>* s s' \<Longrightarrow> sys_step\<^sup>*\<^sup>* s s'"
  by (erule rtranclp_mono [THEN predicate2D, rotated]) (auto intro: sys_step.tx)

text \<open>A bucket that the store lets go of keeps its contents, and the next caller gets another one.\<close>

lemma let_go:
  assumes "store_inv st" "store_get st k = Some (b, st1)" "tat_of st k = 0" "stripeFor st1 k = Some j"
  defines "st2 \<equiv> rotate_nth (rotate_nth st1 j) j"
  obtains b' st3 where "store_get st2 k = Some (b', st3)" "b \<noteq> b'" "read_tat st3 b = 0" "read_tat st3 b' = 0"
    "b < length (heap st3)" "b' < length (heap st3)" "j < length (stripes st1)"
proof -
  have inv1: "store_inv st1" by (rule store_get_inv [OF assms(2,1)])
  have j: "j < length (stripes st1)" by (rule stripeFor_bound [OF assms(4)])
  have b: "bucket_addr st1 k = Some b" using store_get_addr(1) [OF assms(2,1)] by simp
  then have lb: "b < length (heap st1)" using inv1 unfolding store_inv_def by blast
  have inv2: "store_inv st2" unfolding st2_def using inv1 j by (intro rotate_nth_inv) simp_all
  obtain b' st3 where g: "store_get st2 k = Some (b', st3)" using store_get_total [OF inv2] by blast
  have "bucket_addr st2 k = None" unfolding st2_def by (rule rotated_twice [OF assms(4)])
  with store_get_addr(2) [OF g inv2] have b': "b' = length (heap st1)" "heap st3 = heap st1 @ [0]"
    by (simp_all add: st2_def)
  have "heap st1 ! b = 0"
    using read_tat_owner [OF b] store_get_tat [OF assms(2,1)] assms(3) by (simp add: read_tat_def)
  with g b' lb j that show thesis by (simp add: read_tat_def nth_append)
qed

text \<open>
  C33 (error). What the hypothesis of serializability excludes. Two rotations between a call's
  \<open>getOrCreate\<close> and its \<open>Lock\<close> take the bucket out of the store while the call still holds it; another
  call on the key gets a fresh bucket, and both are admitted at the same clock reading, for the last
  token, of which \<open>Throttle\<close> calls made one after the other admit one only.
\<close>

theorem gc_lets_go_of_a_held_bucket:
  "\<exists>(s :: tx_sys) st' r r'. sys_step\<^sup>*\<^sup>* (start_sys (fst (newStore 4 0)) two_requests) s
    \<and> x_pc (t_tx s 0) = Release [] \<and> x_pc (t_tx s 1) = Release []
    \<and> map s_Throttled (x_res (t_tx s 0)) = [False] \<and> map s_Throttled (x_res (t_tx s 1)) = [False]
    \<and> throttle_calls (fst (newStore 4 0)) [(5000, fst (snd (two_requests 0))), (5000, fst (snd (two_requests 1)))]
        = Some (st', [[r], [r']]) \<and> s_Throttled r'"
proof -
  let ?st = "fst (newStore 4 0)"
  obtain b st1 where g1: "store_get ?st ''a'' = Some (b, st1)" using store_get_total [OF newStore_inv] by blast
  have "stripes st1 \<noteq> []" using store_get_inv [OF g1 newStore_inv] by (simp add: store_inv_def)
  then obtain j where j: "stripeFor st1 ''a'' = Some j" using stripeFor_Some by blast
  let ?st2 = "rotate_nth (rotate_nth st1 j) j"
  have tat0: "tat_of ?st ''a'' = 0" by simp
  obtain b' st3 where g2: "store_get ?st2 ''a'' = Some (b', st3)" "b \<noteq> b'" "read_tat st3 b = 0" "read_tat st3 b' = 0"
    "b < length (heap st3)" "b' < length (heap st3)" and jl: "j < length (stripes st1)"
    by (rule let_go [OF newStore_inv g1 tat0 j])
  let ?sys = "\<lambda>st. \<lparr>t_store = st, t_lock = (\<lambda>_. None), t_tx = two ((start_tx (two_requests 0))
        \<lparr>x_pc := Collecting [], x_bs := [(''a'', b)]\<rparr>) (start_tx (two_requests 1))\<rparr>"
  obtain s where s: "run_schedule (replicate 10 1 @ replicate 8 0) (?sys ?st2) = Some s"
    and fin: "x_pc (t_tx s 0) = Release []" "x_pc (t_tx s 1) = Release []"
    "map s_Throttled (x_res (t_tx s 0)) = [False]" "map s_Throttled (x_res (t_tx s 1)) = [False]"
    using forgotten_run [OF g2] by (elim exE conjE) (rule that)
  have "sys_step\<^sup>*\<^sup>* (start_sys ?st two_requests) (?sys st1)"
    by (rule tx_steps_sys [OF run_schedule_steps [OF collected_run [OF g1]]])
  also have "sys_step (?sys st1) (?sys (rotate_nth st1 j))"
    using sys_step.rotate [of j "?sys st1"] jl by simp
  also have "sys_step (?sys (rotate_nth st1 j)) (?sys ?st2)"
    using sys_step.rotate [of j "?sys (rotate_nth st1 j)"] jl by simp
  also have "sys_step\<^sup>*\<^sup>* (?sys ?st2) s" by (rule tx_steps_sys [OF run_schedule_steps [OF s]])
  finally have run: "sys_step\<^sup>*\<^sup>* (start_sys ?st two_requests) s" .
  let ?e = "example_entry ''a'' 2 False"
  have tat: "tat_of ?st = (\<lambda>_. 0)" by (rule ext) simp
  obtain sa ra where ta: "Throttle ?st None 5000 [?e] = Some (sa, ra, None)" "store_inv sa"
    "spec_throttle 5000 (\<lambda>_. 0) [?e] = (tat_of sa, ra)"
    using Throttle_effect [OF newStore_inv, of 4 0 5000 "[?e]"] unfolding tat by (metis prod.collapse)
  obtain sb rb where tb: "Throttle sa None 5000 [?e] = Some (sb, rb, None)"
    "spec_throttle 5000 (tat_of sa) [?e] = (tat_of sb, rb)"
    using Throttle_effect [OF ta(2), of 5000 "[?e]"] by (metis prod.collapse)
  have a: "tat_of sa = (\<lambda>_. 0)(''a'' := 7000)" "\<exists>r. ra = [r]"
    using ta(3) by (auto simp: spec_throttle_def chk_def last_token advance_def)
  have "\<exists>r. rb = [r] \<and> s_Throttled r"
    using tb(2) unfolding a(1) by (auto simp: spec_throttle_def chk_def last_token advance_def)
  with a(2) obtain r r' where r: "ra = [r]" "rb = [r']" "s_Throttled r'" by blast
  have seq: "throttle_calls ?st [(5000, fst (snd (two_requests 0))), (5000, fst (snd (two_requests 1)))]
      = Some (sb, [[r], [r']])"
    using ta(1) tb(1) r(1,2) by (simp add: two_requests_def)
  show ?thesis
    by (rule exI [of _ s], rule exI [of _ sb], rule exI [of _ r], rule exI [of _ r'])
      (intro conjI run fin seq r(3))
qed

end
