(* ===== verification/TxProgress.thy ===== *)
theory TxProgress
  imports Serializability
begin

text \<open>
  That concurrent calls of \<open>Throttle\<close> come to an end: in the model of \<open>Transactions\<close>, the bucket locks
  of \<open>server/throttling.go\<close>, taken in the order of the keys, cannot deadlock, and every call does a
  bounded amount of work, whatever the other calls and the GC do in between.
\<close>

section \<open>Who owns a lock\<close>

text \<open>The converse of \<open>lock_inv\<close>: a mutex that is taken is in the hands of a transaction.\<close>

definition owner_inv :: "tx_sys \<Rightarrow> bool" where
  "owner_inv s \<longleftrightarrow> (\<forall>b j. t_lock s b = Some j \<longrightarrow> holds (t_tx s j) b)"

text \<open>What a transaction has still to lock are the last keys of its locking order.\<close>

definition order_ok :: "tx \<Rightarrow> bool" where
  "order_ok x \<longleftrightarrow> (\<forall>ks. x_pc x = Acquire ks \<longrightarrow> (\<exists>taken. lock_order (x_bs x) = taken @ ks))"

lemma tx_step_order:
  assumes "tx_step i s s'" "order_ok (t_tx s i)"
  shows "order_ok (t_tx s' i)"
  using assms(1)
proof cases
  case (acquire x k ks b)
  then obtain taken where "lock_order (x_bs x) = taken @ k # ks" using assms(2) by (auto simp: order_ok_def)
  then show ?thesis using acquire by (auto simp: order_ok_def intro: exI [of _ "taken @ [k]"])
qed (use assms(2) in \<open>auto simp: order_ok_def\<close>)

text \<open>Only the transaction itself gives a lock of its own back.\<close>

lemma tx_step_keeps_lock:
  assumes step: "tx_step i s s'" and ok: "tx_ok r (t_tx s i)" and b: "holds (t_tx s i) b" "t_lock s' b = Some i"
  shows "holds (t_tx s' i) b"
  using step
proof cases
  case (acquire x k ks a)
  then show ?thesis using b(1) by (auto simp: holds_def)
next
  case (release x k ks a)
  then obtain k' where k': "(k', b) \<in> set (x_bs x)" "k' \<in> set (k # ks)" using b(1) by (auto simp: holds_def)
  have "k' \<noteq> k"
  proof
    assume "k' = k"
    moreover have "distinct (map fst (x_bs x))" using ok release(2) by (simp add: tx_ok_def)
    ultimately have "a = b" using map_of_is_SomeI [OF _ k'(1)] release(4) by simp
    with b(2) release(1) show False by simp
  qed
  with k' release show ?thesis by (auto simp: holds_def)
qed (use b(1) in \<open>auto simp: holds_def\<close>)

lemma tx_step_lock_cases:
  assumes "tx_step i s s'" "t_lock s' b = Some j"
  shows "t_lock s b = Some j \<or> j = i \<and> (\<exists>x k ks. t_tx s i = x \<and> x_pc x = Acquire (k # ks)
    \<and> map_of (x_bs x) k = Some b \<and> t_tx s' i = x\<lparr>x_pc := Acquire ks\<rparr>)"
  using assms(1) by cases (use assms(2) in \<open>auto split: if_splits\<close>)

lemma tx_step_owner:
  assumes step: "tx_step i s s'" and inv: "owner_inv s" "tx_ok r (t_tx s i)"
  shows "owner_inv s'"
  unfolding owner_inv_def
proof (intro allI impI)
  fix b j assume b: "t_lock s' b = Some j"
  from tx_step_lock_cases [OF step b] show "holds (t_tx s' j) b"
  proof (elim disjE conjE exE)
    assume "t_lock s b = Some j"
    with inv(1) have h: "holds (t_tx s j) b" by (simp add: owner_inv_def)
    show ?thesis
    proof (cases "j = i")
      case True
      with tx_step_keeps_lock [OF step inv(2)] h b show ?thesis by simp
    qed (use h tx_step_other [OF step] in simp)
  next
    fix x k ks
    assume "j = i" and x: "t_tx s i = x" "x_pc x = Acquire (k # ks)" "map_of (x_bs x) k = Some b"
      and x': "t_tx s' i = x\<lparr>x_pc := Acquire ks\<rparr>"
    have "(k, b) \<in> set (x_bs x)" by (rule map_of_SomeD [OF x(3)])
    moreover have "k \<notin> set ks" using inv(2) x(1,2) by (auto simp: tx_ok_def)
    ultimately show ?thesis using \<open>j = i\<close> x' by (force simp: holds_def)
  qed
qed

section \<open>Runs\<close>

text \<open>A run of the system, counting the steps of transaction \<open>i\<close>.\<close>

inductive tx_run :: "nat \<Rightarrow> nat \<Rightarrow> tx_sys \<Rightarrow> tx_sys \<Rightarrow> bool" for i where
  none: "tx_run i 0 s s"
| own: "tx_run i n s s' \<Longrightarrow> tx_step i s' s'' \<Longrightarrow> tx_run i (Suc n) s s''"
| other: "tx_run i n s s' \<Longrightarrow> tx_step j s' s'' \<Longrightarrow> j \<noteq> i \<Longrightarrow> tx_run i n s s''"
| gc: "tx_run i n s s' \<Longrightarrow> j < length (stripes (t_store s')) \<Longrightarrow>
    tx_run i n s (s'\<lparr>t_store := rotate_nth (t_store s') j\<rparr>)"

definition run_inv :: "(nat \<Rightarrow> int64 \<times> request_entry list \<times> nat option) \<Rightarrow> tx_sys \<Rightarrow> bool" where
  "run_inv reqs s \<longleftrightarrow> sys_inv reqs s \<and> owner_inv s \<and> (\<forall>i. order_ok (t_tx s i))
     \<and> finite {i. x_pc (t_tx s i) \<noteq> Waiting}"

lemma run_inv_start:
  assumes "store_inv st" "\<forall>i. one_part (fst (snd (reqs i)))"
  shows "run_inv reqs (start_sys st reqs)"
  using sys_inv_start [OF assms]
  by (simp add: run_inv_def owner_inv_def order_ok_def) (simp add: start_sys_def start_tx_def)

lemma run_inv_step:
  assumes step: "tx_step i s s'" and inv: "run_inv reqs s"
  shows "run_inv reqs s'"
proof -
  have sys: "sys_inv reqs s'" using sys_step_inv [OF sys_step.tx [OF step]] inv by (simp add: run_inv_def)
  have ok: "tx_ok (reqs i) (t_tx s i)" using inv by (simp add: run_inv_def sys_inv_def)
  have "{j. x_pc (t_tx s' j) \<noteq> Waiting} \<subseteq> insert i {j. x_pc (t_tx s j) \<noteq> Waiting}"
    using tx_step_other [OF step] by fastforce
  then have "finite {j. x_pc (t_tx s' j) \<noteq> Waiting}" using inv by (auto simp: run_inv_def intro: finite_subset)
  moreover have "order_ok (t_tx s' j)" for j
    using tx_step_order [OF step] tx_step_other [OF step] inv by (cases "j = i") (auto simp: run_inv_def)
  moreover have "owner_inv s'" using tx_step_owner [OF step _ ok] inv by (simp add: run_inv_def)
  ultimately show ?thesis using sys by (simp add: run_inv_def)
qed

lemma run_inv_rotate:
  assumes "run_inv reqs s" "j < length (stripes (t_store s))"
  shows "run_inv reqs (s\<lparr>t_store := rotate_nth (t_store s) j\<rparr>)"
  using sys_step_inv [OF sys_step.rotate [OF assms(2)]] assms(1)
  by (simp add: run_inv_def owner_inv_def)

lemma tx_run_inv: "tx_run i n s s' \<Longrightarrow> run_inv reqs s \<Longrightarrow> run_inv reqs s'"
  by (induction rule: tx_run.induct) (auto intro: run_inv_step run_inv_rotate)

section \<open>The work of one transaction\<close>

definition tx_rank :: "tx \<Rightarrow> nat" where
  "tx_rank x = (let B = length (x_bs x) in case x_pc x of
      Waiting \<Rightarrow> 5 * length (x_entries x) + 5
    | Collecting ks \<Rightarrow> 5 * length ks + 4 * B + 4
    | Acquire ks \<Rightarrow> length ks + 3 * B + 3
    | Load todo \<Rightarrow> length todo + 2 * B + 2
    | Save todo \<Rightarrow> length todo + B + 1
    | Release ks \<Rightarrow> length ks)"

lemma length_lock_order [simp]: "length (lock_order m) = length m"
  by (simp add: lock_order_def)

lemma tx_step_rank:
  assumes "tx_step i s s'" "tx_ok r (t_tx s i)"
  shows "tx_rank (t_tx s' i) < tx_rank (t_tx s i)"
  using assms(1)
proof cases
  case (begin_tx x)
  with assms(2) have "x_bs x = []" by (simp add: tx_ok_def)
  with begin_tx show ?thesis by (simp add: tx_rank_def)
next
  case (load x todo k b)
  have "length (removeAll (k, b) todo) < length todo" using load(4) by (rule length_removeAll_less)
  with load show ?thesis by (simp add: tx_rank_def Let_def)
next
  case (save x todo k b)
  have "length (removeAll (k, b) todo) < length todo" using save(4) by (rule length_removeAll_less)
  with save show ?thesis by (simp add: tx_rank_def Let_def)
qed (simp_all add: tx_rank_def Let_def)

lemma tx_run_rank:
  "tx_run i n s s' \<Longrightarrow> run_inv reqs s \<Longrightarrow> tx_rank (t_tx s' i) + n \<le> tx_rank (t_tx s i)"
proof (induction rule: tx_run.induct)
  case (own n s s' s'')
  have "run_inv reqs s'" by (rule tx_run_inv [OF own.hyps(1) own.prems])
  then have "tx_ok (reqs i) (t_tx s' i)" by (simp add: run_inv_def sys_inv_def)
  with tx_step_rank [OF own.hyps(2)] own.IH [OF own.prems] show ?case by fastforce
next
  case (other n s s' j s'')
  then show ?case using tx_step_other [OF other.hyps(2)] by simp
qed simp_all

section \<open>No deadlock\<close>

definition active :: "tx \<Rightarrow> bool" where
  "active x \<longleftrightarrow> x_pc x \<noteq> Waiting \<and> x_pc x \<noteq> Release []"

text \<open>A transaction that cannot go on waits for a lock, which another one holds.\<close>

lemma step_or_blocked:
  assumes inv: "sys_inv reqs s" and "active (t_tx s i)" and stuck: "\<nexists>s'. tx_step i s s'"
  shows "\<exists>k ks b j. x_pc (t_tx s i) = Acquire (k # ks) \<and> map_of (x_bs (t_tx s i)) k = Some b \<and> t_lock s b = Some j"
proof -
  have ok: "tx_ok (reqs i) (t_tx s i)" and st: "store_inv (t_store s)"
    using inv by (simp_all add: sys_inv_def alloc_inv_def)
  have key: "\<exists>b. map_of (x_bs (t_tx s i)) k = Some b"
    if "x_pc (t_tx s i) = Acquire (k # ks) \<or> x_pc (t_tx s i) = Release (k # ks)" for k ks
  proof -
    have "fst ` set (x_bs (t_tx s i)) = q_Key ` set (x_entries (t_tx s i)) \<and> k \<in> q_Key ` set (x_entries (t_tx s i))"
      using that by (elim disjE) (use ok in \<open>simp_all add: tx_ok_def\<close>)
    then have "k \<in> fst ` set (x_bs (t_tx s i))" by simp
    then show ?thesis using map_of_eq_None_iff [of "x_bs (t_tx s i)" k] by auto
  qed
  show ?thesis
  proof (cases "x_pc (t_tx s i)")
    case Waiting
    with assms(2) show ?thesis by (simp add: active_def)
  next
    case (Collecting ks)
    then show ?thesis
    proof (cases ks)
      case (Cons k ks')
      obtain b st' where "store_get (t_store s) k = Some (b, st')" using buckets.get_total [OF st] by blast
      with Collecting Cons stuck show ?thesis by (blast intro: collected_before collect)
    qed (use Collecting stuck in \<open>blast intro: collected_all\<close>)
  next
    case (Acquire ks)
    then show ?thesis
    proof (cases ks)
      case (Cons k ks')
      with Acquire key obtain b where b: "map_of (x_bs (t_tx s i)) k = Some b" by blast
      with Acquire Cons stuck acquire [OF refl] show ?thesis by (cases "t_lock s b") blast+
    qed (use Acquire stuck in \<open>blast intro: acquired_all\<close>)
  next
    case (Load todo)
    then show ?thesis
    proof (cases todo)
      case Nil
      have "one_part (x_entries (t_tx s i))" using ok by (simp add: tx_ok_def)
      with tx_check_spec Load Nil stuck check [OF refl] show ?thesis by blast
    next
      case (Cons kb todo')
      then have "(fst kb, snd kb) \<in> set todo" by simp
      with Load stuck show ?thesis by (blast intro: load)
    qed
  next
    case (Save todo)
    then show ?thesis
    proof (cases todo)
      case (Cons kb todo')
      then have "(fst kb, snd kb) \<in> set todo" by simp
      with Save stuck show ?thesis by (blast intro: save)
    qed (use Save stuck in \<open>blast intro: saved_all\<close>)
  next
    case (Release ks)
    then obtain k ks' where ks: "ks = k # ks'" using assms(2) by (cases ks) (auto simp: active_def)
    with Release key obtain b where "map_of (x_bs (t_tx s i)) k = Some b" by blast
    with Release ks stuck show ?thesis by (blast intro: release)
  qed
qed

lemma strict_sorted_lock_order:
  "distinct (map fst m) \<Longrightarrow> sorted_wrt (<) (lock_order m)"
  by (simp add: lock_order_def strict_sorted_iff)

text \<open>It waits for a bucket with a larger key than any it holds.\<close>

lemma waiting_larger:
  assumes "tx_ok r x" "order_ok x" "x_pc x = Acquire (k # ks)" "(k', b) \<in> set (x_bs x)" "k' \<in> held_keys (x_pc x) (x_bs x)"
  shows "k' < k"
proof -
  obtain taken where taken: "lock_order (x_bs x) = taken @ k # ks" using assms(2,3) by (auto simp: order_ok_def)
  have "sorted_wrt (<) (lock_order (x_bs x))" using assms(1) by (intro strict_sorted_lock_order) (simp add: tx_ok_def)
  moreover have "k' \<in> set taken"
    using assms(3,5) arg_cong [OF taken, of set] by auto
  ultimately show ?thesis unfolding taken by (auto simp: sorted_wrt_append)
qed

lemma no_deadlock:
  assumes inv: "run_inv reqs s" and act: "active (t_tx s i0)"
  shows "\<exists>i s'. active (t_tx s i) \<and> tx_step i s s'"
proof (rule ccontr)
  assume none: "\<nexists>i s'. active (t_tx s i) \<and> tx_step i s s'"
  have sys: "sys_inv reqs s" using inv by (simp add: run_inv_def)
  define A where "A = {i. active (t_tx s i)}"
  define key where "key i = (case x_pc (t_tx s i) of Acquire ks \<Rightarrow> hd ks | _ \<Rightarrow> [])" for i
  have blocked: "\<exists>k ks b j. x_pc (t_tx s i) = Acquire (k # ks) \<and> map_of (x_bs (t_tx s i)) k = Some b \<and> t_lock s b = Some j"
    if "i \<in> A" for i
    using step_or_blocked [OF sys] none that by (simp add: A_def)
  have "A \<subseteq> {i. x_pc (t_tx s i) \<noteq> Waiting}" by (auto simp: A_def active_def)
  then have "finite A" using inv by (auto simp: run_inv_def intro: finite_subset)
  moreover have "i0 \<in> A" using act by (simp add: A_def)
  ultimately have fin: "finite (key ` A)" "key ` A \<noteq> {}" by auto
  then obtain i where i: "i \<in> A" "Max (key ` A) = key i" using Max_in [OF fin] by blast
  have max: "\<not> key i < key j" if "j \<in> A" for j
    using Max_ge [OF fin(1), of "key j"] that unfolding i(2) by (simp add: not_less)
  obtain k ks b j where b: "x_pc (t_tx s i) = Acquire (k # ks)" "map_of (x_bs (t_tx s i)) k = Some b" "t_lock s b = Some j"
    using blocked [OF i(1)] by blast
  have "holds (t_tx s j) b" using inv b(3) by (simp add: run_inv_def owner_inv_def)
  then obtain k' where k': "(k', b) \<in> set (x_bs (t_tx s j))" "k' \<in> held_keys (x_pc (t_tx s j)) (x_bs (t_tx s j))"
    by (auto simp: holds_def)
  have "bound s k b" "bound s k' b" using map_of_SomeD [OF b(2)] k'(1) by (auto simp: bound_def)
  with sys have "k' = k" unfolding sys_inv_def alloc_inv_def by blast
  have "j \<in> A" using k'(2) by (cases "x_pc (t_tx s j)") (auto simp: A_def active_def)
  then obtain k2 ks2 where k2: "x_pc (t_tx s j) = Acquire (k2 # ks2)" using blocked by blast
  have "k' < k2"
    using inv k' by (intro waiting_larger [OF _ _ k2, of "reqs j"]) (simp_all add: run_inv_def sys_inv_def)
  with max [OF \<open>j \<in> A\<close>] b(1) k2 \<open>k' = k\<close> show False by (simp add: key_def)
qed

section \<open>The property\<close>

text \<open>
  C13 (liveness). Concurrent calls always come to an end. In every state any number of them reach, in
  whatever interleaving, whatever keys they touch in whatever order and whatever the GC does, one of
  those under way can take a step: it rests on the buckets being locked in the order of their keys.
  A call can begin, and after that a transaction takes at most five steps for each of its entries and
  five more.
\<close>

theorem concurrent_calls_always_finish:
  assumes "store_inv st" "\<forall>i. one_part (fst (snd (reqs i)))" and "tx_run i n (start_sys st reqs) s"
  shows "((\<exists>j. active (t_tx s j)) \<longrightarrow> (\<exists>j s'. active (t_tx s j) \<and> tx_step j s s'))
    \<and> (x_pc (t_tx s i) = Waiting \<longrightarrow> ready s (t_tx s i) \<longrightarrow> (\<exists>s'. tx_step i s s'))
    \<and> n \<le> 5 * length (fst (snd (reqs i))) + 5"
proof -
  note start = run_inv_start [OF assms(1,2)]
  have inv: "run_inv reqs s" by (rule tx_run_inv [OF assms(3) start])
  have "n \<le> tx_rank (t_tx (start_sys st reqs) i)" using tx_run_rank [OF assms(3) start] by simp
  also have "\<dots> = 5 * length (fst (snd (reqs i))) + 5" by (simp add: tx_rank_def start_sys_def start_tx_def)
  finally show ?thesis using no_deadlock [OF inv] begin_tx [OF refl] by blast
qed

text \<open>Two calls on the same key: one has begun.\<close>

theorem concurrent_calls_always_finish_witness:
  "\<exists>s j s'. tx_run 0 1 (start_sys (fst (newStore 4 0)) two_requests) s \<and> active (t_tx s j) \<and> tx_step j s s'"
proof -
  let ?s = "start_sys (fst (newStore 4 0)) two_requests" and ?x = "start_tx (two_requests 0)"
  let ?s' = "set_tx 0 (?x\<lparr>x_pc := Collecting (map q_Key (x_entries ?x))\<rparr>) ?s"
  have "tx_step 0 ?s ?s'"
    by (rule begin_tx) (simp_all add: start_sys_def start_tx_def two_requests_def ready_def)
  then have run: "tx_run 0 1 ?s ?s'" using tx_run.own [OF tx_run.none] by fastforce
  have "\<forall>i. one_part (fst (snd (two_requests i)))" by (simp add: two_requests_def one_part_def)
  from concurrent_calls_always_finish [OF newStore_inv this run]
  have "(\<exists>j. active (t_tx ?s' j)) \<longrightarrow> (\<exists>j s'. active (t_tx ?s' j) \<and> tx_step j ?s' s')" by blast
  moreover have "active (t_tx ?s' 0)" by (simp add: active_def)
  ultimately show ?thesis using run by blast
qed

end
