(* ===== verification/GcTransparent.thy ===== *)
theory GcTransparent
  imports ThrottleProps
begin

text \<open>
  The GC loop beside the calls: a server that drops idle keys answers like one that never drops any,
  as long as no two turns of the loop are closer together than the longest burst window of the limits
  in use. This is what the README asks of \<open>-gc-interval\<close>.
\<close>

section \<open>Histories with GC turns\<close>

text \<open>
  What a running server does to its store: calls of \<open>Throttle\<close>, each with its clock reading, and turns
  of the GC loop, each at its time (in nanoseconds, on the clock of the calls).
\<close>

datatype server_event = Call int64 "request_entry list" | GcTurn int

fun run_server :: "store \<Rightarrow> server_event list \<Rightarrow> (store \<times> response_entry list list) option" where
  "run_server st [] = Some (st, [])"
| "run_server st (Call now entries # evs) = do {
     (st, rs, _) \<leftarrow> Throttle st None now entries;
     (st, rss) \<leftarrow> run_server st evs;
     Some (st, rs # rss)
   }"
| "run_server st (GcTurn now # evs) = run_server (fst (gc_turns [GcTick] st)) evs"

fun calls_of :: "server_event list \<Rightarrow> (int64 \<times> request_entry list) list" where
  "calls_of [] = []"
| "calls_of (Call now entries # evs) = (now, entries) # calls_of evs"
| "calls_of (GcTurn now # evs) = calls_of evs"

text \<open>The burst window of an entry: the time a full bucket takes to drain.\<close>

definition burst_window :: "request_entry \<Rightarrow> int" where
  "burst_window e = max_debt (sint (l_Capacity (q_Limit e)))
     (sint (EffectiveUnits (r_Units (l_Rate (q_Limit e))))) (sint (r_Period (l_Rate (q_Limit e))))"

text \<open>
  \<open>gc_spaced d t r evs\<close>: from time \<open>t\<close> on, the last GC turn having been at \<open>r\<close>, the events come in the
  order of their times, any two turns are at least \<open>d\<close> apart, and no Real entry has a longer window.
\<close>

fun gc_spaced :: "int \<Rightarrow> int \<Rightarrow> int \<Rightarrow> server_event list \<Rightarrow> bool" where
  "gc_spaced d t r [] \<longleftrightarrow> True"
| "gc_spaced d t r (Call now entries # evs) \<longleftrightarrow>
     t \<le> sint now \<and> list_all (\<lambda>e. q_Peek e \<or> burst_window e \<le> d) entries \<and> gc_spaced d (sint now) r evs"
| "gc_spaced d t r (GcTurn now # evs) \<longleftrightarrow> t \<le> now \<and> r + d \<le> now \<and> gc_spaced d now now evs"

section \<open>Which keys a call keeps alive\<close>

lemma peek_loop_recent:
  "peek_loop now i es st result idx = Some (st', r) \<Longrightarrow> recent st k \<Longrightarrow> recent st' k"
proof (induction es arbitrary: i st result idx)
  case (Cons e es)
  then show ?case
    by (auto simp: Let_def bind_eq_Some_conv split: if_splits dest: store_get_recent(2))
qed simp

lemma collect_recent:
  assumes "collect_buckets store_get st ks m = Some (m', st')"
  shows "recent st k \<Longrightarrow> recent st' k" and "k \<in> set ks \<Longrightarrow> k \<in> fst ` set m \<or> recent st' k"
proof -
  have "(recent st k \<longrightarrow> recent st' k) \<and> (k \<in> set ks \<longrightarrow> k \<in> fst ` set m \<or> recent st' k)"
    using assms
  proof (induction ks arbitrary: st m)
    case (Cons q ks)
    show ?case
    proof (cases "q \<in> fst ` set m")
      case True
      with Cons.IH [of st m] Cons.prems show ?thesis by auto
    next
      case False
      with Cons.prems obtain b st1 where g: "store_get st q = Some (b, st1)"
        and c: "collect_buckets store_get st1 ks (m @ [(q, b)]) = Some (m', st')"
        by (auto simp: bind_eq_Some_conv)
      from Cons.IH [OF c] store_get_recent(2) [OF g, of k] store_get_recent(1) [OF g] show ?thesis by auto
    qed
  qed simp
  then show "recent st k \<Longrightarrow> recent st' k" "k \<in> set ks \<Longrightarrow> k \<in> fst ` set m \<or> recent st' k" by blast+
qed

lemma write_back_recent [simp]: "recent (write_back write_tat st m w) = recent st"
  by (induction m arbitrary: st) auto

lemma Throttle_recent:
  assumes inv: "store_inv st" and t: "Throttle st None now entries = Some (st', rs, err)"
    and k: "recent st k \<or> k \<in> real_keys entries"
  shows "recent st' k"
proof -
  obtain st1 where p: "peek_loop now 0 entries st (replicate (length entries) zero_response) []
      = Some (st1, map (peek_fill now (tat_of st)) entries, real_indices entries 0)" "store_inv st1"
    using peek_loop_effect [OF inv, of "[]" "[]" now entries "[]"] by auto
  have st1: "recent st k \<Longrightarrow> recent st1 k" by (rule peek_loop_recent [OF p(1)])
  show ?thesis
  proof (cases "real_indices entries 0 = []")
    case True
    then have "real_keys entries = {}" using no_real_entries by (auto simp: real_keys_def)
    with True t p(1) st1 k show ?thesis by (simp add: Throttle_def)
  next
    case False
    with t p(1) obtain m st2 where
      c: "collect_buckets store_get st1 (map (\<lambda>i. q_Key (entries ! i)) (real_indices entries 0)) [] = Some (m, st2)"
      and st': "recent st' = recent st2"
      by (auto simp: Throttle_def evaluateRealGroup_def bind_eq_Some_conv Let_def split: if_splits)
    from collect_recent [OF c, of k] st1 k show ?thesis
      unfolding st' group_keys by auto
  qed
qed

section \<open>TATs that no check can tell apart\<close>

text \<open>From time \<open>t\<close> on two stored TATs are the same: equal, or both already past.\<close>

definition same_from :: "int \<Rightarrow> int64 \<Rightarrow> int64 \<Rightarrow> bool" where
  "same_from t a b \<longleftrightarrow> a = b \<or> sint a \<le> t \<and> sint b \<le> t"

lemma same_from_later: "same_from t a b \<Longrightarrow> t \<le> t' \<Longrightarrow> same_from t' a b"
  by (auto simp: same_from_def)

lemma same_from_max: "same_from (sint now) a b \<Longrightarrow> max (sint a) (sint now) = max (sint b) (sint now)"
  by (auto simp: same_from_def)

lemma gcra_spec_same:
  assumes "max a now = max b now"
  shows "fst (gcra_spec a now c u p q) = fst (gcra_spec b now c u p q)"
    and "fst (snd (gcra_spec a now c u p q)) = fst (snd (gcra_spec b now c u p q))"
    and "fst (snd (snd (gcra_spec a now c u p q))) = fst (snd (snd (gcra_spec b now c u p q)))"
    and "\<not> fst (gcra_spec b now c u p q) \<Longrightarrow> snd (snd (snd (gcra_spec a now c u p q))) = snd (snd (snd (gcra_spec b now c u p q)))"
  using assms by (simp_all add: gcra_spec_def headroom_def Let_def split: if_splits)

lemma chk_same:
  assumes now: "0 \<le> sint now" and same: "same_from (sint now) a b"
  shows "respond e (chk a now e) = respond e (chk b now e)"
    and "g_throttled (chk a now e) = g_throttled (chk b now e)"
    and "\<not> g_throttled (chk b now e) \<Longrightarrow> g_admittedTAT (chk a now e) = g_admittedTAT (chk b now e)"
proof -
  note spec = gcraCheck_eq_iff [OF now check_entry_chk [unfolded check_entry_def]]
  note eq = gcra_spec_same [OF same_from_max [OF same], where c = "sint (l_Capacity (q_Limit e))"
    and u = "sint (EffectiveUnits (r_Units (l_Rate (q_Limit e))))" and p = "sint (r_Period (l_Rate (q_Limit e)))"
    and q = "sint (EffectiveCost (q_Cost e))", unfolded spec fst_conv snd_conv]
  show "respond e (chk a now e) = respond e (chk b now e)"
    using eq [folded word_eq_iff_signed] by (simp add: respond_def set_result_def)
  show "g_throttled (chk a now e) = g_throttled (chk b now e)"
    "\<not> g_throttled (chk b now e) \<Longrightarrow> g_admittedTAT (chk a now e) = g_admittedTAT (chk b now e)"
    using eq [folded word_eq_iff_signed] by simp_all
qed

text \<open>Two calls that read such TATs leave the same value on a key, or each the one it read.\<close>

definition alike :: "(string \<Rightarrow> int64) \<Rightarrow> (string \<Rightarrow> int64) \<Rightarrow> (string \<Rightarrow> int64) \<Rightarrow> (string \<Rightarrow> int64) \<Rightarrow> bool" where
  "alike tat tat' w w' \<longleftrightarrow> (\<forall>k. w k = w' k \<or> w k = tat k \<and> w' k = tat' k)"

lemma alike_refl [simp]: "alike tat tat' tat tat'"
  by (simp add: alike_def)

lemma alike_same_from: "alike tat tat' w w' \<Longrightarrow> same_from t (tat k) (tat' k) \<Longrightarrow> same_from t (w k) (w' k)"
  by (metis alike_def same_from_def)

lemma advance_alike:
  assumes "0 \<le> sint now" "\<forall>k. same_from (sint now) (tat k) (tat' k)" "alike tat tat' w w'"
  shows "alike tat tat' (advance w now e) (advance w' now e)"
proof -
  have "same_from (sint now) (w (q_Key e)) (w' (q_Key e))" using assms(2,3) alike_same_from by blast
  from chk_same(2,3) [OF assms(1) this, of e] assms(3) show ?thesis
    by (auto simp: advance_def Let_def alike_def)
qed

lemma spec_eval_alike:
  assumes now: "0 \<le> sint now" and tat: "\<forall>k. same_from (sint now) (tat k) (tat' k)" and w: "alike tat tat' w w'"
  shows "fst (spec_eval now tat w es) = fst (spec_eval now tat' w' es)
    \<and> fst (snd (spec_eval now tat w es)) = fst (snd (spec_eval now tat' w' es))
    \<and> alike tat tat' (snd (snd (spec_eval now tat w es))) (snd (snd (spec_eval now tat' w' es)))"
  using w
proof (induction es arbitrary: w w')
  case (Cons e es)
  have same: "same_from (sint now) (w (q_Key e)) (w' (q_Key e))" using Cons.prems tat alike_same_from by blast
  note peek = chk_same(1) [OF now tat [rule_format], where e = e] and real = chk_same(1,2) [OF now same, where e = e]
  show ?case
    using Cons.IH [OF Cons.prems] Cons.IH [OF advance_alike [OF now tat Cons.prems, of e]] peek real
    by (simp add: case_prod_beta Let_def)
qed simp

lemma spec_throttle_alike:
  assumes "0 \<le> sint now" "\<forall>k. same_from (sint now) (tat k) (tat' k)"
  shows "snd (spec_throttle now tat es) = snd (spec_throttle now tat' es)"
    and "alike tat tat' (fst (spec_throttle now tat es)) (fst (spec_throttle now tat' es))"
  using spec_eval_alike [OF assms alike_refl, of es]
  by (simp_all add: spec_throttle_def case_prod_beta Let_def)

text \<open>A call writes no TAT further ahead of its clock reading than the longest window.\<close>

lemma advance_near:
  assumes "0 \<le> sint now" "\<forall>k. work k = tat k \<or> sint (work k) \<le> sint now + d" "burst_window e \<le> d"
  shows "\<forall>k. advance work now e k = tat k \<or> sint (advance work now e k) \<le> sint now + d"
  using assms(2,3) gcraCheck_admitted(3) [OF assms(1) check_entry_chk [of "work (q_Key e)" now e, unfolded check_entry_def]]
  by (auto simp: advance_def burst_window_def Let_def)

lemma spec_throttle_near:
  assumes "0 \<le> sint now" "list_all (\<lambda>e. q_Peek e \<or> burst_window e \<le> d) es"
  shows "fst (spec_throttle now tat es) k = tat k \<or> sint (fst (spec_throttle now tat es) k) \<le> sint now + d"
proof -
  have "\<forall>k. chain now es work k = tat k \<or> sint (chain now es work k) \<le> sint now + d"
    if "\<forall>k. work k = tat k \<or> sint (work k) \<le> sint now + d" for work
    using that assms(2)
  proof (induction es arbitrary: work)
    case (Cons e es)
    then show ?case
      using Cons.IH [of work] Cons.IH [OF advance_near [OF assms(1) Cons.prems(1), of e]]
      by (auto simp: chain_def)
  qed (simp add: chain_def)
  from this [of tat] show ?thesis unfolding spec_throttle_eq(2) by simp
qed

lemma spec_throttle_other: "k \<notin> real_keys es \<Longrightarrow> fst (spec_throttle now tat es) k = tat k"
  by (simp add: spec_throttle_def case_prod_beta Let_def spec_eval_other)

section \<open>The simulation\<close>

text \<open>
  At time \<open>t\<close>, the last turn having been at \<open>r\<close>: the store that is collected and the one that is not
  hold the same TATs as far as a check from \<open>t\<close> on can tell; no TAT is more than \<open>d\<close> ahead of \<open>t\<close>; and a
  key that the next turn drops has not been written since \<open>r\<close>.
\<close>

definition gc_related :: "int \<Rightarrow> int \<Rightarrow> int \<Rightarrow> store \<Rightarrow> store \<Rightarrow> bool" where
  "gc_related d t r st full \<longleftrightarrow> store_inv st \<and> store_inv full \<and> 0 \<le> t \<and> 0 \<le> d
   \<and> (\<forall>k. same_from t (tat_of st k) (tat_of full k) \<and> sint (tat_of st k) \<le> t + d
        \<and> (recent st k \<or> sint (tat_of st k) \<le> r + d))"

lemma gc_turn_related:
  assumes "gc_related d t r st full" "t \<le> now" "r + d \<le> now"
  shows "gc_related d now now (rotate_all st) full"
  using assms unfolding gc_related_def same_from_def tat_of_rotate
  by (auto simp: rotate_inv) (smt (verit))+

lemma call_related:
  assumes rel: "gc_related d t r st full" and t: "t \<le> sint now"
    and es: "list_all (\<lambda>e. q_Peek e \<or> burst_window e \<le> d) entries"
  obtains st' full' rs where "Throttle st None now entries = Some (st', rs, None)"
    "Throttle full None now entries = Some (full', rs, None)" "gc_related d (sint now) r st' full'"
proof -
  from rel have inv: "store_inv st" "store_inv full" and pos: "0 \<le> t" "0 \<le> d"
    and same: "\<And>k. same_from t (tat_of st k) (tat_of full k)" and ahead: "\<And>k. sint (tat_of st k) \<le> t + d"
    and idle: "\<And>k. recent st k \<or> sint (tat_of st k) \<le> r + d"
    by (auto simp: gc_related_def)
  have now: "0 \<le> sint now" using pos(1) t by simp
  have same': "\<forall>k. same_from (sint now) (tat_of st k) (tat_of full k)" using same same_from_later t by blast
  obtain st' where st': "Throttle st None now entries = Some (st', snd (spec_throttle now (tat_of st) entries), None)"
    "store_inv st'" "tat_of st' = fst (spec_throttle now (tat_of st) entries)"
    using Throttle_effect [OF inv(1)] by blast
  obtain full' where full': "Throttle full None now entries
      = Some (full', snd (spec_throttle now (tat_of st) entries), None)"
    "store_inv full'" "tat_of full' = fst (spec_throttle now (tat_of full) entries)"
    using Throttle_effect [OF inv(2)] unfolding spec_throttle_alike(1) [OF now same'] by blast
  have "same_from (sint now) (tat_of st' k) (tat_of full' k)" for k
    using alike_same_from [OF spec_throttle_alike(2) [OF now same']] same' unfolding st'(3) full'(3) by blast
  moreover have "sint (tat_of st' k) \<le> sint now + d" for k
    using spec_throttle_near [OF now es, of "tat_of st" k] ahead [of k] t unfolding st'(3) by (smt (verit))
  moreover have "recent st' k \<or> sint (tat_of st' k) \<le> r + d" for k
    using Throttle_recent [OF inv(1) st'(1), of k] spec_throttle_other [of k entries now "tat_of st"] idle [of k]
    unfolding st'(3) by metis
  ultimately have "gc_related d (sint now) r st' full'"
    using st'(2) full'(2) now pos(2) by (simp add: gc_related_def)
  with st'(1) full'(1) show thesis by (rule that)
qed

lemma run_server_related:
  assumes "gc_related d t r st full" "gc_spaced d t r evs"
  shows "\<exists>st' full' rss. run_server st evs = Some (st', rss)
    \<and> throttle_calls full (calls_of evs) = Some (full', rss)"
  using assms
proof (induction evs arbitrary: t r st full)
  case (Cons ev evs)
  show ?case
  proof (cases ev)
    case (Call now entries)
    with Cons.prems(2) have ev: "t \<le> sint now" "list_all (\<lambda>e. q_Peek e \<or> burst_window e \<le> d) entries"
      "gc_spaced d (sint now) r evs" by simp_all
    obtain st' full' rs where "Throttle st None now entries = Some (st', rs, None)"
      "Throttle full None now entries = Some (full', rs, None)" "gc_related d (sint now) r st' full'"
      by (rule call_related [OF Cons.prems(1) ev(1,2)])
    with Cons.IH [OF _ ev(3)] Call show ?thesis by fastforce
  next
    case (GcTurn now)
    with Cons.prems(2) have ev: "t \<le> now" "r + d \<le> now" "gc_spaced d now now evs" by simp_all
    from Cons.IH [OF gc_turn_related [OF Cons.prems(1) ev(1,2)] ev(3)] GcTurn show ?thesis
      by (simp add: Let_def)
  qed
qed simp

lemma gc_related_start:
  "0 \<le> start \<Longrightarrow> 0 \<le> d \<Longrightarrow> gc_related d start start (fst (newStore n g)) (fst (newStore n' g'))"
  by (simp add: gc_related_def newStore_inv same_from_def)

text \<open>The responses of calls made one after the other, on the map from keys to TATs.\<close>

fun spec_calls :: "(string \<Rightarrow> int64) \<Rightarrow> (int64 \<times> request_entry list) list \<Rightarrow> response_entry list list" where
  "spec_calls tat [] = []"
| "spec_calls tat ((now, entries) # calls) =
     (let (tat', rs) = spec_throttle now tat entries in rs # spec_calls tat' calls)"

lemma throttle_calls_spec:
  "store_inv st \<Longrightarrow> \<exists>st'. throttle_calls st calls = Some (st', spec_calls (tat_of st) calls)"
proof (induction calls arbitrary: st)
  case (Cons call calls)
  obtain now es where call: "call = (now, es)" by force
  obtain st1 where "Throttle st None now es = Some (st1, snd (spec_throttle now (tat_of st) es), None)"
    "store_inv st1" "tat_of st1 = fst (spec_throttle now (tat_of st) es)"
    using Throttle_effect [OF Cons.prems] by blast
  with Cons.IH [of st1] call show ?case by (auto simp: case_prod_beta Let_def)
qed simp

text \<open>Three calls for a full bucket, whose window is 2000: the second is refused, the third not.\<close>

definition full_bucket :: request_entry where
  "full_bucket = example_entry ''a'' 2 False"

lemma full_bucket_checks:
  "gcraCheck 0 5000 2 1 1000 2
     = Some \<lparr>g_throttled = False, g_remaining = 2, g_retryAfter = 0, g_admittedTAT = 7000\<rparr>"
  "gcraCheck 7000 6000 2 1 1000 2
     = Some \<lparr>g_throttled = True, g_remaining = 1, g_retryAfter = 1000, g_admittedTAT = 7000\<rparr>"
  "gcraCheck 0 6000 2 1 1000 2
     = Some \<lparr>g_throttled = False, g_remaining = 2, g_retryAfter = 0, g_admittedTAT = 8000\<rparr>"
  "gcraCheck 7000 9600 2 1 1000 2
     = Some \<lparr>g_throttled = False, g_remaining = 2, g_retryAfter = 0, g_admittedTAT = 11600\<rparr>"
  by code_simp+

lemmas full_bucket_simps = full_bucket_def full_bucket_checks example_simps

lemma burst_window_full_bucket: "burst_window full_bucket = 2000"
  by (simp add: burst_window_def full_bucket_def example_entry_def max_debt_def EffectiveUnits_id)

text \<open>
  With two turns 100 apart while the bucket is full the key is forgotten, and the second call, which
  calls made without a turn in between refuse, is admitted.
\<close>

lemma gc_too_often:
  "\<exists>st' r r'. run_server (fst (newStore 4 0))
       [Call 5000 [full_bucket], GcTurn 5100, GcTurn 5200, Call 6000 [full_bucket]] = Some (st', [[r], [r']])
     \<and> \<not> s_Throttled r' \<and> \<not> gc_spaced 2000 0 0 [Call 5000 [full_bucket], GcTurn 5100, GcTurn 5200, Call 6000 [full_bucket]]"
proof -
  let ?st = "fst (newStore 4 0)"
  have tat: "tat_of ?st = (\<lambda>_. 0)" by (rule ext) simp
  obtain st1 r where st1: "Throttle ?st None 5000 [full_bucket] = Some (st1, [r], None)" "store_inv st1"
    using Throttle_effect [OF newStore_inv, of 4 0 5000 "[full_bucket]"]
    by (auto simp: spec_throttle_def case_prod_beta Let_def)
  have inv2: "store_inv (rotate_all (rotate_all st1))" by (intro rotate_inv st1(2))
  have tat2: "tat_of (rotate_all (rotate_all st1)) = (\<lambda>_. 0)" by (rule ext) (simp add: tat_of_rotate)
  obtain st2 r' where "Throttle (rotate_all (rotate_all st1)) None 6000 [full_bucket] = Some (st2, [r'], None)"
    "\<not> s_Throttled r'"
    using Throttle_effect [OF inv2, of 6000 "[full_bucket]"] unfolding tat2
    by (auto simp: full_bucket_simps)
  with st1(1) show ?thesis by (simp add: Let_def)
qed

section \<open>Properties\<close>

text \<open>
  C7 (equivalence). Garbage collection does not show. From the start of the server on, let the turns of
  the GC loop be at least \<open>d\<close> apart and no Real entry have a burst window
  (\<open>capacity * period / units\<close>) longer than \<open>d\<close>. Then every call gets exactly the responses of a store
  that is never collected, whatever its number of stripes.
\<close>

theorem gc_transparent:
  assumes "0 \<le> start" "0 \<le> d" "gc_spaced d start start evs"
  shows "\<exists>st' full' rss. run_server (fst (newStore n g)) evs = Some (st', rss)
    \<and> throttle_calls (fst (newStore n' g')) (calls_of evs) = Some (full', rss)"
  using gc_related_start [OF assms(1,2)] assms(3) by (rule run_server_related)

text \<open>The last two turns drop the key, whose TAT has passed by then.\<close>

theorem gc_transparent_witness:
  "\<exists>st' rss. run_server (fst (newStore 4 0))
       [Call 5000 [full_bucket], GcTurn 5500, Call 6000 [full_bucket], GcTurn 7500, GcTurn 9500,
        Call 9600 [full_bucket]] = Some (st', rss)
     \<and> map (map s_Throttled) rss = [[False], [True], [False]]"
proof -
  let ?evs = "[Call 5000 [full_bucket], GcTurn 5500, Call 6000 [full_bucket], GcTurn 7500, GcTurn 9500,
        Call 9600 [full_bucket]]"
  have "gc_spaced 2000 0 0 ?evs" by (simp add: burst_window_full_bucket)
  then obtain st' full' rss where run: "run_server (fst (newStore 4 0)) ?evs = Some (st', rss)"
    and calls: "throttle_calls (fst (newStore 4 0)) (calls_of ?evs) = Some (full', rss)"
    using gc_transparent [of 0 2000 ?evs 4 0 4 0] by auto
  have tat: "tat_of (fst (newStore 4 0)) = (\<lambda>_. 0)" by (rule ext) simp
  have "rss = spec_calls (\<lambda>_. 0) (calls_of ?evs)"
    using throttle_calls_spec [OF newStore_inv, of 4 0 "calls_of ?evs"] calls unfolding tat by simp
  then have "map (map s_Throttled) rss = [[False], [True], [False]]"
    by (simp add: full_bucket_simps)
  with run show ?thesis by (intro exI conjI)
qed

end
