(* ===== verification/TimedServer.thy ===== *)
theory TimedServer
  imports Serializability GcTransparent
begin

text \<open>
  The life of a server in time: concurrent calls, bucket by bucket, with the GC loop running, on a
  clock. The GC does not show if any two turns are further apart than the longest burst window and the
  longest call together: then what the calls are answered is what \<open>Throttle\<close> calls made one after the
  other would be, on a store that is never collected. (\<open>GcTransparent\<close> is about calls that take no time,
  \<open>Serializability\<close> about runs with no clock, in which the GC must be trusted to let go of no bucket in
  use. Here it is the clock that sees to it.)
\<close>

section \<open>The model\<close>

text \<open>The time, the time each stripe was last rotated, and the calls with their store and locks.\<close>

record timed =
  m_now :: int
  m_turned :: "nat \<Rightarrow> int"
  m_sys :: tx_sys

definition start_timed :: "int \<Rightarrow> store \<Rightarrow> (nat \<Rightarrow> int64 \<times> request_entry list \<times> nat option) \<Rightarrow> timed" where
  "start_timed start st reqs = \<lparr>m_now = start, m_turned = (\<lambda>_. start), m_sys = start_sys st reqs\<rparr>"

text \<open>
  A call reads the clock first, and takes at most \<open>l\<close> from there; a stripe is rotated no sooner than
  \<open>d + l\<close> after it was last.
\<close>

inductive timed_step :: "int \<Rightarrow> int \<Rightarrow> timed \<Rightarrow> timed \<Rightarrow> bool" for d l where
  passes: "m_now m \<le> t \<Longrightarrow> timed_step d l m (m\<lparr>m_now := t\<rparr>)"
| tx: "tx_step i (m_sys m) s \<Longrightarrow> sint (x_now (t_tx (m_sys m) i)) \<le> m_now m \<Longrightarrow>
    m_now m \<le> sint (x_now (t_tx (m_sys m) i)) + l \<Longrightarrow> timed_step d l m (m\<lparr>m_sys := s\<rparr>)"
| rotate: "j < length (stripes (t_store (m_sys m))) \<Longrightarrow> m_turned m j + d + l \<le> m_now m \<Longrightarrow>
    timed_step d l m (m\<lparr>m_turned := (m_turned m)(j := m_now m),
      m_sys := (m_sys m)\<lparr>t_store := rotate_nth (t_store (m_sys m)) j\<rparr>\<rparr>)"

section \<open>What a step leaves alone\<close>

lemma tx_step_same:
  assumes "tx_step i s s'"
  shows "decided (t_tx s j) \<Longrightarrow> same_tx (t_tx s j) (t_tx s' j)"
    and "x_now (t_tx s' j) = x_now (t_tx s j)" "x_entries (t_tx s' j) = x_entries (t_tx s j)"
    and "x_pc (t_tx s i) = Load [] \<Longrightarrow> t_store s' = t_store s \<and> x_bs (t_tx s' j) = x_bs (t_tx s j)"
    and "decided (t_tx s j) \<Longrightarrow> decided (t_tx s' j)"
proof -
  have "(decided (t_tx s j) \<longrightarrow> same_tx (t_tx s j) (t_tx s' j) \<and> decided (t_tx s' j))
    \<and> x_now (t_tx s' j) = x_now (t_tx s j) \<and> x_entries (t_tx s' j) = x_entries (t_tx s j)
    \<and> (x_pc (t_tx s i) = Load [] \<longrightarrow> t_store s' = t_store s \<and> x_bs (t_tx s' j) = x_bs (t_tx s j))"
  proof (cases "j = i")
    case True
    from assms show ?thesis unfolding True by cases (simp_all add: same_tx_def decided_def)
  next
    case False
    have "x_pc (t_tx s i) = Load [] \<longrightarrow> t_store s' = t_store s"
      using assms by cases auto
    then show ?thesis using tx_step_other [OF assms False] by (simp add: same_tx_def)
  qed
  then show "decided (t_tx s j) \<Longrightarrow> same_tx (t_tx s j) (t_tx s' j)"
    "x_now (t_tx s' j) = x_now (t_tx s j)" "x_entries (t_tx s' j) = x_entries (t_tx s j)"
    "x_pc (t_tx s i) = Load [] \<Longrightarrow> t_store s' = t_store s \<and> x_bs (t_tx s' j) = x_bs (t_tx s j)"
    "decided (t_tx s j) \<Longrightarrow> decided (t_tx s' j)" by blast+
qed

text \<open>The bucket of a key, and the keys asked for since the last rotation.\<close>

lemma tx_step_store:
  assumes step: "tx_step i s s'" and inv: "store_inv (t_store s)"
  shows "bucket_addr (t_store s) k = Some b \<Longrightarrow> bucket_addr (t_store s') k = Some b"
    and "recent (t_store s) k \<Longrightarrow> recent (t_store s') k"
    and "stripeFor (t_store s') = stripeFor (t_store s)"
    and "(k, b) \<in> set (x_bs (t_tx s' i)) \<Longrightarrow> (k, b) \<in> set (x_bs (t_tx s i))
      \<or> bucket_addr (t_store s') k = Some b \<and> recent (t_store s') k"
    and "bucket_addr (t_store s) k = None \<Longrightarrow> bucket_addr (t_store s') k = Some b \<Longrightarrow> length (heap (t_store s)) \<le> b"
proof -
  have "(bucket_addr (t_store s) k = Some b \<longrightarrow> bucket_addr (t_store s') k = Some b)
    \<and> (recent (t_store s) k \<longrightarrow> recent (t_store s') k) \<and> stripeFor (t_store s') = stripeFor (t_store s)
    \<and> ((k, b) \<in> set (x_bs (t_tx s' i)) \<longrightarrow> (k, b) \<in> set (x_bs (t_tx s i))
      \<or> bucket_addr (t_store s') k = Some b \<and> recent (t_store s') k)
    \<and> (bucket_addr (t_store s) k = None \<longrightarrow> bucket_addr (t_store s') k = Some b \<longrightarrow> length (heap (t_store s)) \<le> b)"
    using step
  proof cases
    case (collect x k' ks b' st')
    note addr = store_get_addr [OF collect(5) inv]
    show ?thesis
      using collect(2) addr store_get_recent [OF collect(5)] store_get_stripeFor [OF collect(5)]
      by (auto simp: collect(1) split: option.splits if_splits)
  qed simp_all
  then show "bucket_addr (t_store s) k = Some b \<Longrightarrow> bucket_addr (t_store s') k = Some b"
    "recent (t_store s) k \<Longrightarrow> recent (t_store s') k" "stripeFor (t_store s') = stripeFor (t_store s)"
    "(k, b) \<in> set (x_bs (t_tx s' i)) \<Longrightarrow> (k, b) \<in> set (x_bs (t_tx s i))
      \<or> bucket_addr (t_store s') k = Some b \<and> recent (t_store s') k"
    "bucket_addr (t_store s) k = None \<Longrightarrow> bucket_addr (t_store s') k = Some b \<Longrightarrow> length (heap (t_store s)) \<le> b"
    by blast+
qed

text \<open>What the buckets of the store hold in the serial run; a key without one reads as fresh.\<close>

definition seen :: "tx_sys \<Rightarrow> (addr \<Rightarrow> int64) \<Rightarrow> string \<Rightarrow> int64" where
  "seen s h k = (case bucket_addr (t_store s) k of None \<Rightarrow> 0 | Some b \<Rightarrow> h b)"

lemma unmade_bucket:
  assumes "sys_inv reqs s" "heap_inv s h" "length (heap (t_store s)) \<le> b"
  shows "h b = 0"
proof -
  have "\<not> pending s b"
  proof
    assume "pending s b"
    then obtain i where "pends (t_tx s i) b" by (auto simp: pending_def)
    then have "holds (t_tx s i) b" by (rule pends_holds [OF assms(1)])
    then have "\<exists>k. bound s k b" by (auto simp: holds_def bound_def)
    with assms(1) have "b < length (heap (t_store s))" unfolding sys_inv_def alloc_inv_def by blast
    with assms(3) show False by simp
  qed
  with assms(2,3) show ?thesis by (simp add: heap_inv_def cell_def)
qed

lemma tx_step_seen:
  assumes "tx_step i s s'" "sys_inv reqs s" "heap_inv s h"
  shows "seen s' h = seen s h"
proof
  fix k
  have inv: "store_inv (t_store s)" using assms(2) by (simp add: sys_inv_def alloc_inv_def)
  note store = tx_step_store [OF assms(1) inv]
  show "seen s' h k = seen s h k"
  proof (cases "bucket_addr (t_store s) k")
    case None
    with store(5) unmade_bucket [OF assms(2,3)] show ?thesis by (auto simp: seen_def split: option.split)
  next
    case (Some b)
    with store(1) show ?thesis by (simp add: seen_def)
  qed
qed

text \<open>A transaction that decides with the buckets of the store does what its call does on what they show.\<close>

lemma decides_on_seen:
  fixes h :: "addr \<Rightarrow> int64"
  assumes inv: "sys_inv reqs s" and x: "x_pc (t_tx s i) = Load []"
    and own: "\<forall>(k, b) \<in> set (x_bs (t_tx s i)). bucket_addr (t_store s) k = Some b"
  defines "sp \<equiv> spec_throttle (x_now (t_tx s i)) (seen s h) (x_entries (t_tx s i))"
  shows "snd (tx_spec (t_tx s i) h) = snd sp" "seen s (tx_heap (t_tx s i) h) = fst sp"
proof -
  let ?x = "t_tx s i"
  let ?K = "q_Key ` set (x_entries ?x)"
  have keys: "fst ` set (x_bs ?x) = ?K" and dist: "distinct (map fst (x_bs ?x))"
    using sys_inv_tx(1,3) [OF inv, of i] x by simp_all
  have same: "\<forall>k \<in> ?K. seen s h k = view h (x_bs ?x) k"
    using own view_in [OF dist] unfolding keys [symmetric] by (fastforce simp: seen_def)
  note sk = spec_throttle_keys [OF same, where now = "x_now ?x", folded tx_spec_def sp_def]
  show "snd (tx_spec ?x h) = snd sp" using sk(1) by (simp add: tx_spec_def)
  show "seen s (tx_heap ?x h) = fst sp"
  proof
    fix k
    show "seen s (tx_heap ?x h) k = fst sp k"
    proof (cases "k \<in> ?K")
      case True
      then obtain b where b: "(k, b) \<in> set (x_bs ?x)" unfolding keys [symmetric] by auto
      then have "tx_heap ?x h b = fst (tx_spec ?x h) k"
        unfolding tx_heap_def using bucket_key [OF inv] by (intro put_in) auto
      with sk(2) [OF True] own b show ?thesis by (auto simp: seen_def tx_spec_def)
    next
      case False
      have "tx_heap ?x h b = h b" if "bucket_addr (t_store s) k = Some b" for b
      proof (rule tx_heap_other, rule notI)
        assume "b \<in> snd ` set (x_bs ?x)"
        then obtain k' where k': "(k', b) \<in> set (x_bs ?x)" by auto
        then have "bound s k' b" "bound s k b" using that by (auto simp: bound_def)
        then have "k' = k" using inv unfolding sys_inv_def alloc_inv_def by blast
        with k' False keys show False by force
      qed
      with sk(3) [OF False] show ?thesis by (simp add: seen_def split: option.split)
    qed
  qed
qed

section \<open>The simulation\<close>

text \<open>The TATs and the answers of calls made one after the other, with the last call split off.\<close>

definition tats_after :: "(string \<Rightarrow> int64) \<Rightarrow> (int64 \<times> request_entry list) list \<Rightarrow> string \<Rightarrow> int64" where
  "tats_after tat calls = foldl (\<lambda>tat (now, es). fst (spec_throttle now tat es)) tat calls"

lemma tats_after_simps [simp]:
  "tats_after tat [] = tat"
  "tats_after tat (calls @ [(now, es)]) = fst (spec_throttle now (tats_after tat calls) es)"
  by (simp_all add: tats_after_def)

lemma spec_calls_snoc:
  "spec_calls tat (calls @ [(now, es)]) = spec_calls tat calls @ [snd (spec_throttle now (tats_after tat calls) es)]"
  by (induction calls arbitrary: tat) (auto simp: tats_after_def case_prod_beta Let_def)

text \<open>Whatever is known of a key that is not recent is not later than the last rotation of its stripe.\<close>

definition since :: "store \<Rightarrow> (nat \<Rightarrow> int) \<Rightarrow> string \<Rightarrow> int \<Rightarrow> bool" where
  "since st turned k t \<longleftrightarrow> recent st k \<or> (\<forall>j. stripeFor st k = Some j \<longrightarrow> t \<le> turned j)"

lemma since_rotate:
  assumes "since st turned k t" "t \<le> now"
  shows "since (rotate_nth st j) (turned(j := now)) k t"
  using assms rotate_nth_stripe(2) [of st k j] by (cases "stripeFor st k = Some j") (auto simp: since_def)

lemma rotate_keeps_or_old:
  assumes "since st turned k t"
  shows "bucket_addr (rotate_nth st j) k = bucket_addr st k \<or> stripeFor st k = Some j \<and> t \<le> turned j"
  using assms rotate_nth_stripe(1) [of st k j] rotate_nth_recent [of st k j] by (auto simp: since_def)

text \<open>
  The invariant, at time \<open>now\<close>. What the buckets hold and the TATs of the store that is never collected
  are the same for every check of a call that may still be running; no TAT is more than \<open>d\<close> ahead, and
  the bucket that a rotation drops is already drained for all of them. A call that may still decide
  has the buckets of the store.
\<close>

definition tats_inv :: "int \<Rightarrow> int \<Rightarrow> timed \<Rightarrow> (string \<Rightarrow> int64) \<Rightarrow> (string \<Rightarrow> int64) \<Rightarrow> bool" where
  "tats_inv d l m v tat \<longleftrightarrow> (\<forall>k. same_from (m_now m - l) (v k) (tat k) \<and> sint (v k) \<le> m_now m + d
     \<and> since (t_store (m_sys m)) (m_turned m) k (sint (v k) - d))"

definition calls_inv :: "int \<Rightarrow> timed \<Rightarrow> bool" where
  "calls_inv l m \<longleftrightarrow> (\<forall>i. let x = t_tx (m_sys m) i in
     (x_bs x \<noteq> [] \<longrightarrow> sint (x_now x) \<le> m_now m)
   \<and> (\<not> decided x \<longrightarrow> m_now m \<le> sint (x_now x) + l \<longrightarrow>
        (\<forall>(k, b) \<in> set (x_bs x). bucket_addr (t_store (m_sys m)) k = Some b
           \<and> since (t_store (m_sys m)) (m_turned m) k (sint (x_now x)))))"

lemma calls_invD:
  assumes "calls_inv l m"
  shows "x_bs (t_tx (m_sys m) i) \<noteq> [] \<Longrightarrow> sint (x_now (t_tx (m_sys m) i)) \<le> m_now m"
    and "\<not> decided (t_tx (m_sys m) i) \<Longrightarrow> m_now m \<le> sint (x_now (t_tx (m_sys m) i)) + l \<Longrightarrow>
      (k, b) \<in> set (x_bs (t_tx (m_sys m) i)) \<Longrightarrow> bucket_addr (t_store (m_sys m)) k = Some b
        \<and> since (t_store (m_sys m)) (m_turned m) k (sint (x_now (t_tx (m_sys m) i)))"
  using assms unfolding calls_inv_def Let_def by blast+

lemma calls_invI:
  assumes "\<And>i. x_bs (t_tx (m_sys m) i) \<noteq> [] \<Longrightarrow> sint (x_now (t_tx (m_sys m) i)) \<le> m_now m"
    and "\<And>i k b. \<not> decided (t_tx (m_sys m) i) \<Longrightarrow> m_now m \<le> sint (x_now (t_tx (m_sys m) i)) + l \<Longrightarrow>
      (k, b) \<in> set (x_bs (t_tx (m_sys m) i)) \<Longrightarrow> bucket_addr (t_store (m_sys m)) k = Some b
        \<and> since (t_store (m_sys m)) (m_turned m) k (sint (x_now (t_tx (m_sys m) i)))"
  shows "calls_inv l m"
  using assms unfolding calls_inv_def Let_def by blast

lemma tats_inv_rotate:
  assumes inv: "tats_inv d l m (seen (m_sys m) h) tat" and turned: "\<forall>j. 0 \<le> m_turned m j" "0 \<le> d" and l: "0 \<le> l"
    and j: "m_turned m j + d + l \<le> m_now m"
  defines "m' \<equiv> m\<lparr>m_turned := (m_turned m)(j := m_now m),
      m_sys := (m_sys m)\<lparr>t_store := rotate_nth (t_store (m_sys m)) j\<rparr>\<rparr>"
  shows "tats_inv d l m' (seen (m_sys m') h) tat"
  unfolding tats_inv_def
proof
  fix k
  let ?st = "t_store (m_sys m)" and ?v = "seen (m_sys m) h k" and ?v' = "seen (m_sys m') h k"
  have k: "same_from (m_now m - l) ?v (tat k)" "sint ?v \<le> m_now m + d" "since ?st (m_turned m) k (sint ?v - d)"
    using inv by (simp_all add: tats_inv_def)
  have st: "t_store (m_sys m') = rotate_nth ?st j" "m_turned m' = (m_turned m)(j := m_now m)" "m_now m' = m_now m"
    by (simp_all add: m'_def)
  have zero: "0 \<le> m_now m - l" using turned j by (smt (verit))
  consider "?v' = ?v" | "?v' = 0" "sint ?v \<le> m_turned m j + d"
  proof (cases "bucket_addr (rotate_nth ?st j) k = bucket_addr ?st k")
    case True
    then have "?v' = ?v" by (simp add: seen_def st(1))
    then show thesis by (rule that(1))
  next
    case False
    with rotate_keeps_or_old [OF k(3), of j] bucket_addr_rotate_nth [of ?st j k] show thesis
      by (intro that(2)) (cases "bucket_addr (rotate_nth ?st j) k"; simp add: seen_def st(1))+
  qed
  then have "same_from (m_now m - l) ?v' (tat k) \<and> sint ?v' \<le> m_now m + d
    \<and> since ?st (m_turned m) k (sint ?v' - d)"
  proof cases
    case 1
    with k show ?thesis by simp
  next
    case 2
    then have "sint ?v \<le> m_now m - l" using j by simp
    then have "sint (tat k) \<le> m_now m - l" using k(1) by (auto simp: same_from_def)
    moreover have "- d \<le> m_turned m i" for i using turned(1) [rule_format, of i] turned(2) by simp
    ultimately show ?thesis using 2 zero turned(2) l by (simp add: same_from_def since_def)
  qed
  then show "same_from (m_now m' - l) ?v' (tat k) \<and> sint ?v' \<le> m_now m' + d
     \<and> since (t_store (m_sys m')) (m_turned m') k (sint ?v' - d)"
    unfolding st by (simp add: since_rotate)
qed

lemma calls_inv_rotate:
  assumes inv: "calls_inv l m" and d: "0 < d" and j: "m_turned m j + d + l \<le> m_now m"
  shows "calls_inv l (m\<lparr>m_turned := (m_turned m)(j := m_now m),
      m_sys := (m_sys m)\<lparr>t_store := rotate_nth (t_store (m_sys m)) j\<rparr>\<rparr>)"
proof (rule calls_invI, goal_cases)
  case (1 i)
  with calls_invD(1) [OF inv, of i] show ?case by simp
next
  case (2 i k b)
  let ?x = "t_tx (m_sys m) i"
  from 2 have old: "bucket_addr (t_store (m_sys m)) k = Some b"
    "since (t_store (m_sys m)) (m_turned m) k (sint (x_now ?x))" and now: "m_now m \<le> sint (x_now ?x) + l"
    using calls_invD(2) [OF inv, of i k b] by simp_all
  have "x_bs ?x \<noteq> []" using 2 by auto
  then have "sint (x_now ?x) \<le> m_now m" by (rule calls_invD(1) [OF inv])
  moreover have "\<not> sint (x_now ?x) \<le> m_turned m j" using now d j by simp
  ultimately show ?case
    using rotate_keeps_or_old [OF old(2), of j] since_rotate [OF old(2)] old(1) by simp
qed

lemma calls_inv_tx:
  assumes inv: "calls_inv l m" and step: "tx_step i (m_sys m) s" and st: "store_inv (t_store (m_sys m))"
    and now: "sint (x_now (t_tx (m_sys m) i)) \<le> m_now m"
  shows "calls_inv l (m\<lparr>m_sys := s\<rparr>)"
proof (rule calls_invI, goal_cases)
  case (1 j)
  then show ?case
    using calls_invD(1) [OF inv, of j] now tx_step_other [OF step, of j] tx_step_same(2) [OF step, of i]
    by (cases "j = i") auto
next
  case (2 j k b)
  note same = tx_step_same [OF step, of j] and store = tx_step_store [OF step st]
  have mono: "since (t_store s) (m_turned m) k t" if "since (t_store (m_sys m)) (m_turned m) k t" for t
    using that store(2,3) by (auto simp: since_def)
  have "(k, b) \<in> set (x_bs (t_tx (m_sys m) j)) \<or> bucket_addr (t_store s) k = Some b \<and> recent (t_store s) k"
    using 2(3) store(4) [of k b] tx_step_other [OF step, of j] by (cases "j = i") auto
  then show ?case
  proof
    assume old: "(k, b) \<in> set (x_bs (t_tx (m_sys m) j))"
    have "\<not> decided (t_tx (m_sys m) j)" "m_now m \<le> sint (x_now (t_tx (m_sys m) j)) + l"
      using 2(1,2) same(2,5) by auto
    from calls_invD(2) [OF inv this old] store(1) mono same(2) show ?case by simp
  qed (simp add: since_def)
qed

text \<open>The steps that do not decide leave both sides as they are; one that decides makes a call on both.\<close>

lemma tats_inv_tx:
  assumes inv: "tats_inv d l m v tat" and step: "tx_step i (m_sys m) s" and st: "store_inv (t_store (m_sys m))"
  shows "tats_inv d l (m\<lparr>m_sys := s\<rparr>) v tat"
  using inv tx_step_store(2,3) [OF step st] by (auto simp: tats_inv_def since_def)

lemma tats_inv_call:
  assumes inv: "tats_inv d l m v tat" and now: "0 \<le> sint now" "sint now \<le> m_now m" "m_now m \<le> sint now + l"
    and es: "list_all (\<lambda>e. q_Peek e \<or> burst_window e \<le> d) es"
    and own: "\<forall>k \<in> q_Key ` set es. since (t_store (m_sys m)) (m_turned m) k (sint now)"
  shows "snd (spec_throttle now v es) = snd (spec_throttle now tat es)"
    and "tats_inv d l m (fst (spec_throttle now v es)) (fst (spec_throttle now tat es))"
proof -
  let ?w = "fst (spec_throttle now v es)" and ?tat = "fst (spec_throttle now tat es)"
  have old: "same_from (m_now m - l) (v k) (tat k)" "sint (v k) \<le> m_now m + d"
    "since (t_store (m_sys m)) (m_turned m) k (sint (v k) - d)" for k
    using inv by (simp_all add: tats_inv_def)
  have same: "\<forall>k. same_from (sint now) (v k) (tat k)"
    using old(1) same_from_later now(3) by (metis diff_le_eq)
  show "snd (spec_throttle now v es) = snd (spec_throttle now tat es)"
    by (rule spec_throttle_alike(1) [OF now(1) same])
  have "same_from (m_now m - l) (?w k) (?tat k)" for k
    by (rule alike_same_from [OF spec_throttle_alike(2) [OF now(1) same] old(1)])
  moreover have "sint (?w k) \<le> m_now m + d \<and> since (t_store (m_sys m)) (m_turned m) k (sint (?w k) - d)" for k
  proof (cases "?w k = v k")
    case True
    with old(2,3) [of k] show ?thesis by simp
  next
    case False
    then have near: "sint (?w k) \<le> sint now + d" using spec_throttle_near [OF now(1) es, of v k] by simp
    have "k \<in> real_keys es" using False spec_throttle_other by metis
    then have "since (t_store (m_sys m)) (m_turned m) k (sint now)" using own by (auto simp: real_keys_def)
    with near now(2) show ?thesis by (auto simp: since_def)
  qed
  ultimately show "tats_inv d l m ?w ?tat" by (simp add: tats_inv_def)
qed

definition serial_calls_of :: "(nat \<Rightarrow> int64 \<times> request_entry list \<times> nat option) \<Rightarrow> nat list
    \<Rightarrow> (int64 \<times> request_entry list) list" where
  "serial_calls_of reqs log = map (\<lambda>i. (fst (reqs i), fst (snd (reqs i)))) log"

definition timed_inv ::
  "int \<Rightarrow> int \<Rightarrow> store \<Rightarrow> (nat \<Rightarrow> int64 \<times> request_entry list \<times> nat option) \<Rightarrow> timed \<Rightarrow> nat list \<Rightarrow> bool" where
  "timed_inv d l st reqs m log \<longleftrightarrow> sys_inv reqs (m_sys m) \<and> serial_inv st reqs (m_sys m) log
   \<and> serial_answers (t_tx (m_sys m)) (cell st) log = spec_calls (tat_of st) (serial_calls_of reqs log)
   \<and> 0 \<le> m_now m \<and> (\<forall>j. 0 \<le> m_turned m j) \<and> calls_inv l m
   \<and> tats_inv d l m (seen (m_sys m) (serial_heap (t_tx (m_sys m)) (cell st) log))
       (tats_after (tat_of st) (serial_calls_of reqs log))"

lemma timed_inv_tx:
  assumes inv: "timed_inv d l st reqs m log" and step: "tx_step i (m_sys m) s"
    and now: "sint (x_now (t_tx (m_sys m) i)) \<le> m_now m" "m_now m \<le> sint (x_now (t_tx (m_sys m) i)) + l"
    and req: "0 \<le> sint (fst (reqs i))" "list_all (\<lambda>e. q_Peek e \<or> burst_window e \<le> d) (fst (snd (reqs i)))"
  shows "\<exists>log. timed_inv d l st reqs (m\<lparr>m_sys := s\<rparr>) log"
proof -
  let ?s = "m_sys m" and ?h = "serial_heap (t_tx (m_sys m)) (cell st) log"
  have si: "sys_inv reqs ?s" and ser: "serial_inv st reqs ?s log" and calls: "calls_inv l m"
    and ans: "serial_answers (t_tx ?s) (cell st) log = spec_calls (tat_of st) (serial_calls_of reqs log)"
    and tats: "tats_inv d l m (seen ?s ?h) (tats_after (tat_of st) (serial_calls_of reqs log))"
    using inv by (simp_all add: timed_inv_def)
  have sto: "store_inv (t_store ?s)" using si by (simp add: sys_inv_def alloc_inv_def)
  have hi: "heap_inv ?s ?h" and dec: "\<And>j. j \<in> set log \<longleftrightarrow> decided (t_tx ?s j)"
    using ser by (simp_all add: serial_inv_def)
  have si': "sys_inv reqs s" by (rule sys_step_inv [OF sys_step.tx [OF step] si])
  note calls' = calls_inv_tx [OF calls step sto now(1)] and ser' = tx_step_serial [OF step si ser]
  have "\<forall>j \<in> set log. same_tx (t_tx ?s j) (t_tx s j)" using tx_step_same(1) [OF step] dec by blast
  note cong = serial_cong [OF this]
  note seen' = tx_step_seen [OF step si hi]
  note rest = inv [unfolded timed_inv_def]
  show ?thesis
  proof (cases "x_pc (t_tx ?s i) = Load []")
    case False
    then have "timed_inv d l st reqs (m\<lparr>m_sys := s\<rparr>) log"
      using rest si' ser' calls' ans tats_inv_tx [OF tats step sto]
      by (simp add: timed_inv_def seen' cong [symmetric])
    then show ?thesis by blast
  next
    case True
    let ?x = "t_tx ?s i" and ?calls = "serial_calls_of reqs log"
    let ?sp = "spec_throttle (x_now ?x) (seen ?s ?h) (x_entries ?x)"
    have x: "x_now ?x = fst (reqs i)" "x_entries ?x = fst (snd (reqs i))"
      using sys_inv_tx(4) [OF si, of i] by (metis fst_conv snd_conv)+
    have "\<not> decided ?x" using True by (simp add: decided_def)
    note mine = calls_invD(2) [OF calls this now(2)]
    then have own: "\<forall>(k, b) \<in> set (x_bs ?x). bucket_addr (t_store ?s) k = Some b" by blast
    have "fst ` set (x_bs ?x) = q_Key ` set (x_entries ?x)" using sys_inv_tx(3) [OF si, of i] True by simp
    then have keys: "\<forall>k \<in> q_Key ` set (x_entries ?x). since (t_store ?s) (m_turned m) k (sint (x_now ?x))"
      using mine by (metis (no_types, lifting) imageE prod.collapse)
    note d = decides_on_seen [OF si True own, of ?h]
    note call = tats_inv_call [OF tats _ now _ keys, unfolded x, OF req, folded x]
    have heap': "tx_heap (t_tx s i) = tx_heap ?x" "tx_spec (t_tx s i) = tx_spec ?x"
      using tx_step_same(2-4) [OF step, of i] True by (simp_all add: fun_eq_iff tx_heap_def tx_spec_def)
    have snoc: "serial_calls_of reqs (log @ [i]) = ?calls @ [(x_now ?x, x_entries ?x)]"
      by (simp add: serial_calls_of_def x)
    have "t_store s = t_store ?s" using tx_step_same(4) [OF step True] by simp
    then have "seen s (tx_heap ?x ?h) = fst ?sp" using d(2) by (simp add: seen_def fun_eq_iff)
    moreover have "serial_answers (t_tx s) (cell st) (log @ [i]) = spec_calls (tat_of st) (serial_calls_of reqs (log @ [i]))"
      unfolding snoc spec_calls_snoc using ans d(1) call(1) by (simp add: cong [symmetric] heap')
    moreover have "tats_inv d l (m\<lparr>m_sys := s\<rparr>) (fst ?sp) (tats_after (tat_of st) (serial_calls_of reqs (log @ [i])))"
      unfolding snoc tats_after_simps by (rule tats_inv_tx [OF call(2) step sto])
    ultimately have "timed_inv d l st reqs (m\<lparr>m_sys := s\<rparr>) (log @ [i])"
      using rest si' ser' calls' True by (simp add: timed_inv_def cong [symmetric] heap')
    then show ?thesis by blast
  qed
qed

lemma timed_inv_passes:
  assumes "timed_inv d l st reqs m log" "m_now m \<le> t"
  shows "timed_inv d l st reqs (m\<lparr>m_now := t\<rparr>) log"
proof -
  have "calls_inv l (m\<lparr>m_now := t\<rparr>)"
    using assms calls_invD [of l m] by (intro calls_invI) (force simp: timed_inv_def)+
  moreover have "tats_inv d l (m\<lparr>m_now := t\<rparr>) v tat" if "tats_inv d l m v tat" for v tat
    unfolding tats_inv_def
  proof (intro allI conjI, goal_cases)
    case (1 k)
    with that assms(2) same_from_later [of "m_now m - l" "v k" "tat k" "t - l"] show ?case by (simp add: tats_inv_def)
  next
    case (2 k)
    from that have "sint (v k) \<le> m_now m + d" by (simp add: tats_inv_def)
    with assms(2) show ?case by simp
  qed (use that in \<open>simp add: tats_inv_def\<close>)
  ultimately show ?thesis using assms by (simp add: timed_inv_def)
qed

lemma timed_inv_rotate:
  assumes inv: "timed_inv d l st reqs m log" and len: "j < length (stripes (t_store (m_sys m)))"
    and j: "m_turned m j + d + l \<le> m_now m" and d: "0 < d" "0 \<le> l"
  shows "timed_inv d l st reqs (m\<lparr>m_turned := (m_turned m)(j := m_now m),
      m_sys := (m_sys m)\<lparr>t_store := rotate_nth (t_store (m_sys m)) j\<rparr>\<rparr>) log"
proof -
  have "sys_inv reqs ((m_sys m)\<lparr>t_store := rotate_nth (t_store (m_sys m)) j\<rparr>)"
    using inv by (intro sys_step_inv [OF sys_step.rotate [OF len]]) (simp add: timed_inv_def)
  then show ?thesis
    using inv rotate_serial [of st reqs "m_sys m" log j] calls_inv_rotate [OF _ d(1) j] tats_inv_rotate [OF _ _ _ d(2) j] d(1)
    by (simp add: timed_inv_def)
qed

lemma timed_reachable:
  assumes st: "store_inv st" "\<forall>k. sint (tat_of st k) \<le> start + d" and times: "0 \<le> start" "0 < d" "0 \<le> l"
    and reqs: "\<forall>i. one_part (fst (snd (reqs i))) \<and> 0 \<le> sint (fst (reqs i))
      \<and> list_all (\<lambda>e. q_Peek e \<or> burst_window e \<le> d) (fst (snd (reqs i)))"
    and run: "(timed_step d l)\<^sup>*\<^sup>* (start_timed start st reqs) m"
  shows "\<exists>log. timed_inv d l st reqs m log"
  using run
proof induction
  case base
  have "seen (start_sys st reqs) (cell st) = tat_of st"
    using st(1) by (auto simp: fun_eq_iff seen_def start_sys_def tat_of_def cell_def store_inv_def split: option.split)
  then have "tats_inv d l (start_timed start st reqs) (seen (start_sys st reqs) (cell st)) (tat_of st)"
    using st(2) by (auto simp: tats_inv_def start_timed_def same_from_def since_def start_sys_def algebra_simps)
  moreover have "calls_inv l (start_timed start st reqs)"
    by (simp add: calls_inv_def start_timed_def start_sys_def start_tx_def)
  moreover have "sys_inv reqs (start_sys st reqs)" using st(1) reqs by (intro sys_inv_start) auto
  ultimately have "timed_inv d l st reqs (start_timed start st reqs) []"
    using serial_inv_start [OF st(1), of reqs] times by (simp add: timed_inv_def serial_calls_of_def start_timed_def)
  then show ?case by blast
next
  case (step m m')
  then obtain log where inv: "timed_inv d l st reqs m log" by blast
  from step(2) show ?case
  proof cases
    case (passes t)
    with timed_inv_passes [OF inv] show ?thesis by blast
  next
    case (tx i s)
    with timed_inv_tx [OF inv tx(2-4)] reqs show ?thesis by blast
  next
    case (rotate j)
    with timed_inv_rotate [OF inv rotate(2,3) times(2,3)] show ?thesis by blast
  qed
qed

text \<open>The calls in the order in which they decide.\<close>

definition in_windows :: "int \<Rightarrow> (nat \<Rightarrow> int64 \<times> request_entry list \<times> nat option) \<Rightarrow> bool" where
  "in_windows d reqs \<longleftrightarrow> (\<forall>i. one_part (fst (snd (reqs i))) \<and> 0 \<le> sint (fst (reqs i))
      \<and> list_all (\<lambda>e. q_Peek e \<or> burst_window e \<le> d) (fst (snd (reqs i))))"

lemma timed_calls_in_order:
  assumes st: "store_inv st" "\<forall>k. sint (tat_of st k) \<le> start + d" and times: "0 \<le> start" "0 < d" "0 \<le> l"
    and reqs: "in_windows d reqs" and run: "(timed_step d l)\<^sup>*\<^sup>* (start_timed start st reqs) m"
  shows "\<exists>order st'. distinct order \<and> set order = {i. decided (t_tx (m_sys m) i)}
    \<and> in_order (\<lambda>i. snd (snd (reqs i))) order
    \<and> throttle_calls st (map (\<lambda>i. (fst (reqs i), fst (snd (reqs i)))) order)
        = Some (st', map (\<lambda>i. x_res (t_tx (m_sys m) i)) order)"
proof -
  obtain log where log: "timed_inv d l st reqs m log"
    using timed_reachable [OF st times _ run] reqs unfolding in_windows_def by blast
  obtain st' where "throttle_calls st (serial_calls_of reqs log) = Some (st', spec_calls (tat_of st) (serial_calls_of reqs log))"
    using throttle_calls_spec [OF st(1)] by blast
  moreover have "map (\<lambda>i. x_res (t_tx (m_sys m) i)) log = spec_calls (tat_of st) (serial_calls_of reqs log)"
    using log by (simp add: timed_inv_def serial_inv_def)
  ultimately show ?thesis
    using log unfolding timed_inv_def serial_inv_def serial_calls_of_def
    by (intro exI [of _ log] exI [of _ st']) auto
qed

section \<open>An example\<close>

text \<open>
  Two calls for the last two tokens at time 5000, the second overtaking the first; a stripe is rotated
  before and another one after.
\<close>

lemma steps_at_once:
  assumes "(\<lambda>s s'. \<exists>i. tx_step i s s')\<^sup>*\<^sup>* (m_sys m) s" "\<forall>i. sint (x_now (t_tx (m_sys m) i)) = m_now m" "0 \<le> l"
  shows "(timed_step d l)\<^sup>*\<^sup>* m (m\<lparr>m_sys := s\<rparr>)"
proof -
  have "(timed_step d l)\<^sup>*\<^sup>* m (m\<lparr>m_sys := s\<rparr>) \<and> (\<forall>i. sint (x_now (t_tx s i)) = m_now m)"
    using assms(1)
  proof (induction rule: rtranclp_induct)
    case base
    with assms(2) show ?case by simp
  next
    case (step s1 s2)
    then obtain i where i: "tx_step i s1 s2" by blast
    with step.IH assms(3) have "timed_step d l (m\<lparr>m_sys := s1\<rparr>) (m\<lparr>m_sys := s2\<rparr>)"
      using timed_step.tx [of i "m\<lparr>m_sys := s1\<rparr>" s2 l d] by simp
    with step.IH tx_step_same(2) [OF i] show ?case by (auto intro: rtranclp.rtrancl_into_rtrancl)
  qed
  then show ?thesis by blast
qed

lemma two_requests_in_windows: "in_windows 2000 two_requests"
  by (simp add: in_windows_def two_requests_def one_part_def burst_window_def example_entry_def max_debt_def EffectiveUnits_id)

lemma overtaking_timed:
  obtains m where "(timed_step 2000 100)\<^sup>*\<^sup>* (start_timed 0 (fst (newStore 4 0)) two_requests) m"
    "m_turned m 0 = 5000" "decided (t_tx (m_sys m) 0)" "decided (t_tx (m_sys m) 1)"
    "map s_Throttled (x_res (t_tx (m_sys m) 0)) = [True]" "map s_Throttled (x_res (t_tx (m_sys m) 1)) = [False]"
proof -
  let ?new = "fst (newStore 4 0)"
  let ?st = "rotate_nth ?new 0"
  let ?m0 = "start_timed 0 ?new two_requests"
  let ?m1 = "?m0\<lparr>m_now := 5000\<rparr>"
  let ?m2 = "\<lparr>m_now = 5000, m_turned = (\<lambda>_. 0)(0 := 5000), m_sys = start_sys ?st two_requests\<rparr>"
  have len: "length (stripes ?new) = 4" by (simp add: newStore_def Let_def int64_simps)
  then have inv: "store_inv ?st" by (intro rotate_nth_inv newStore_inv) simp
  obtain b st1 st2 where g: "store_get ?st ''a'' = Some (b, st1)" "store_get st1 ''a'' = Some (b, st2)"
    "read_tat st2 b = tat_of ?st ''a''" "b < length (heap st2)"
    by (rule store_get_twice [OF inv])
  have "tat_of ?st ''a'' = 0"
    using bucket_addr_rotate_nth [of ?new 0 "''a''"] tat_of_newStore [of 4 0 "''a''"]
    by (auto simp: tat_of_def split: option.splits)
  with g(3) have zero: "read_tat st2 b = 0" by simp
  obtain s where s: "run_schedule overtaking (start_sys ?st two_requests) = Some s"
    and fin: "x_pc (t_tx s 0) = Release []" "x_pc (t_tx s 1) = Release []"
    "map s_Throttled (x_res (t_tx s 0)) = [True]" "map s_Throttled (x_res (t_tx s 1)) = [False]"
    using overtaking_run [OF g(1,2) zero g(4)] by (elim exE conjE) (rule that)
  have "(timed_step 2000 100)\<^sup>*\<^sup>* ?m0 ?m1"
    by (rule r_into_rtranclp) (use timed_step.passes [of ?m0 5000 2000 100] in \<open>simp add: start_timed_def\<close>)
  also have "(timed_step 2000 100)\<^sup>*\<^sup>* ?m1 ?m2"
    by (rule r_into_rtranclp)
      (use timed_step.rotate [of 0 ?m1 2000 100] len in \<open>simp add: start_timed_def start_sys_def\<close>)
  also have "(timed_step 2000 100)\<^sup>*\<^sup>* ?m2 (?m2\<lparr>m_sys := s\<rparr>)"
    by (rule steps_at_once) (use run_schedule_steps [OF s] in \<open>simp_all add: start_sys_def start_tx_def two_requests_def\<close>)
  finally have "(timed_step 2000 100)\<^sup>*\<^sup>* ?m0 (?m2\<lparr>m_sys := s\<rparr>)" .
  then show thesis by (rule that) (use fin in \<open>simp_all add: decided_def\<close>)
qed

section \<open>Properties\<close>



end
