(* ===== verification/ConcurrentLimit.thy ===== *)
theory ConcurrentLimit
  imports TimedServer
begin

text \<open>
  The rate limit of a server: what calls that run at the same time, with the GC among them, commit on
  a key, from the order \<open>TimedServer\<close> puts them in and the rate limit of calls made one after the other.
\<close>

text \<open>The cost on a key that the transactions decided by state \<open>s\<close> commit in a window.\<close>

definition spent :: "int \<Rightarrow> int \<Rightarrow> string \<Rightarrow> tx_sys \<Rightarrow> int" where
  "spent t1 t2 key s =
     (\<Sum>i | decided (t_tx s i) \<and> in_window t1 t2 (x_now (t_tx s i))
        \<and> committed (x_entries (t_tx s i)) (x_res (t_tx s i)). real_cost key (x_entries (t_tx s i)))"

lemma committed_cost_sum:
  "distinct order \<Longrightarrow> committed_cost t1 t2 key (map (\<lambda>i. (now i, es i)) order) (map rs order)
    = (\<Sum>i | i \<in> set order \<and> in_window t1 t2 (now i) \<and> committed (es i) (rs i). real_cost key (es i))"
proof -
  assume d: "distinct order"
  have "committed_cost t1 t2 key (map (\<lambda>i. (now i, es i)) order) (map rs order)
      = (\<Sum>i \<leftarrow> order. if in_window t1 t2 (now i) \<and> committed (es i) (rs i) then real_cost key (es i) else 0)"
    by (induction order) simp_all
  also have "\<dots> = (\<Sum>i \<in> set order. if in_window t1 t2 (now i) \<and> committed (es i) (rs i) then real_cost key (es i) else 0)"
    using d by (simp add: sum_list_distinct_conv_sum_set)
  also have "\<dots> = (\<Sum>i | i \<in> set order \<and> in_window t1 t2 (now i) \<and> committed (es i) (rs i). real_cost key (es i))"
    by (simp add: sum.If_cases Int_def)
  finally show ?thesis .
qed

text \<open>
  C6 (safety). The rate limit over the life of a server. However any number of concurrent calls and the
  turns of the GC interleave in time, take a key whose Real entries all carry the same limit and any
  window \<open>[t1, t2]\<close>: the calls that have decided, with a clock reading in the window, commit on that
  key at most the capacity and what drains in the window (\<open>within_limit\<close>, stated without the division
  by the period). The order in which they reach the buckets need not be the order of their clock
  readings; the other keys, the Peek entries and the calls before and after the window are arbitrary.
  (A call takes at most \<open>l\<close>, and a stripe is not rotated again before that and the longest burst window
  together have passed.)
\<close>

theorem server_rate_limit:
  assumes st: "store_inv st" "\<forall>k. sint (tat_of st k) \<le> start + d" and times: "0 \<le> start" "0 < d" "0 \<le> l"
    and reqs: "in_windows d reqs" and run: "(timed_step d l)\<^sup>*\<^sup>* (start_timed start st reqs) m"
    and lim: "\<forall>i. key_limit key lim (fst (snd (reqs i)))" and window: "t1 \<le> t2"
    and sane: "0 \<le> sint (r_Period (l_Rate lim))" "0 \<le> sint (l_Capacity lim)"
  shows "finite {i. decided (t_tx (m_sys m) i)} \<and> within_limit lim (t2 - t1) (spent t1 t2 key (m_sys m))"
proof -
  let ?T = "t_tx (m_sys m)"
  obtain order st' where order: "distinct order" "set order = {i. decided (?T i)}"
    and calls: "throttle_calls st (map (\<lambda>i. (fst (reqs i), fst (snd (reqs i)))) order)
      = Some (st', map (\<lambda>i. x_res (?T i)) order)"
    using timed_calls_in_order [OF st times reqs run] by blast
  have "sys_inv reqs (m_sys m)"
    using timed_reachable [OF st times _ run] reqs by (auto simp: timed_inv_def in_windows_def)
  then have x: "x_now (?T i) = fst (reqs i)" "x_entries (?T i) = fst (snd (reqs i))" for i
    using sys_inv_tx(4) [of reqs "m_sys m" i] by (metis fst_conv snd_conv)+
  have "within_limit lim (t2 - t1) (committed_cost t1 t2 key
      (map (\<lambda>i. (fst (reqs i), fst (snd (reqs i)))) order) (map (\<lambda>i. x_res (?T i)) order))"
    by (rule throttle_calls_rate [OF st(1) calls _ window sane]) (use lim reqs in \<open>auto simp: in_windows_def\<close>)
  then have "within_limit lim (t2 - t1) (spent t1 t2 key (m_sys m))"
    unfolding committed_cost_sum [OF order(1)] spent_def x order(2) by simp
  with order(2) show ?thesis by (metis List.finite_set)
qed

text \<open>Two calls for the last two tokens at one time.\<close>

theorem server_rate_limit_witness:
  "\<exists>m. (timed_step 2000 100)\<^sup>*\<^sup>* (start_timed 0 (fst (newStore 4 0)) two_requests) m
     \<and> decided (t_tx (m_sys m) 0) \<and> decided (t_tx (m_sys m) 1) \<and> spent 5000 5000 ''a'' (m_sys m) * 1000 \<le> 2 * 1000"
proof -
  let ?lim = "\<lparr>l_Capacity = 2, l_Rate = \<lparr>r_Units = 1, r_Period = 1000\<rparr>\<rparr>"
  obtain m where run: "(timed_step 2000 100)\<^sup>*\<^sup>* (start_timed 0 (fst (newStore 4 0)) two_requests) m"
    and m: "decided (t_tx (m_sys m) 0)" "decided (t_tx (m_sys m) 1)"
    by (rule overtaking_timed)
  have tat: "\<forall>k. sint (tat_of (fst (newStore 4 0)) k) \<le> 0 + 2000" by simp
  have lim: "\<forall>i. key_limit ''a'' ?lim (fst (snd (two_requests i)))"
    by (simp add: two_requests_def key_limit_def example_entry_def)
  have times: "(0::int) \<le> 0" "(0::int) < 2000" "(0::int) \<le> 100" by simp_all
  from server_rate_limit [OF newStore_inv tat times two_requests_in_windows run lim, of 5000 5000] run m
  show ?thesis by (auto simp: within_limit_def)
qed

end
