(* ===== verification/ConcurrentConns.thy ===== *)
theory ConcurrentConns
  imports TimedServer TextServerProps
begin

text \<open>
  The server under concurrent connections: the lines of any number of connections, each line's
  \<open>Throttle\<close> call a transaction of \<open>Transactions\<close> that comes after the one of the line before it on its
  connection. What they are answered is what one connection would be that sent them all.
\<close>

section \<open>A line and its call\<close>

text \<open>The entries that a line hands to \<open>Throttle\<close>: none, unless it is a THROTTLE line.\<close>

definition line_entries :: "string \<Rightarrow> request_entry list" where
  "line_entries line =
     (case Fields line of [] \<Rightarrow> [] | cmd # toks \<Rightarrow> if cmd = ''THROTTLE'' then entries_of toks else [])"

text \<open>What \<open>dispatch\<close> answers to a line whose \<open>Throttle\<close> call returned \<open>rs\<close>.\<close>

definition answer_line :: "response_entry list \<Rightarrow> string \<Rightarrow> string" where
  "answer_line rs line =
     (case dispatch (\<lambda>t now entries. Some (t, rs, None)) None () 0 0 line of
        None \<Rightarrow> [] | Some (_, reply, _) \<Rightarrow> reply)"

text \<open>STATS alone looks at the store beside its call.\<close>

definition keyed_line :: "string \<Rightarrow> bool" where
  "keyed_line line \<longleftrightarrow> Fields line = [] \<or> hd (Fields line) \<noteq> ''STATS''"

lemma Throttle_no_entries: "Throttle st None now [] = Some (st, [], None)"
  by (simp add: Throttle_def)

lemma dispatch_answer:
  assumes "store_inv st" "keyed_line line"
    and t: "Throttle st None now (line_entries line) = Some (st', rs, err)"
  shows "\<exists>c ms. dispatch InMemoryThrottle keyCount st now uptime line = Some (st', answer_line rs line, c, ms)"
proof (cases "Fields line")
  case Nil
  with t show ?thesis
    by (auto simp: dispatch_eq answer_line_def line_entries_def Throttle_no_entries intro: exI [of _ False])
next
  case (Cons cmd toks)
  show ?thesis
  proof (cases "cmd = ''THROTTLE''")
    case False
    with t Cons assms(2) show ?thesis
      by (auto simp: dispatch_eq answer_line_def line_entries_def keyed_line_def Throttle_no_entries Let_def)
  next
    case True
    with Cons have es: "line_entries line = entries_of toks" by (simp add: line_entries_def)
    have "err = None" "length rs = length (entries_of toks)"
      using Throttle_facts(1,3) [OF assms(1) t] es by simp_all
    with t True Cons show ?thesis
      by (cases "entries_of toks = []")
        (auto simp: dispatch_eq answer_line_def throttle_reply_def InMemoryThrottle_def es Throttle_no_entries Let_def)
  qed
qed

lemma dispatch_all_answers:
  assumes "store_inv st" "\<forall>i. keyed_line (line i)"
    and "throttle_calls st (map (\<lambda>i. (now i, line_entries (line i))) order) = Some (st', map res order)"
    and "\<forall>k < length order. env_clock env (n + k) = now (order ! k)"
  shows "dispatch_all InMemoryThrottle keyCount env n st (map line order)
    = Some (st', map (\<lambda>i. answer_line (res i) (line i)) order)"
  using assms(1,3,4)
proof (induction order arbitrary: n st)
  case (Cons i order)
  from Cons.prems(2) obtain st1 err where t: "Throttle st None (now i) (line_entries (line i)) = Some (st1, res i, err)"
    and rest: "throttle_calls st1 (map (\<lambda>i. (now i, line_entries (line i))) order) = Some (st', map res order)"
    by (auto simp: bind_eq_Some_conv)
  have clock: "env_clock env n = now i" "\<forall>k < length order. env_clock env (Suc n + k) = now (order ! k)"
    using Cons.prems(3) by (auto dest: spec [of _ 0] spec [of _ "Suc _"])
  obtain c ms where "dispatch InMemoryThrottle keyCount st (now i) (env_uptime env n) (line i)
      = Some (st1, answer_line (res i) (line i), c, ms)"
    using dispatch_answer [OF Cons.prems(1) _ t] assms(2) by blast
  with Cons.IH [OF Throttle_facts(4) [OF Cons.prems(1) t] rest clock(2)] clock(1) show ?case by simp
qed simp

section \<open>Properties\<close>


text \<open>Two connections ask for the last two tokens; the others send PING.\<close>

definition two_lines :: "nat \<Rightarrow> string" where
  "two_lines i = (if i < 2 then ''THROTTLE a|2|1|1000|2|R'' else ''PING'')"

lemma two_lines_numbers: "ParseInt ''2'' = Some 2" "ParseInt ''1'' = Some 1" "ParseInt ''1000'' = Some 1000"
proof -
  have "FormatInt 2 = ''2''" "FormatInt 1 = ''1''" "FormatInt 1000 = ''1000''" by code_simp+
  note fmt = this [symmetric]
  show "ParseInt ''2'' = Some 2" "ParseInt ''1'' = Some 1" "ParseInt ''1000'' = Some 1000"
    unfolding fmt by (rule ParseInt_FormatInt)+
qed

lemma two_lines_entries:
  "line_entries ''THROTTLE a|2|1|1000|2|R'' = [example_entry ''a'' 2 False]" "line_entries ''PING'' = []"
proof -
  have "Split (CHR ''|'') ''a|2|1|1000|2|R'' = [''a'', ''2'', ''1'', ''1000'', ''2'', ''R'']" by code_simp
  then have "parseEntry ''a|2|1|1000|2|R'' = Some (example_entry ''a'' 2 False)"
    by (simp add: parseEntry_def two_lines_numbers example_entry_def ModeReal_def int64_simps)
  moreover have "Fields ''THROTTLE a|2|1|1000|2|R'' = [''THROTTLE'', ''a|2|1|1000|2|R'']" "Fields ''PING'' = [''PING'']"
    by code_simp+
  ultimately show "line_entries ''THROTTLE a|2|1|1000|2|R'' = [example_entry ''a'' 2 False]" "line_entries ''PING'' = []"
    by (simp_all add: line_entries_def)
qed

lemma two_lines_ok:
  "request_line (NewTextServer 0) (two_lines i) \<and> keyed_line (two_lines i) \<and> one_part (line_entries (two_lines i))"
proof -
  have "request_line (NewTextServer 0) l \<and> keyed_line l" if "l \<in> {''THROTTLE a|2|1|1000|2|R'', ''PING''}" for l
  proof -
    have "list_all (\<lambda>l. request_line (NewTextServer 0) l \<and> keyed_line l) [''THROTTLE a|2|1|1000|2|R'', ''PING'']"
      by code_simp
    with that show ?thesis by auto
  qed
  then show ?thesis by (simp add: two_lines_def two_lines_entries one_part_def)
qed


end
