(* ===== verification/Pipeline.thy ===== *)
theory Pipeline
  imports Main
begin

text \<open>
  The pipelined connection of \<open>client/conn.go\<close>: \<open>ensureConn\<close>, \<open>submit\<close>, the wait in \<open>exchange\<close>,
  \<open>readLoop\<close>, \<open>abort\<close>, \<open>drainPending\<close> and \<open>close\<close>, as steps of many calls, one reader per
  connection, and the client's \<open>close\<close>. A step is what runs between two points where another goroutine
  can interfere: a critical section of \<open>mu\<close> in which nothing waits, one channel operation, or one call
  of the network whose outcome is open. \<open>submit\<close> holds \<open>mu\<close> over its write, in which the readers go on
  and everything that needs \<open>mu\<close> waits. Calls and generations (a connection with its queue and
  semaphore) are numbered. A send on a full channel would wait; \<open>PipelineProps\<close> shows that none is full.
\<close>

section \<open>The state\<close>

definition maxInFlight :: nat where "maxInFlight = 256"

lemma maxInFlight_pos [simp]: "0 < maxInFlight"
  by (simp add: maxInFlight_def)

text \<open>
  Where \<open>abort\<close> is: before its critical section, in \<open>drainPending\<close> before the next call, or with a
  call it has taken off the queue, before or after \<open>gen.release\<close>.
\<close>

datatype abort_pc = Clear | Drain | Popped nat | Released nat

text \<open>
  Where a reader is: reading a line, with a line and the call it took off the queue for it, before or
  after \<open>gen.release\<close>, or in \<open>abort\<close>.
\<close>

datatype reader_pc = Reading | Got nat | Holding nat | RAbort abort_pc | Stopped

text \<open>
  A generation. Four of its fields are a record of the past that no step depends on: \<open>g_order\<close> lists
  the calls put on the queue, in order, \<open>g_wire\<close> those whose requests have been written, \<open>g_read\<close>
  counts the lines for which the reader took a call, and \<open>g_failed\<close>, once a write on the connection
  has failed, how many lines had answered a written request by then.
\<close>

record generation =
  g_pending :: "nat list"
  g_sem :: nat
  g_order :: "nat list"
  g_wire :: "nat list"
  g_read :: nat
  g_failed :: "nat option"
  g_reader :: reader_pc

definition newGeneration :: generation where
  "newGeneration = \<lparr>g_pending = [], g_sem = maxInFlight, g_order = [], g_wire = [], g_read = 0,
     g_failed = None, g_reader = Reading\<rparr>"

text \<open>
  Where a call is: \<open>Writing\<close> and \<open>Written\<close> are in \<open>submit\<close> with \<open>mu\<close> locked, before and after its write,
  \<open>Retry\<close> is before it gives back the token of a connection that is no longer current.
\<close>

datatype call_pc =
    Start | WaitDial nat | Dialing | HasConn nat | HasToken nat | Retry nat
  | Writing nat | Written nat bool | Abort nat abort_pc | Sent nat | Returned

text \<open>
  What a call's result channel holds: \<open>Response g k\<close> for the \<open>k\<close>-th line read from generation \<open>g\<close>, or an
  error.
\<close>

datatype delivery = Response nat nat | Failed

text \<open>\<open>s_mu\<close> is the call that holds \<open>mu\<close> while it writes; every other holder is done in one step.\<close>

record shard_state =
  s_mu :: "nat option"
  s_conn :: "nat option"
  s_closed :: bool
  s_dialing :: "nat option"
  s_dials :: nat
  s_next :: nat
  s_gens :: "nat \<Rightarrow> generation"
  s_pc :: "nat \<Rightarrow> call_pc"
  s_result :: "nat \<Rightarrow> delivery option"

definition init_state :: shard_state where
  "init_state = \<lparr>s_mu = None, s_conn = None, s_closed = False, s_dialing = None, s_dials = 0, s_next = 0,
     s_gens = (\<lambda>_. newGeneration), s_pc = (\<lambda>_. Start), s_result = (\<lambda>_. None)\<rparr>"

section \<open>The steps\<close>

definition set_pc :: "nat \<Rightarrow> call_pc \<Rightarrow> shard_state \<Rightarrow> shard_state" where
  "set_pc i p s = s\<lparr>s_pc := (s_pc s)(i := p)\<rparr>"

definition set_gen :: "nat \<Rightarrow> (generation \<Rightarrow> generation) \<Rightarrow> shard_state \<Rightarrow> shard_state" where
  "set_gen g f s = s\<lparr>s_gens := (s_gens s)(g := f (s_gens s g))\<rparr>"

text \<open>Taking the oldest pending call off the queue, \<open>gen.release\<close>, and a send on a result channel.\<close>

definition pop :: "nat \<Rightarrow> shard_state \<Rightarrow> shard_state" where
  "pop g s = set_gen g (\<lambda>x. x\<lparr>g_pending := tl (g_pending x)\<rparr>) s"

definition release :: "nat \<Rightarrow> shard_state \<Rightarrow> shard_state" where
  "release g s = set_gen g (\<lambda>x. x\<lparr>g_sem := g_sem x + 1\<rparr>) s"

definition send :: "nat \<Rightarrow> delivery \<Rightarrow> shard_state \<Rightarrow> shard_state" where
  "send c d s = s\<lparr>s_result := (s_result s)(c := Some d)\<rparr>"

text \<open>\<open>abort\<close>'s critical section.\<close>

definition clear_conn :: "nat \<Rightarrow> shard_state \<Rightarrow> shard_state" where
  "clear_conn g s =
     (if s_conn s = Some g then s\<lparr>s_conn := None\<rparr> else s)"

text \<open>What the failure of a write is remembered by.\<close>

definition note_failure :: "generation \<Rightarrow> generation" where
  "note_failure x = x\<lparr>g_failed :=
     (case g_failed x of None \<Rightarrow> Some (min (g_read x) (length (g_wire x))) | Some n \<Rightarrow> Some n)\<rparr>"

text \<open>\<open>abort\<close> and the \<open>drainPending\<close> at its end, run by a call or a reader; \<open>None\<close> is where it returns.\<close>

inductive abort_step :: "nat \<Rightarrow> abort_pc \<Rightarrow> shard_state \<Rightarrow> abort_pc option \<Rightarrow> shard_state \<Rightarrow> bool" for g where
  abort_clear: "s_mu s = None \<Longrightarrow> abort_step g Clear s (Some Drain) (clear_conn g s)"
| abort_pop: "g_pending (s_gens s g) = c # cs \<Longrightarrow> abort_step g Drain s (Some (Popped c)) (pop g s)"
| abort_release: "abort_step g (Popped c) s (Some (Released c)) (release g s)"
| abort_send: "abort_step g (Released c) s (Some Drain) (send c Failed s)"
| abort_done: "g_pending (s_gens s g) = [] \<Longrightarrow> abort_step g Drain s None s"

inductive call_step :: "nat \<Rightarrow> shard_state \<Rightarrow> shard_state \<Rightarrow> bool" for i where
  ensure_closed: "s_pc s i = Start \<Longrightarrow> s_mu s = None \<Longrightarrow> s_closed s \<Longrightarrow> call_step i s (set_pc i Returned s)"
| ensure_conn: "s_pc s i = Start \<Longrightarrow> s_mu s = None \<Longrightarrow> \<not> s_closed s \<Longrightarrow> s_conn s = Some g \<Longrightarrow>
     call_step i s (set_pc i (HasConn g) s)"
| ensure_wait: "s_pc s i = Start \<Longrightarrow> s_mu s = None \<Longrightarrow> \<not> s_closed s \<Longrightarrow> s_conn s = None \<Longrightarrow>
     s_dialing s = Some d \<Longrightarrow> call_step i s (set_pc i (WaitDial d) s)"
| ensure_dial: "s_pc s i = Start \<Longrightarrow> s_mu s = None \<Longrightarrow> \<not> s_closed s \<Longrightarrow> s_conn s = None \<Longrightarrow>
     s_dialing s = None \<Longrightarrow>
     call_step i s (set_pc i Dialing (s\<lparr>s_dialing := Some (s_dials s), s_dials := s_dials s + 1\<rparr>))"
| dial_over: "s_pc s i = WaitDial d \<Longrightarrow> s_dialing s \<noteq> Some d \<Longrightarrow> call_step i s (set_pc i Start s)"
| dial_failed: "s_pc s i = Dialing \<Longrightarrow> s_mu s = None \<Longrightarrow> call_step i s (set_pc i Returned (s\<lparr>s_dialing := None\<rparr>))"
| dial_ok: "s_pc s i = Dialing \<Longrightarrow> s_mu s = None \<Longrightarrow> \<not> s_closed s \<Longrightarrow>
     call_step i s (set_pc i (HasConn (s_next s)) (s\<lparr>s_dialing := None, s_conn := Some (s_next s),
       s_gens := (s_gens s)(s_next s := newGeneration), s_next := s_next s + 1\<rparr>))"
| acquire: "s_pc s i = HasConn g \<Longrightarrow> 0 < g_sem (s_gens s g) \<Longrightarrow>
     call_step i s (set_pc i (HasToken g) (set_gen g (\<lambda>x. x\<lparr>g_sem := g_sem x - 1\<rparr>) s))"
| ctx_done_dial: "s_pc s i = WaitDial d \<Longrightarrow> call_step i s (set_pc i Returned s)"
| ctx_done_room: "s_pc s i = HasConn g \<Longrightarrow> call_step i s (set_pc i Returned s)"
| ctx_done_wait: "s_pc s i = Sent g \<Longrightarrow> call_step i s (set_pc i Returned s)"
| retry: "s_pc s i = HasToken g \<Longrightarrow> s_mu s = None \<Longrightarrow> s_conn s \<noteq> Some g \<Longrightarrow>
     call_step i s (set_pc i (Retry g) s)"
| give_back: "s_pc s i = Retry g \<Longrightarrow> call_step i s (set_pc i Start (release g s))"
| enqueue: "s_pc s i = HasToken g \<Longrightarrow> s_mu s = None \<Longrightarrow> s_conn s = Some g \<Longrightarrow>
     call_step i s (set_pc i (Writing g)
       (set_gen g (\<lambda>x. x\<lparr>g_pending := g_pending x @ [i], g_order := g_order x @ [i]\<rparr>) (s\<lparr>s_mu := Some i\<rparr>)))"
| write_ok: "s_pc s i = Writing g \<Longrightarrow>
     call_step i s (set_pc i (Written g True) (set_gen g (\<lambda>x. x\<lparr>g_wire := g_wire x @ [i]\<rparr>) s))"
| write_failed: "s_pc s i = Writing g \<Longrightarrow> call_step i s (set_pc i (Written g False) (set_gen g note_failure s))"
| unlock: "s_pc s i = Written g ok \<Longrightarrow>
     call_step i s (set_pc i (if ok then Sent g else Abort g Clear) (s\<lparr>s_mu := None\<rparr>))"
| abort: "s_pc s i = Abort g p \<Longrightarrow> abort_step g p s q s' \<Longrightarrow>
     call_step i s (set_pc i (case q of None \<Rightarrow> Returned | Some p' \<Rightarrow> Abort g p') s')"
| received: "s_pc s i = Sent g \<Longrightarrow> s_result s i \<noteq> None \<Longrightarrow> call_step i s (set_pc i Returned s)"

definition set_reader :: "nat \<Rightarrow> reader_pc \<Rightarrow> shard_state \<Rightarrow> shard_state" where
  "set_reader g r s = set_gen g (\<lambda>x. x\<lparr>g_reader := r\<rparr>) s"

inductive reader_step :: "nat \<Rightarrow> shard_state \<Rightarrow> shard_state \<Rightarrow> bool" for g where
  read_line: "g_reader (s_gens s g) = Reading \<Longrightarrow> g_pending (s_gens s g) = c # cs \<Longrightarrow>
     reader_step g s (set_reader g (Got c) (set_gen g (\<lambda>x. x\<lparr>g_read := g_read x + 1\<rparr>) (pop g s)))"
| read_nothing_pending: "g_reader (s_gens s g) = Reading \<Longrightarrow> g_pending (s_gens s g) = [] \<Longrightarrow>
     reader_step g s (set_reader g (RAbort Clear) s)"
| read_failed: "g_reader (s_gens s g) = Reading \<Longrightarrow> reader_step g s (set_reader g (RAbort Clear) s)"
| read_release: "g_reader (s_gens s g) = Got c \<Longrightarrow> reader_step g s (set_reader g (Holding c) (release g s))"
| read_deliver: "g_reader (s_gens s g) = Holding c \<Longrightarrow>
     reader_step g s (set_reader g Reading (send c (Response g (g_read (s_gens s g) - 1)) s))"
| read_undecodable: "g_reader (s_gens s g) = Holding c \<Longrightarrow>
     reader_step g s (set_reader g (RAbort Clear) (send c Failed s))"
| read_abort: "g_reader (s_gens s g) = RAbort p \<Longrightarrow> abort_step g p s q s' \<Longrightarrow>
     reader_step g s (set_reader g (case q of None \<Rightarrow> Stopped | Some p' \<Rightarrow> RAbort p') s')"

definition close_conn :: "shard_state \<Rightarrow> shard_state" where
  "close_conn s = s\<lparr>s_conn := None, s_closed := True\<rparr>"

inductive shard_step :: "shard_state \<Rightarrow> shard_state \<Rightarrow> bool" where
  call: "call_step i s s' \<Longrightarrow> shard_step s s'"
| reader: "g < s_next s \<Longrightarrow> reader_step g s s' \<Longrightarrow> shard_step s s'"
| closing: "s_mu s = None \<Longrightarrow> shard_step s (close_conn s)"

inductive reachable :: "shard_state \<Rightarrow> bool" where
  init: "reachable init_state"
| step: "reachable s \<Longrightarrow> shard_step s s' \<Longrightarrow> reachable s'"

section \<open>Selectors\<close>

lemma set_pc_sel [simp]:
  "s_pc (set_pc i p s) = (s_pc s)(i := p)" "s_conn (set_pc i p s) = s_conn s" "s_mu (set_pc i p s) = s_mu s"
  "s_closed (set_pc i p s) = s_closed s" "s_next (set_pc i p s) = s_next s"
  "s_gens (set_pc i p s) = s_gens s" "s_dialing (set_pc i p s) = s_dialing s" "s_result (set_pc i p s) = s_result s"
  by (simp_all add: set_pc_def)

lemma set_gen_sel [simp]:
  "s_gens (set_gen g f s) = (s_gens s)(g := f (s_gens s g))" "s_conn (set_gen g f s) = s_conn s"
  "s_closed (set_gen g f s) = s_closed s" "s_next (set_gen g f s) = s_next s" "s_mu (set_gen g f s) = s_mu s"
  "s_pc (set_gen g f s) = s_pc s" "s_dialing (set_gen g f s) = s_dialing s" "s_result (set_gen g f s) = s_result s"
  by (simp_all add: set_gen_def)

lemma set_reader_sel [simp]:
  "s_gens (set_reader g r s) = (s_gens s)(g := (s_gens s g)\<lparr>g_reader := r\<rparr>)" "s_conn (set_reader g r s) = s_conn s"
  "s_closed (set_reader g r s) = s_closed s" "s_next (set_reader g r s) = s_next s" "s_mu (set_reader g r s) = s_mu s"
  "s_pc (set_reader g r s) = s_pc s" "s_dialing (set_reader g r s) = s_dialing s"
  "s_result (set_reader g r s) = s_result s"
  by (simp_all add: set_reader_def)

lemma pop_sel [simp]:
  "s_gens (pop g s) = (s_gens s)(g := (s_gens s g)\<lparr>g_pending := tl (g_pending (s_gens s g))\<rparr>)"
  "s_result (pop g s) = s_result s" "s_conn (pop g s) = s_conn s" "s_closed (pop g s) = s_closed s"
  "s_next (pop g s) = s_next s" "s_dialing (pop g s) = s_dialing s" "s_pc (pop g s) = s_pc s" "s_mu (pop g s) = s_mu s"
  by (simp_all add: pop_def)

lemma release_sel [simp]:
  "s_gens (release g s) = (s_gens s)(g := (s_gens s g)\<lparr>g_sem := g_sem (s_gens s g) + 1\<rparr>)"
  "s_result (release g s) = s_result s" "s_conn (release g s) = s_conn s" "s_closed (release g s) = s_closed s"
  "s_next (release g s) = s_next s" "s_dialing (release g s) = s_dialing s" "s_pc (release g s) = s_pc s"
  "s_mu (release g s) = s_mu s"
  by (simp_all add: release_def)

lemma send_sel [simp]:
  "s_result (send c d s) = (s_result s)(c := Some d)" "s_gens (send c d s) = s_gens s"
  "s_conn (send c d s) = s_conn s" "s_closed (send c d s) = s_closed s" "s_next (send c d s) = s_next s"
  "s_dialing (send c d s) = s_dialing s" "s_pc (send c d s) = s_pc s" "s_mu (send c d s) = s_mu s"
  by (simp_all add: send_def)

lemma clear_conn_sel [simp]:
  "s_gens (clear_conn g s) = s_gens s" "s_dialing (clear_conn g s) = s_dialing s"
  "s_conn (clear_conn g s) = (if s_conn s = Some g then None else s_conn s)"
  "s_closed (clear_conn g s) = s_closed s" "s_next (clear_conn g s) = s_next s" "s_mu (clear_conn g s) = s_mu s"
  "s_pc (clear_conn g s) = s_pc s" "s_result (clear_conn g s) = s_result s"
  by (simp_all add: clear_conn_def)

lemma close_conn_sel [simp]:
  "s_gens (close_conn s) = s_gens s" "s_conn (close_conn s) = None" "s_closed (close_conn s)"
  "s_next (close_conn s) = s_next s" "s_pc (close_conn s) = s_pc s" "s_mu (close_conn s) = s_mu s"
  "s_result (close_conn s) = s_result s" "s_dialing (close_conn s) = s_dialing s"
  by (simp_all add: close_conn_def)

lemma newGeneration_sel [simp]:
  "g_pending newGeneration = []" "g_sem newGeneration = maxInFlight" "g_wire newGeneration = []"
  "g_order newGeneration = []" "g_read newGeneration = 0" "g_failed newGeneration = None"
  "g_reader newGeneration = Reading"
  by (simp_all add: newGeneration_def)

lemma note_failure_sel [simp]:
  "g_pending (note_failure x) = g_pending x" "g_sem (note_failure x) = g_sem x" "g_wire (note_failure x) = g_wire x"
  "g_order (note_failure x) = g_order x" "g_read (note_failure x) = g_read x" "g_reader (note_failure x) = g_reader x"
  "g_failed (note_failure x) =
    Some (case g_failed x of None \<Rightarrow> min (g_read x) (length (g_wire x)) | Some n \<Rightarrow> n)"
  by (simp_all add: note_failure_def split: option.splits)

lemma abort_step_sel:
  assumes "abort_step g p s q s'"
  shows "s_pc s' = s_pc s" "s_closed s' = s_closed s" "s_next s' = s_next s" "s_dialing s' = s_dialing s"
    "s_mu s' = s_mu s" "g_order (s_gens s' h) = g_order (s_gens s h)" "g_wire (s_gens s' h) = g_wire (s_gens s h)"
    "g_read (s_gens s' h) = g_read (s_gens s h)" "g_failed (s_gens s' h) = g_failed (s_gens s h)"
    "g_reader (s_gens s' h) = g_reader (s_gens s h)" "s_conn s' = s_conn s \<or> s_conn s' = None \<and> s_mu s = None"
  using assms by (cases, simp_all)+

section \<open>The invariant\<close>

fun pc_gen :: "call_pc \<Rightarrow> nat option" where
  "pc_gen (HasConn g) = Some g"
| "pc_gen (HasToken g) = Some g"
| "pc_gen (Retry g) = Some g"
| "pc_gen (Writing g) = Some g"
| "pc_gen (Written g ok) = Some g"
| "pc_gen (Abort g p) = Some g"
| "pc_gen (Sent g) = Some g"
| "pc_gen _ = None"

text \<open>A call that has not been enqueued yet, and one that holds \<open>mu\<close> to write.\<close>

fun early :: "call_pc \<Rightarrow> bool" where
  "early (Writing g) = False"
| "early (Written g ok) = False"
| "early (Abort g p) = False"
| "early (Sent g) = False"
| "early Returned = False"
| "early _ = True"

fun writes :: "call_pc \<Rightarrow> nat option" where
  "writes (Writing g) = Some g"
| "writes (Written g ok) = Some g"
| "writes _ = None"

text \<open>A token taken and not on the queue, in the hands of a call or a reader, and a call in their hands.\<close>

fun token :: "call_pc \<Rightarrow> nat option" where
  "token (HasToken g) = Some g"
| "token (Retry g) = Some g"
| "token (Abort g (Popped c)) = Some g"
| "token _ = None"

fun reader_token :: "reader_pc \<Rightarrow> nat" where
  "reader_token (Got c) = 1"
| "reader_token (RAbort (Popped c)) = 1"
| "reader_token _ = 0"

fun abort_hand :: "abort_pc \<Rightarrow> nat option" where
  "abort_hand (Popped c) = Some c"
| "abort_hand (Released c) = Some c"
| "abort_hand _ = None"

fun reader_hand :: "reader_pc \<Rightarrow> nat option" where
  "reader_hand (Got c) = Some c"
| "reader_hand (Holding c) = Some c"
| "reader_hand (RAbort p) = abort_hand p"
| "reader_hand _ = None"

fun call_hand :: "call_pc \<Rightarrow> nat option" where
  "call_hand (Abort g p) = abort_hand p"
| "call_hand _ = None"

fun hand :: "nat \<Rightarrow> (nat \<Rightarrow> generation) \<Rightarrow> (nat \<Rightarrow> call_pc) \<Rightarrow> nat + nat \<Rightarrow> nat option" where
  "hand n G pc (Inl g) = (if g < n then reader_hand (g_reader (G g)) else None)"
| "hand n G pc (Inr j) = call_hand (pc j)"

definition holders :: "(nat \<Rightarrow> call_pc) \<Rightarrow> nat \<Rightarrow> nat set" where
  "holders pc g = {i. token (pc i) = Some g}"

definition dialers :: "(nat \<Rightarrow> call_pc) \<Rightarrow> nat set" where
  "dialers pc = {i. pc i = Dialing}"

lemma holders_upd [simp]:
  "holders (pc(i := p)) g = (if token p = Some g then insert i (holders pc g) else holders pc g - {i})"
  by (auto simp: holders_def)

lemma dialers_upd [simp]:
  "dialers (pc(i := Dialing)) = insert i (dialers pc)"
  "p \<noteq> Dialing \<Longrightarrow> dialers (pc(i := p)) = dialers pc - {i}"
  by (auto simp: dialers_def)

lemma mem_holders [simp]: "i \<in> holders pc g \<longleftrightarrow> token (pc i) = Some g"
  by (simp add: holders_def)

lemma mem_dialers [simp]: "i \<in> dialers pc \<longleftrightarrow> pc i = Dialing"
  by (simp add: dialers_def)

definition fin_inv :: "shard_state \<Rightarrow> bool" where
  "fin_inv s \<longleftrightarrow> finite {i. s_pc s i \<noteq> Start}"

definition refs_inv :: "shard_state \<Rightarrow> bool" where
  "refs_inv s \<longleftrightarrow> (\<forall>i g. pc_gen (s_pc s i) = Some g \<longrightarrow> g < s_next s) \<and> (\<forall>g. s_conn s = Some g \<longrightarrow> g < s_next s)
     \<and> (s_closed s \<longrightarrow> s_conn s = None)"

text \<open>A call that writes holds \<open>mu\<close>, and its connection is the current one.\<close>

definition mu_inv :: "shard_state \<Rightarrow> bool" where
  "mu_inv s \<longleftrightarrow> (\<forall>i g. writes (s_pc s i) = Some g \<longrightarrow> s_mu s = Some i \<and> s_conn s = Some g)
     \<and> (\<forall>i. s_mu s = Some i \<longrightarrow> writes (s_pc s i) \<noteq> None)"

text \<open>One dial at a time, and the mark that others wait on stands for it.\<close>

definition dial_inv :: "shard_state \<Rightarrow> bool" where
  "dial_inv s \<longleftrightarrow> (case s_dialing s of None \<Rightarrow> dialers (s_pc s) = {}
     | Some d \<Rightarrow> s_conn s = None \<and> (\<exists>i. dialers (s_pc s) = {i}))"

text \<open>Every token is in the semaphore, with a call or a reader, or stands for a call on the queue.\<close>

definition sem_inv :: "shard_state \<Rightarrow> bool" where
  "sem_inv s \<longleftrightarrow> (\<forall>g < s_next s. g_sem (s_gens s g) + card (holders (s_pc s) g)
     + reader_token (g_reader (s_gens s g)) + length (g_pending (s_gens s g)) = maxInFlight)"

definition pend :: "(nat \<Rightarrow> generation) \<Rightarrow> nat \<Rightarrow> nat list" where
  "pend G g = g_pending (G g)"

text \<open>
  The queues \<open>q\<close> of the first \<open>n\<close> generations and the hands \<open>h\<close> of calls and readers: a call is in one
  place at most, is there only once it was enqueued, and has not been answered; one that was not
  enqueued has not been answered.
\<close>

definition queues_ok :: "nat \<Rightarrow> (nat \<Rightarrow> nat list) \<Rightarrow> (nat + nat \<Rightarrow> nat option) \<Rightarrow> (nat \<Rightarrow> delivery option)
    \<Rightarrow> (nat \<Rightarrow> call_pc) \<Rightarrow> bool" where
  "queues_ok n q h res pc \<longleftrightarrow>
     (\<forall>g < n. distinct (q g))
   \<and> (\<forall>g < n. \<forall>i \<in> set (q g). res i = None \<and> \<not> early (pc i))
   \<and> (\<forall>g < n. \<forall>g' < n. g \<noteq> g' \<longrightarrow> set (q g) \<inter> set (q g') = {})
   \<and> (\<forall>x i. h x = Some i \<longrightarrow> res i = None \<and> \<not> early (pc i) \<and> (\<forall>g < n. i \<notin> set (q g)))
   \<and> (\<forall>x y i. h x = Some i \<and> h y = Some i \<longrightarrow> x = y)
   \<and> (\<forall>i. early (pc i) \<longrightarrow> res i = None)"

definition queue_inv :: "shard_state \<Rightarrow> bool" where
  "queue_inv s \<longleftrightarrow> queues_ok (s_next s) (pend (s_gens s)) (hand (s_next s) (s_gens s) (s_pc s)) (s_result s) (s_pc s)"

text \<open>
  The line \<open>k\<close> was read before a write failed; the reader is still before its drain; the queue is what
  was enqueued and not yet taken, and the call in the reader's hand is the last it took.
\<close>

definition sound_line :: "generation \<Rightarrow> nat \<Rightarrow> bool" where
  "sound_line x k \<longleftrightarrow> (\<forall>n. g_failed x = Some n \<longrightarrow> k < n)"

fun undrained :: "reader_pc \<Rightarrow> bool" where
  "undrained (RAbort p) = (p = Clear)"
| "undrained Stopped = False"
| "undrained _ = True"

definition fifo_gen :: "generation \<Rightarrow> bool" where
  "fifo_gen x \<longleftrightarrow>
     (g_failed x = None \<and> undrained (g_reader x) \<longrightarrow>
        g_read x \<le> length (g_order x) \<and> g_pending x = drop (g_read x) (g_order x))
   \<and> (\<forall>n. g_failed x = Some n \<longrightarrow> n \<le> g_read x)
   \<and> (\<forall>c. g_reader x = Got c \<or> g_reader x = Holding c \<longrightarrow> 0 < g_read x
        \<and> (sound_line x (g_read x - 1) \<longrightarrow> g_read x \<le> length (g_order x) \<and> g_order x ! (g_read x - 1) = c))"

text \<open>
  What was written is what was enqueued, up to the first failure and the request being written.
\<close>

definition wire_gen :: "generation \<Rightarrow> nat list \<Rightarrow> bool" where
  "wire_gen x w \<longleftrightarrow> (case g_failed x of None \<Rightarrow> g_order x = g_wire x @ w
     | Some n \<Rightarrow> n \<le> length (g_wire x) \<and> n \<le> length (g_order x) \<and> take n (g_wire x) = take n (g_order x))"

definition writer :: "nat option \<Rightarrow> (nat \<Rightarrow> call_pc) \<Rightarrow> nat \<Rightarrow> nat list" where
  "writer mu pc g = (case mu of None \<Rightarrow> [] | Some i \<Rightarrow> if pc i = Writing g then [i] else [])"

definition fifo_inv :: "shard_state \<Rightarrow> bool" where
  "fifo_inv s \<longleftrightarrow> (\<forall>g < s_next s. fifo_gen (s_gens s g) \<and> wire_gen (s_gens s g) (writer (s_mu s) (s_pc s) g))
   \<and> (\<forall>i g k. s_result s i = Some (Response g k) \<longrightarrow> g < s_next s
        \<and> (sound_line (s_gens s g) k \<longrightarrow> k < length (g_order (s_gens s g)) \<and> g_order (s_gens s g) ! k = i))"

definition unbroken_inv :: "shard_state \<Rightarrow> bool" where
  "unbroken_inv s \<longleftrightarrow>
     (\<forall>i g p. s_pc s i = Written g False \<or> s_pc s i = Abort g p \<longrightarrow> g_failed (s_gens s g) \<noteq> None)"

definition drain_inv :: "shard_state \<Rightarrow> bool" where
  "drain_inv s \<longleftrightarrow> (\<forall>g < s_next s. \<not> undrained (g_reader (s_gens s g)) \<longrightarrow> s_conn s \<noteq> Some g)
   \<and> (\<forall>g < s_next s. g_reader (s_gens s g) = Stopped \<longrightarrow> g_pending (s_gens s g) = [])"

text \<open>A call that was enqueued is answered, or on the queue, or in the hands of its reader or of a call.\<close>

fun enqueued :: "call_pc \<Rightarrow> nat option" where
  "enqueued (Sent g) = Some g"
| "enqueued p = writes p"

definition held :: "shard_state \<Rightarrow> nat \<Rightarrow> nat \<Rightarrow> bool" where
  "held s g i \<longleftrightarrow> i \<in> set (g_pending (s_gens s g)) \<or> reader_hand (g_reader (s_gens s g)) = Some i
     \<or> (\<exists>j p. s_pc s j = Abort g p \<and> abort_hand p = Some i)"

definition sent_inv :: "shard_state \<Rightarrow> bool" where
  "sent_inv s \<longleftrightarrow> (\<forall>i g. enqueued (s_pc s i) = Some g \<longrightarrow> s_result s i \<noteq> None \<or> held s g i)"

definition pipe_inv :: "shard_state \<Rightarrow> bool" where
  "pipe_inv s \<longleftrightarrow> fin_inv s \<and> refs_inv s \<and> mu_inv s \<and> dial_inv s \<and> sem_inv s \<and> queue_inv s \<and> fifo_inv s
     \<and> unbroken_inv s \<and> drain_inv s \<and> sent_inv s"

lemmas pipe_invs = fin_inv_def refs_inv_def mu_inv_def dial_inv_def sem_inv_def queue_inv_def queues_ok_def
  fifo_inv_def fifo_gen_def wire_gen_def unbroken_inv_def drain_inv_def sent_inv_def

lemma finite_pc: "finite {i. pc i \<noteq> Start} \<Longrightarrow> finite {j. (pc(i := p)) j \<noteq> Start}"
  by (rule finite_subset [of _ "insert i {i. pc i \<noteq> Start}"]) auto

lemma finite_holders: "fin_inv s \<Longrightarrow> finite (holders (s_pc s) g)"
  unfolding fin_inv_def by (rule finite_subset) (auto simp: holders_def)

lemma refs_pc: "refs_inv s \<Longrightarrow> pc_gen (s_pc s i) = Some g \<Longrightarrow> g < s_next s"
  unfolding refs_inv_def by blast

subsection \<open>The queues\<close>

lemma pend_upd [simp]: "pend (G(g := x)) = (pend G)(g := g_pending x)"
  by (auto simp: pend_def)

lemma pend_triv [simp]: "(pend G)(g := g_pending (G g)) = pend G"
  by (auto simp: pend_def)

lemma pend_empty [simp]: "g_pending (G g) = [] \<Longrightarrow> (pend G)(g := []) = pend G"
  by (auto simp: pend_def)

lemma hand_pc [simp]: "hand n G (pc(i := p)) = (hand n G pc)(Inr i := call_hand p)"
proof (rule ext)
  fix x show "hand n G (pc(i := p)) x = ((hand n G pc)(Inr i := call_hand p)) x" by (cases x) auto
qed

lemma hand_gen:
  "g < n \<Longrightarrow> hand n (G(g := x)) pc = (hand n G pc)(Inl g := reader_hand (g_reader x))"
  "hand (Suc n) (G(n := newGeneration)) pc = hand n G pc"
proof (rule_tac [!] ext)
  fix y show "g < n \<Longrightarrow> hand n (G(g := x)) pc y = ((hand n G pc)(Inl g := reader_hand (g_reader x))) y" by (cases y) auto
  show "hand (Suc n) (G(n := newGeneration)) pc y = hand n G pc y" by (cases y) (auto simp: less_Suc_eq)
qed

lemma hand_same:
  "g < n \<Longrightarrow> (hand n G pc)(Inl g := reader_hand (g_reader (G g))) = hand n G pc"
  "(hand n G pc)(Inr i := call_hand (pc i)) = hand n G pc"
  by (auto simp: fun_eq_iff)

lemma queues_pc: "queues_ok n q h res pc \<Longrightarrow> early p \<longrightarrow> early (pc i) \<Longrightarrow> queues_ok n q h res (pc(i := p))"
  by (auto simp: queues_ok_def)

lemma queues_new: "queues_ok n q h res pc \<Longrightarrow> queues_ok (Suc n) (q(n := [])) h res pc"
  by (simp add: queues_ok_def less_Suc_eq)

lemma queues_enqueue:
  assumes "queues_ok n q h res pc" and "g < n" and "early (pc i)" and "\<not> early p"
  shows "queues_ok n (q(g := q g @ [i])) h res (pc(i := p))"
proof -
  have "\<forall>g < n. i \<notin> set (q g)" "\<forall>x. h x \<noteq> Some i" and "res i = None"
    using assms(1, 3) by (auto simp: queues_ok_def)
  with assms show ?thesis by (simp add: queues_ok_def)
qed

lemma queues_pop:
  assumes "queues_ok n q h res pc" and "g < n" and "q g = c # cs" and "h x = None"
  shows "queues_ok n (q(g := cs)) (h(x := Some c)) res pc"
proof -
  have sub: "set ((q(g := cs)) g') \<subseteq> set (q g')" for g' using assms(3) by auto
  have c: "c \<in> set (q g)" "c \<notin> set cs" using assms(1-3) by (auto simp: queues_ok_def)
  have other: "\<forall>g' < n. g' \<noteq> g \<longrightarrow> c \<notin> set (q g')" using assms(1,2) c(1) unfolding queues_ok_def by blast
  have free: "res c = None" "\<not> early (pc c)" "\<forall>y. h y \<noteq> Some c"
    using assms(1,2) c(1) unfolding queues_ok_def by blast+
  have "\<forall>g' < n. distinct ((q(g := cs)) g')" using assms(1,2,3) by (auto simp: queues_ok_def)
  moreover have "\<forall>g' < n. \<forall>i \<in> set ((q(g := cs)) g'). res i = None \<and> \<not> early (pc i)"
    using assms(1) sub unfolding queues_ok_def by blast
  moreover have "\<forall>g' < n. \<forall>g'' < n. g' \<noteq> g'' \<longrightarrow> set ((q(g := cs)) g') \<inter> set ((q(g := cs)) g'') = {}"
    using assms(1) sub unfolding queues_ok_def by blast
  moreover have "\<forall>y i. (h(x := Some c)) y = Some i \<longrightarrow> res i = None \<and> \<not> early (pc i) \<and> (\<forall>g' < n. i \<notin> set ((q(g := cs)) g'))"
  proof (intro allI impI)
    fix y i assume y: "(h(x := Some c)) y = Some i"
    show "res i = None \<and> \<not> early (pc i) \<and> (\<forall>g' < n. i \<notin> set ((q(g := cs)) g'))"
    proof (cases "y = x")
      case True
      with y other free(1,2) c(2) show ?thesis by auto
    next
      case False
      with y have "h y = Some i" by simp
      with assms(1) sub show ?thesis unfolding queues_ok_def by blast
    qed
  qed
  moreover have "\<forall>y z i. (h(x := Some c)) y = Some i \<and> (h(x := Some c)) z = Some i \<longrightarrow> y = z"
    using assms(1) free(3) unfolding queues_ok_def by (auto split: if_splits)
  moreover have "\<forall>i. early (pc i) \<longrightarrow> res i = None" using assms(1) unfolding queues_ok_def by blast
  ultimately show ?thesis unfolding queues_ok_def by blast
qed

lemma queues_send:
  assumes "queues_ok n q h res pc" and "h x = Some c"
  shows "queues_ok n q (h(x := None)) (res(c := Some d)) pc"
proof -
  have "\<forall>g < n. c \<notin> set (q g)" "\<not> early (pc c)" "\<forall>y. h y = Some c \<longrightarrow> y = x"
    using assms by (auto simp: queues_ok_def)
  with assms(1) show ?thesis by (simp add: queues_ok_def) blast
qed

text \<open>\<open>abort\<close>, run by the call or the reader \<open>x\<close>.\<close>

lemma queues_abort:
  assumes "abort_step g p s q s'" and "queues_ok n (pend (s_gens s)) h (s_result s) pc" and "g < n"
    and "h x = abort_hand p"
  shows "queues_ok n (pend (s_gens s')) (h(x := Option.bind q abort_hand)) (s_result s') pc"
  using assms(1)
proof cases
  case (abort_pop c cs)
  with queues_pop [OF assms(2,3), of c cs x] assms(4) show ?thesis by (simp add: pend_def del: fun_upd_apply)
next
  case (abort_send c)
  with queues_send [OF assms(2), of x c Failed] assms(4) show ?thesis by (simp del: fun_upd_apply)
next
  case abort_clear
  with assms(2,4) show ?thesis by (simp add: fun_upd_idem)
next
  case abort_done
  with assms(2,4) show ?thesis by (simp add: fun_upd_idem)
next
  case (abort_release c)
  then have "pend (s_gens s') = pend (s_gens s)" by (simp add: pend_def del: fun_upd_apply)
  with abort_release assms(2,4) show ?thesis by (simp add: fun_upd_idem)
qed

subsection \<open>The steps of a call\<close>

lemma fin_call: "call_step i s s' \<Longrightarrow> fin_inv s \<Longrightarrow> fin_inv s'"
  unfolding fin_inv_def
  by (erule call_step.cases) (auto simp: abort_step_sel simp del: fun_upd_apply intro!: finite_pc)

lemma refs_call:
  assumes "call_step i s s'" and "refs_inv s"
  shows "refs_inv s'"
  using assms(1)
proof cases
  case (abort g p q t)
  with abort_step_sel [OF abort(3)] refs_pc [OF assms(2), of i] assms(2) show ?thesis
    by (auto simp: refs_inv_def split: if_splits option.splits)
qed (use refs_pc [OF assms(2), of i] assms(2) in \<open>auto simp: refs_inv_def less_Suc_eq split: if_splits\<close>)

lemma mu_call:
  assumes "call_step i s s'" and "mu_inv s"
  shows "mu_inv s'"
proof -
  note own = assms(2) [unfolded mu_inv_def, THEN conjunct1, rule_format, of i]
  from assms(1) show ?thesis
  proof cases
    case (unlock g ok)
    then have "s_mu s = Some i" using own by simp
    with assms(2) have "writes (s_pc s j) = None" if "j \<noteq> i" for j
      using that unfolding mu_inv_def by (metis not_Some_eq option.inject)
    with unlock show ?thesis by (simp add: mu_inv_def)
  next
    case (abort g p q t)
    with abort_step_sel [OF abort(3)] assms(2) show ?thesis
      by (auto simp: mu_inv_def split: if_splits option.splits)
  qed (use own assms(2) in \<open>auto simp: mu_inv_def split: if_splits\<close>)
qed

lemma dial_call:
  assumes "call_step i s s'" and "dial_inv s"
  shows "dial_inv s'"
  using assms(1)
proof cases
  case (abort g p q t)
  have "(case q of None \<Rightarrow> Returned | Some p' \<Rightarrow> Abort g p') \<noteq> Dialing" by (simp split: option.splits)
  with abort abort_step_sel [OF abort(3)] assms(2) mem_dialers [of i "s_pc s"] show ?thesis
    by (auto simp: dial_inv_def simp del: mem_dialers split: option.splits)
qed (use assms(2) mem_dialers [of i "s_pc s"] in \<open>auto simp: dial_inv_def simp del: mem_dialers
    split: option.splits if_splits\<close>)

text \<open>A step of \<open>abort\<close> keeps the tokens of the connections.\<close>

lemma abort_tokens:
  assumes "abort_step g p s q s'"
  shows "g_sem (s_gens s' h) + length (g_pending (s_gens s' h))
      + (if h = g then reader_token (case q of None \<Rightarrow> Stopped | Some p' \<Rightarrow> RAbort p') else 0)
    = g_sem (s_gens s h) + length (g_pending (s_gens s h)) + (if h = g then reader_token (RAbort p) else 0)"
  using assms by cases auto

lemma token_abort: "token (Abort g p) = (if reader_token (RAbort p) = 0 then None else Some g)"
  by (cases p) auto

lemma card_holders_upd:
  assumes "finite (holders pc g)"
  shows "card (holders (pc(i := p)) g) + (if token (pc i) = Some g then 1 else 0)
    = card (holders pc g) + (if token p = Some g then 1 else 0)"
proof (cases "token (pc i) = Some g")
  case True
  then have "i \<in> holders pc g" by simp
  then have "0 < card (holders pc g)" using assms card_gt_0_iff by blast
  with True assms show ?thesis by (simp add: insert_absorb)
next
  case False
  with assms show ?thesis by simp
qed

lemma sem_call:
  assumes "call_step i s s'" and "sem_inv s" and "fin_inv s" and "refs_inv s"
  shows "sem_inv s'"
proof -
  have fin: "finite (holders (s_pc s) g)" for g by (rule finite_holders [OF assms(3)])
  have pos: "token (s_pc s i) = Some g \<Longrightarrow> 0 < card (holders (s_pc s) g)" for g
    using fin [of g] by (metis card_gt_0_iff empty_iff mem_holders)
  have empty: "holders (s_pc s) (s_next s) = {}"
  proof -
    have "token p = Some g \<Longrightarrow> pc_gen p = Some g" for p g by (cases p rule: token.cases) auto
    then have "token (s_pc s j) \<noteq> Some (s_next s)" for j using refs_pc [OF assms(4), of j "s_next s"] by auto
    then show ?thesis by (simp add: holders_def)
  qed
  have bal: "g < s_next s \<Longrightarrow> g_sem (s_gens s g) + card (holders (s_pc s) g)
      + reader_token (g_reader (s_gens s g)) + length (g_pending (s_gens s g)) = maxInFlight" for g
    using assms(2) by (simp add: sem_inv_def)
  show ?thesis
    unfolding sem_inv_def
  proof (intro allI impI)
    fix h
    assume h: "h < s_next s'"
    note own = refs_pc [OF assms(4), of i] pos [of h] bal [of h] empty h
    from assms(1) show "g_sem (s_gens s' h) + card (holders (s_pc s') h) + reader_token (g_reader (s_gens s' h))
        + length (g_pending (s_gens s' h)) = maxInFlight"
    proof cases
      case (acquire g)
      with own show ?thesis by (cases "h = g") (simp_all add: fin)
    next
      case (give_back g)
      with own show ?thesis by (cases "h = g") (simp_all add: fin)
    next
      case (retry g)
      with own show ?thesis by (cases "h = g") (simp_all add: fin insert_absorb)
    next
      case (enqueue g)
      with own show ?thesis by (cases "h = g") (simp_all add: fin)
    next
      case (write_ok g)
      with own show ?thesis by (cases "h = g") simp_all
    next
      case (write_failed g)
      with own show ?thesis by (cases "h = g") simp_all
    next
      case dial_ok
      with own show ?thesis by (cases "h = s_next s") (simp_all add: card_Diff_singleton_if)
    next
      case (abort g p q t)
      let ?p = "case q of None \<Rightarrow> Returned | Some p' \<Rightarrow> Abort g p'"
      have tok: "token ?p = (if reader_token (case q of None \<Rightarrow> Stopped | Some p' \<Rightarrow> RAbort p') = 0 then None else Some g)"
        by (simp add: token_abort split: option.splits)
      have one: "reader_token r \<le> 1" for r by (cases r rule: reader_token.cases) auto
      have "card (holders ((s_pc s)(i := ?p)) h) + (if h = g then reader_token (RAbort p) else 0)
          = card (holders (s_pc s) h) + (if h = g then reader_token (case q of None \<Rightarrow> Stopped | Some p' \<Rightarrow> RAbort p') else 0)"
        using card_holders_upd [OF fin [of h], of i ?p] abort(2) one [of "RAbort p"]
          one [of "case q of None \<Rightarrow> Stopped | Some p' \<Rightarrow> RAbort p'"]
        by (simp only: tok token_abort) (auto simp del: holders_upd split: if_splits)
      with abort own abort_step_sel [OF abort(3)] abort_tokens [OF abort(3), of h] show ?thesis
        by (auto simp del: holders_upd)
    qed (use own in \<open>auto split: if_splits\<close>)
  qed
qed

lemma unbroken_call:
  assumes "call_step i s s'" and "unbroken_inv s" and "refs_inv s"
  shows "unbroken_inv s'"
  unfolding unbroken_inv_def
proof (intro allI impI)
  fix j g p
  assume j: "s_pc s' j = Written g False \<or> s_pc s' j = Abort g p"
  have old: "s_pc s j = Written g False \<or> s_pc s j = Abort g p' \<Longrightarrow> g < s_next s \<and> g_failed (s_gens s g) \<noteq> None" for p'
    using assms(2) refs_pc [OF assms(3), of j g] by (auto simp: unbroken_inv_def)
  from assms(1) show "g_failed (s_gens s' g) \<noteq> None"
  proof cases
    case (abort h p1 q t)
    with old [of p] old [of p1] j abort_step_sel [OF abort(3)] show ?thesis by (auto split: if_splits option.splits)
  qed (use old [of p] j in \<open>auto split: if_splits option.splits\<close>)
qed

lemma hand_gen_same [simp]: "g_reader x = g_reader (G g) \<Longrightarrow> hand n (G(g := x)) pc = hand n G pc"
proof (rule ext)
  fix y show "g_reader x = g_reader (G g) \<Longrightarrow> hand n (G(g := x)) pc y = hand n G pc y" by (cases y) auto
qed

lemma queues_pc_hand:
  "queues_ok n q (hand n G pc) res pc \<Longrightarrow> early p \<longrightarrow> early (pc i) \<Longrightarrow> call_hand (pc i) = None \<Longrightarrow>
    queues_ok n q ((hand n G pc)(Inr i := None)) res (pc(i := p))"
  by (simp add: fun_upd_idem queues_pc del: fun_upd_apply)

lemma queue_call:
  assumes "call_step i s s'" and "queue_inv s" and "refs_inv s"
  shows "queue_inv s'"
proof -
  note q = assms(2) [unfolded queue_inv_def]
  note own = q refs_pc [OF assms(3), of i]
  from assms(1) show ?thesis
  proof cases
    case (enqueue g)
    with own show ?thesis
      using queues_enqueue [OF q, of g i "Writing g"] hand_same(2) [of "s_next s" "s_gens s" "s_pc s" i]
      by (simp add: queue_inv_def pend_def del: fun_upd_apply)
  next
    case dial_ok
    then show ?thesis
      using queues_new [OF queues_pc [OF q, of "HasConn (s_next s)" i]]
        hand_same(2) [of "s_next s" "s_gens s" "s_pc s" i]
      by (simp add: queue_inv_def hand_gen del: fun_upd_apply)
  next
    case (abort g p q' t)
    let ?p = "case q' of None \<Rightarrow> Returned | Some p' \<Rightarrow> Abort g p'"
    have p: "\<not> early ?p" "call_hand ?p = Option.bind q' abort_hand" by (simp_all split: option.splits)
    have "hand (s_next s) (s_gens t) pc = hand (s_next s) (s_gens s) pc" for pc
    proof (rule ext)
      fix x show "hand (s_next s) (s_gens t) pc x = hand (s_next s) (s_gens s) pc x"
        using abort_step_sel(10) [OF abort(3)] by (cases x) simp_all
    qed
    with abort queues_pc [OF queues_abort [OF abort(3) q, of "Inr i"], of ?p i] abort_step_sel [OF abort(3)] p own(2)
    show ?thesis by (simp add: queue_inv_def del: fun_upd_apply)
  next
    case (unlock g ok)
    with queues_pc_hand [OF q, of "if ok then Sent g else Abort g Clear" i] show ?thesis
      by (simp add: queue_inv_def del: fun_upd_apply split: if_splits)
  qed (use q in \<open>simp_all add: queue_inv_def queues_pc_hand del: fun_upd_apply\<close>)
qed

text \<open>The past of a connection, as far as the pairing of lines and calls goes.\<close>

lemma fifo_gen_cong:
  assumes "g_order y = g_order x" "g_read y = g_read x" "g_failed y = g_failed x" "g_reader y = g_reader x"
    and "g_failed x = None \<Longrightarrow> g_pending y = g_pending x"
  shows "fifo_gen y = fifo_gen x"
  using assms by (auto simp: fifo_gen_def sound_line_def)

lemma wire_gen_cong: "g_order y = g_order x \<Longrightarrow> g_wire y = g_wire x \<Longrightarrow> g_failed y = g_failed x \<Longrightarrow> wire_gen y w = wire_gen x w"
  by (simp add: wire_gen_def split: option.splits)

lemma writer_pc [simp]:
  "(\<And>h. p \<noteq> Writing h) \<Longrightarrow> (\<And>h. pc i \<noteq> Writing h) \<Longrightarrow> writer mu (pc(i := p)) g = writer mu pc g"
  by (auto simp: writer_def split: option.splits)

lemma writer_None [simp]: "writer None pc g = []"
  by (simp add: writer_def)

lemma fifo_gens_call:
  assumes "call_step i s s'" and "fifo_inv s" and "refs_inv s" and "unbroken_inv s" and "drain_inv s" and "h < s_next s'"
  shows "fifo_gen (s_gens s' h)"
proof -
  note own = refs_pc [OF assms(3), of i] assms(4) [unfolded unbroken_inv_def, rule_format, of i]
  have old: "h < s_next s \<Longrightarrow> fifo_gen (s_gens s h)" using assms(2) by (simp add: fifo_inv_def)
  from assms(1) show ?thesis
  proof cases
    case (abort g p q t)
    have "fifo_gen (s_gens t h) = fifo_gen (s_gens s h)"
    proof (rule fifo_gen_cong)
      show "g_failed (s_gens s h) = None \<Longrightarrow> g_pending (s_gens t h) = g_pending (s_gens s h)"
        using abort(3) own(2) [of g] abort(2) by cases auto
    qed (use abort_step_sel [OF abort(3)] in simp_all)
    with abort old assms(6) abort_step_sel [OF abort(3)] show ?thesis by simp
  next
    case (enqueue g)
    have "undrained (g_reader (s_gens s g))" using assms(5) enqueue own by (auto simp: drain_inv_def)
    with old enqueue assms(6) show ?thesis by (auto simp: fifo_gen_def sound_line_def nth_append)
  qed (use old assms(6) own in \<open>auto simp: fifo_gen_def sound_line_def less_Suc_eq split: if_splits option.splits\<close>)
qed

lemma wire_gens_call:
  assumes "call_step i s s'" and "fifo_inv s" and "refs_inv s" and "mu_inv s" and "h < s_next s'"
  shows "wire_gen (s_gens s' h) (writer (s_mu s') (s_pc s') h)"
proof -
  note own = refs_pc [OF assms(3), of i]
  have mu: "writes (s_pc s i) = Some g \<Longrightarrow> s_mu s = Some i" for g using assms(4) by (auto simp: mu_inv_def)
  have old: "h < s_next s \<Longrightarrow> wire_gen (s_gens s h) (writer (s_mu s) (s_pc s) h)"
    using assms(2) by (simp add: fifo_inv_def)
  from assms(1) show ?thesis
  proof cases
    case (abort g p q t)
    note sel = abort_step_sel [OF abort(3)]
    have "writer (s_mu s) ((s_pc s)(i := (case q of None \<Rightarrow> Returned | Some p' \<Rightarrow> Abort g p'))) h = writer (s_mu s) (s_pc s) h"
      by (rule writer_pc) (use abort(2) in \<open>auto split: option.splits\<close>)
    moreover have "wire_gen (s_gens t h) w = wire_gen (s_gens s h) w" for w
      by (rule wire_gen_cong) (simp_all add: sel)
    ultimately show ?thesis using abort old assms(5) sel by simp
  next
    case (enqueue g)
    then show ?thesis using old assms(5) by (auto simp: wire_gen_def writer_def split: option.splits)
  next
    case (write_ok g)
    then show ?thesis using old assms(5) mu by (auto simp: wire_gen_def writer_def split: option.splits)
  next
    case (write_failed g)
    then show ?thesis using old assms(5) mu by (auto simp: wire_gen_def writer_def split: option.splits)
  next
    case (unlock g ok)
    then show ?thesis using old assms(5) mu by (auto simp: writer_def split: if_splits)
  next
    case dial_ok
    then show ?thesis using old assms(5) by (cases "h = s_next s") (auto simp: wire_gen_def)
  qed (use old assms(5) in \<open>auto simp: wire_gen_def split: if_splits option.splits\<close>)
qed

lemma sound_line_note [simp]: "sound_line (note_failure x) k \<Longrightarrow> sound_line x k"
  by (auto simp: sound_line_def)

lemma fifo_call:
  assumes "call_step i s s'" and "fifo_inv s" and "refs_inv s" and "mu_inv s" and "unbroken_inv s" and "drain_inv s"
  shows "fifo_inv s'"
proof -
  have results: "g < s_next s' \<and> (sound_line (s_gens s' g) k \<longrightarrow>
      k < length (g_order (s_gens s' g)) \<and> g_order (s_gens s' g) ! k = j)"
    if r: "s_result s' j = Some (Response g k)" for j g k
  proof -
    have old: "s_result s j = Some (Response g k) \<Longrightarrow> g < s_next s \<and> (sound_line (s_gens s g) k \<longrightarrow>
        k < length (g_order (s_gens s g)) \<and> g_order (s_gens s g) ! k = j)"
      using assms(2) by (simp add: fifo_inv_def)
    from assms(1) show ?thesis
    proof cases
      case (abort h p q t)
      note sel = abort_step_sel [OF abort(3)]
      have "s_result t j = Some (Response g k) \<Longrightarrow> s_result s j = Some (Response g k)"
        using abort(3) by cases (auto split: if_splits)
      with old r abort sel show ?thesis by (simp add: sound_line_def)
    qed (use old r in \<open>auto simp: nth_append sound_line_def split: if_splits option.splits\<close>)
  qed
  with fifo_gens_call [OF assms(1-3,5,6)] wire_gens_call [OF assms(1-4)] show ?thesis by (simp add: fifo_inv_def)
qed

lemma drain_call:
  assumes "call_step i s s'" and "drain_inv s" and "refs_inv s"
  shows "drain_inv s'"
proof -
  have "(\<not> undrained (g_reader (s_gens s' h)) \<longrightarrow> s_conn s' \<noteq> Some h)
      \<and> (g_reader (s_gens s' h) = Stopped \<longrightarrow> g_pending (s_gens s' h) = [])" if h: "h < s_next s'" for h
  proof -
    have old: "h < s_next s \<Longrightarrow> (\<not> undrained (g_reader (s_gens s h)) \<longrightarrow> s_conn s \<noteq> Some h)
        \<and> (g_reader (s_gens s h) = Stopped \<longrightarrow> g_pending (s_gens s h) = [])"
      using assms(2) by (simp add: drain_inv_def)
    from assms(1) show ?thesis
    proof cases
      case (abort g p q t)
      note sel = abort_step_sel [OF abort(3)]
      have "g_pending (s_gens s h) = [] \<Longrightarrow> g_pending (s_gens t h) = []" using abort(3) by cases auto
      with old h abort sel(3,10,11) show ?thesis by auto
    qed (use old h in \<open>auto simp: less_Suc_eq split: if_splits\<close>)
  qed
  then show ?thesis by (simp add: drain_inv_def)
qed

lemma heldI:
  "i \<in> set (g_pending (s_gens s g)) \<Longrightarrow> held s g i"
  "reader_hand (g_reader (s_gens s g)) = Some i \<Longrightarrow> held s g i"
  "s_pc s j = Abort g p \<Longrightarrow> abort_hand p = Some i \<Longrightarrow> held s g i"
  by (auto simp: held_def)

lemma held_mono:
  assumes "held s g i" "set (g_pending (s_gens s g)) \<subseteq> set (g_pending (s_gens s' g))"
    "g_reader (s_gens s' g) = g_reader (s_gens s g)" "\<And>j p. s_pc s j = Abort g p \<Longrightarrow> abort_hand p = Some i \<Longrightarrow> s_pc s' j = s_pc s j"
  shows "held s' g i"
  using assms unfolding held_def by (metis subsetD)

text \<open>A step of \<open>abort\<close>, run by a call or a reader, loses no call: one it takes is in its hand, or answered.\<close>

lemma abort_holds:
  assumes "abort_step g p s q t" and "s_result s i \<noteq> None \<or> held s h i"
  shows "s_result t i \<noteq> None \<or> i \<in> set (g_pending (s_gens t h)) \<or> (h = g \<and> Option.bind q abort_hand = Some i)
    \<or> (reader_hand (g_reader (s_gens s h)) = Some i \<and> (h = g \<longrightarrow> abort_hand p \<noteq> Some i))
    \<or> (\<exists>j p'. s_pc s j = Abort h p' \<and> abort_hand p' = Some i \<and> (h = g \<longrightarrow> abort_hand p \<noteq> Some i))"
  using assms by cases (auto simp: held_def split: if_splits)

lemma held_step:
  assumes "held s g j" "\<forall>p. s_pc s i \<noteq> Abort g p" "\<forall>k. k \<noteq> i \<longrightarrow> s_pc s' k = s_pc s k"
    "set (g_pending (s_gens s g)) \<subseteq> set (g_pending (s_gens s' g))" "g_reader (s_gens s' g) = g_reader (s_gens s g)"
  shows "held s' g j"
  by (rule held_mono [OF assms(1,4,5)]) (use assms(2,3) in metis)

lemma sent_call:
  assumes "call_step i s s'" and "sent_inv s" and "refs_inv s"
  shows "sent_inv s'"
  unfolding sent_inv_def
proof (intro allI impI)
  fix j g
  assume j: "enqueued (s_pc s' j) = Some g"
  have old: "enqueued (s_pc s j) = Some g \<Longrightarrow> g < s_next s \<and> (s_result s j \<noteq> None \<or> held s g j)"
  proof -
    have "enqueued p = Some g \<Longrightarrow> pc_gen p = Some g" for p by (cases p) auto
    then show "enqueued (s_pc s j) = Some g \<Longrightarrow> g < s_next s \<and> (s_result s j \<noteq> None \<or> held s g j)"
      using assms(2) refs_pc [OF assms(3), of j g] by (auto simp: sent_inv_def)
  qed
  from assms(1) show "s_result s' j \<noteq> None \<or> held s' g j"
  proof cases
    case (abort h p q t)
    note sel = abort_step_sel [OF abort(3)]
    have "enqueued (s_pc s j) = Some g" using j abort sel(1) by (auto split: if_splits option.splits)
    with old have "s_result s j \<noteq> None \<or> held s g j" by blast
    note holds = abort_holds [OF abort(3) this]
    have pc: "s_pc s' i = (case q of None \<Rightarrow> Returned | Some p' \<Rightarrow> Abort h p')" "\<And>k. k \<noteq> i \<Longrightarrow> s_pc s' k = s_pc s k"
      using abort sel(1) by auto
    from holds abort(2) consider "s_result t j \<noteq> None" | "j \<in> set (g_pending (s_gens t g))"
      | "g = h" "Option.bind q abort_hand = Some j" | "reader_hand (g_reader (s_gens s g)) = Some j"
      | k p' where "s_pc s k = Abort g p'" "abort_hand p' = Some j" "g = h \<longrightarrow> abort_hand p \<noteq> Some j" by blast
    then show ?thesis
    proof cases
      case 3
      then obtain p' where "q = Some p'" "abort_hand p' = Some j" by (cases q) auto
      with heldI(3) [of s' i g p' j] 3(1) pc show ?thesis by simp
    next
      case (5 k p')
      then have "k \<noteq> i" using abort(2) by auto
      with heldI(3) [of s' k g p' j] pc 5 show ?thesis by simp
    qed (use abort sel heldI(1) [of j s' g] heldI(2) [of s' g j] in simp_all)
  next
    case (enqueue h)
    show ?thesis
    proof (cases "j = i")
      case True
      with enqueue j heldI(1) [of j s' g] show ?thesis by auto
    next
      case False
      with enqueue j old have "s_result s j \<noteq> None \<or> held s g j" by simp
      moreover have "held s g j \<Longrightarrow> held s' g j" by (rule held_step [where i = i]) (use enqueue in auto)
      ultimately show ?thesis using enqueue by auto
    qed
  next
    case dial_ok
    then have "enqueued (s_pc s j) = Some g" using j by (auto split: if_splits)
    with old have g: "g \<noteq> s_next s" "s_result s j \<noteq> None \<or> held s g j" by auto
    have "held s g j \<Longrightarrow> held s' g j" by (rule held_step [where i = i]) (use dial_ok g(1) in auto)
    with g(2) dial_ok show ?thesis by auto
  qed (use old j in \<open>auto split: if_splits intro: held_step [where i = i]\<close>)
qed

subsection \<open>The steps of a reader\<close>

lemma fin_reader: "reader_step g s s' \<Longrightarrow> fin_inv s \<Longrightarrow> fin_inv s'"
  unfolding fin_inv_def by (erule reader_step.cases) (auto simp: abort_step_sel)

lemma reader_step_sel:
  assumes "reader_step g s s'"
  shows "s_pc s' = s_pc s" "s_closed s' = s_closed s" "s_next s' = s_next s" "s_dialing s' = s_dialing s"
    "s_mu s' = s_mu s" "g_order (s_gens s' h) = g_order (s_gens s h)" "g_wire (s_gens s' h) = g_wire (s_gens s h)"
    "g_failed (s_gens s' h) = g_failed (s_gens s h)" "s_conn s' = s_conn s \<or> s_conn s' = None \<and> s_mu s = None"
  using assms by (cases, auto dest: abort_step_sel)+

lemma refs_reader: "reader_step g s s' \<Longrightarrow> refs_inv s \<Longrightarrow> refs_inv s'"
  using reader_step_sel [of g s s'] unfolding refs_inv_def by auto

lemma mu_reader: "reader_step g s s' \<Longrightarrow> mu_inv s \<Longrightarrow> mu_inv s'"
  using reader_step_sel [of g s s'] unfolding mu_inv_def by auto

lemma dial_reader: "reader_step g s s' \<Longrightarrow> dial_inv s \<Longrightarrow> dial_inv s'"
  using reader_step_sel [of g s s'] unfolding dial_inv_def by (auto split: option.splits)

lemma unbroken_reader: "reader_step g s s' \<Longrightarrow> unbroken_inv s \<Longrightarrow> unbroken_inv s'"
  using reader_step_sel [of g s s'] unfolding unbroken_inv_def by simp

lemma sem_reader:
  assumes "reader_step g s s'" and "sem_inv s"
  shows "sem_inv s'"
  unfolding sem_inv_def
proof (intro allI impI)
  fix h
  assume h: "h < s_next s'"
  note sel = reader_step_sel [OF assms(1)]
  have bal: "g_sem (s_gens s h) + card (holders (s_pc s) h) + reader_token (g_reader (s_gens s h))
      + length (g_pending (s_gens s h)) = maxInFlight"
    using assms(2) h sel(3) by (simp add: sem_inv_def)
  from assms(1) show "g_sem (s_gens s' h) + card (holders (s_pc s') h) + reader_token (g_reader (s_gens s' h))
      + length (g_pending (s_gens s' h)) = maxInFlight"
  proof cases
    case (read_abort p q t)
    with bal sel(1) abort_tokens [OF read_abort(3), of h] abort_step_sel(10) [OF read_abort(3)] show ?thesis
      by (auto split: if_splits)
  qed (use bal sel(1) in \<open>auto split: if_splits\<close>)
qed

lemma queue_reader:
  assumes "reader_step g s s'" and "queue_inv s" and "g < s_next s"
  shows "queue_inv s'"
proof -
  note q = assms(2) [unfolded queue_inv_def]
  have h: "hand (s_next s) (s_gens s) (s_pc s) (Inl g) = reader_hand (g_reader (s_gens s g))" using assms(3) by simp
  from assms(1) show ?thesis
  proof cases
    case (read_line c cs)
    with queues_pop [OF q assms(3), of c cs "Inl g"] h assms(3) show ?thesis
      by (simp add: queue_inv_def hand_gen pend_def fun_upd_same del: fun_upd_apply hand.simps)
  next
    case (read_release c)
    with q h assms(3) show ?thesis
      by (simp add: queue_inv_def hand_gen pend_def fun_upd_same fun_upd_idem del: fun_upd_apply hand.simps)
  next
    case (read_deliver c)
    with queues_send [OF q, of "Inl g" c] h assms(3) show ?thesis
      by (simp add: queue_inv_def hand_gen del: fun_upd_apply hand.simps)
  next
    case (read_undecodable c)
    with queues_send [OF q, of "Inl g" c] h assms(3) show ?thesis
      by (simp add: queue_inv_def hand_gen del: fun_upd_apply hand.simps)
  next
    case (read_abort p q' t)
    have r: "reader_hand (case q' of None \<Rightarrow> Stopped | Some p' \<Rightarrow> RAbort p') = Option.bind q' abort_hand"
      by (simp split: option.splits)
    have t: "hand (s_next s) (s_gens t) pc = hand (s_next s) (s_gens s) pc" for pc
    proof (rule ext)
      fix x show "hand (s_next s) (s_gens t) pc x = hand (s_next s) (s_gens s) pc x"
        using abort_step_sel(10) [OF read_abort(3)] by (cases x) simp_all
    qed
    with read_abort queues_abort [OF read_abort(3) q assms(3), of "Inl g"] h assms(3) abort_step_sel [OF read_abort(3)]
    show ?thesis by (simp add: queue_inv_def hand_gen r del: fun_upd_apply hand.simps)
  qed (use q h assms(3) in \<open>simp_all add: queue_inv_def hand_gen fun_upd_idem del: fun_upd_apply hand.simps\<close>)
qed

lemma drop_eq_ConsD: "drop n xs = c # cs \<Longrightarrow> Suc n \<le> length xs \<and> xs ! n = c \<and> drop (Suc n) xs = cs"
  by (metis Cons_nth_drop_Suc Suc_leI drop_all leI list.discI list.inject)

lemma fifo_reader:
  assumes "reader_step g s s'" and "fifo_inv s" and "g < s_next s"
  shows "fifo_inv s'"
proof -
  note sel = reader_step_sel [OF assms(1)]
  have own: "fifo_gen (s_gens s g)" using assms(2, 3) by (simp add: fifo_inv_def)
  have gens: "fifo_gen (s_gens s' h)" if h: "h < s_next s'" for h
  proof -
    have old: "fifo_gen (s_gens s h)" using assms(2) h sel(3) by (simp add: fifo_inv_def)
    from assms(1) show ?thesis
    proof cases
      case (read_line c cs)
      have "g_failed (s_gens s g) = None \<Longrightarrow> Suc (g_read (s_gens s g)) \<le> length (g_order (s_gens s g))
          \<and> g_order (s_gens s g) ! g_read (s_gens s g) = c \<and> drop (Suc (g_read (s_gens s g))) (g_order (s_gens s g)) = cs"
        by (rule drop_eq_ConsD) (use own read_line in \<open>simp add: fifo_gen_def\<close>)
      with old read_line show ?thesis
        by (cases "g_failed (s_gens s g)") (auto simp: fifo_gen_def sound_line_def split: if_splits)
    next
      case (read_abort p q t)
      note t = abort_step_sel [OF read_abort(3)]
      have "p = Clear \<Longrightarrow> g_pending (s_gens t h) = g_pending (s_gens s h)" using read_abort(3) by cases auto
      moreover have "(case q of None \<Rightarrow> Stopped | Some p' \<Rightarrow> RAbort p') \<noteq> RAbort Clear"
        using read_abort(3) by cases auto
      moreover have "h \<noteq> g \<Longrightarrow> g_pending (s_gens t h) = g_pending (s_gens s h)" using read_abort(3) by cases auto
      ultimately show ?thesis
        using old read_abort t by (auto simp: fifo_gen_def sound_line_def split: if_splits option.splits)
    qed (use old in \<open>auto simp: fifo_gen_def sound_line_def split: if_splits\<close>)
  qed
  have results: "h < s_next s' \<and> (sound_line (s_gens s' h) k \<longrightarrow>
      k < length (g_order (s_gens s' h)) \<and> g_order (s_gens s' h) ! k = j)"
    if r: "s_result s' j = Some (Response h k)" for j h k
  proof -
    have old: "s_result s j = Some (Response h k) \<Longrightarrow> h < s_next s \<and> (sound_line (s_gens s h) k \<longrightarrow>
        k < length (g_order (s_gens s h)) \<and> g_order (s_gens s h) ! k = j)"
      using assms(2) by (simp add: fifo_inv_def)
    have "s_result s j = Some (Response h k) \<or> (h = g \<and> g_reader (s_gens s g) = Holding j \<and> k = g_read (s_gens s g) - 1)"
      using assms(1)
    proof cases
      case (read_abort p q t)
      have "s_result t j = Some (Response h k) \<Longrightarrow> s_result s j = Some (Response h k)"
        using read_abort(3) by cases (auto split: if_splits)
      with read_abort r show ?thesis by simp
    qed (use r in \<open>auto split: if_splits\<close>)
    then show ?thesis
      using old own assms(3) sel by (auto simp: fifo_gen_def sound_line_def)
  qed
  have "\<forall>h < s_next s'. wire_gen (s_gens s' h) (writer (s_mu s') (s_pc s') h)"
    using assms(2) sel wire_gen_cong [of "s_gens s' _" "s_gens s _"] by (simp add: fifo_inv_def)
  with gens results show ?thesis by (simp add: fifo_inv_def)
qed

lemma drain_reader:
  assumes "reader_step g s s'" and "drain_inv s"
  shows "drain_inv s'"
proof -
  note sel = reader_step_sel [OF assms(1)]
  have "(\<not> undrained (g_reader (s_gens s' h)) \<longrightarrow> s_conn s' \<noteq> Some h)
      \<and> (g_reader (s_gens s' h) = Stopped \<longrightarrow> g_pending (s_gens s' h) = [])" if h: "h < s_next s'" for h
  proof -
    have old: "(\<not> undrained (g_reader (s_gens s h)) \<longrightarrow> s_conn s \<noteq> Some h)
        \<and> (g_reader (s_gens s h) = Stopped \<longrightarrow> g_pending (s_gens s h) = [])"
      using assms(2) h sel(3) by (simp add: drain_inv_def)
    from assms(1) show ?thesis
    proof cases
      case (read_abort p q t)
      have "s_conn t \<noteq> Some g \<or> p \<noteq> Clear" "q = None \<Longrightarrow> g_pending (s_gens t g) = []"
        "h \<noteq> g \<Longrightarrow> g_pending (s_gens t h) = g_pending (s_gens s h)"
        using read_abort(3) by (cases, auto)+
      with old read_abort abort_step_sel(10,11) [OF read_abort(3)] show ?thesis
        by (auto split: if_splits option.splits)
    qed (use old in \<open>auto split: if_splits\<close>)
  qed
  then show ?thesis by (simp add: drain_inv_def)
qed

lemma sent_reader:
  assumes "reader_step g s s'" and "sent_inv s"
  shows "sent_inv s'"
  unfolding sent_inv_def
proof (intro allI impI)
  fix j h
  assume j: "enqueued (s_pc s' j) = Some h"
  note sel = reader_step_sel [OF assms(1)]
  have old: "s_result s j \<noteq> None \<or> held s h j" using assms(2) j sel(1) by (auto simp: sent_inv_def)
  from assms(1) show "s_result s' j \<noteq> None \<or> held s' h j"
  proof cases
    case (read_abort p q t)
    note t = abort_step_sel [OF read_abort(3)]
    from abort_holds [OF read_abort(3) old] read_abort(2)
    consider "s_result t j \<noteq> None" | "j \<in> set (g_pending (s_gens t h))"
      | "h = g" "Option.bind q abort_hand = Some j" | "h \<noteq> g" "reader_hand (g_reader (s_gens s h)) = Some j"
      | k p' where "s_pc s k = Abort h p'" "abort_hand p' = Some j" by fastforce
    then show ?thesis
    proof cases
      case 3
      then obtain p' where "q = Some p'" "abort_hand p' = Some j" by (cases q) auto
      with heldI(2) [of s' h j] read_abort 3(1) show ?thesis by simp
    next
      case 5
      with heldI(3) [of s' _ h _ j] sel(1) show ?thesis by simp
    next
      case 4
      with heldI(2) [of s' h j] read_abort t show ?thesis by simp
    next
      case 2
      then have "j \<in> set (g_pending (s_gens s' h))" using read_abort by (cases "h = g") auto
      then show ?thesis by (blast intro: heldI(1))
    next
      case 1
      with read_abort show ?thesis by simp
    qed
  qed (use old in \<open>auto simp: held_def split: if_splits\<close>)
qed

lemma close_inv:
  "fin_inv (close_conn s) = fin_inv s" "sem_inv (close_conn s) = sem_inv s"
  "queue_inv (close_conn s) = queue_inv s" "fifo_inv (close_conn s) = fifo_inv s"
  "unbroken_inv (close_conn s) = unbroken_inv s" "sent_inv (close_conn s) = sent_inv s"
  "refs_inv s \<Longrightarrow> refs_inv (close_conn s)" "dial_inv s \<Longrightarrow> dial_inv (close_conn s)"
  "drain_inv s \<Longrightarrow> drain_inv (close_conn s)" "s_mu s = None \<Longrightarrow> mu_inv s \<Longrightarrow> mu_inv (close_conn s)"
  by (simp_all add: fin_inv_def sem_inv_def queue_inv_def fifo_inv_def unbroken_inv_def sent_inv_def held_def
    refs_inv_def dial_inv_def drain_inv_def mu_inv_def split: option.splits)

section \<open>Reachable states\<close>

lemma pipe_init: "pipe_inv init_state"
proof -
  have "hand 0 (\<lambda>_. newGeneration) (\<lambda>_. Start) x = None" for x by (cases x) auto
  then show ?thesis by (simp add: pipe_inv_def pipe_invs init_state_def dialers_def holders_def pend_def)
qed

lemma pipe_step: "shard_step s s' \<Longrightarrow> pipe_inv s \<Longrightarrow> pipe_inv s'"
proof (induction rule: shard_step.induct)
  case (call i s s')
  then show ?case
    by (simp add: pipe_inv_def fin_call refs_call mu_call dial_call sem_call queue_call fifo_call drain_call
      sent_call unbroken_call)
next
  case (reader g s s')
  then show ?case
    by (simp add: pipe_inv_def fin_reader refs_reader mu_reader dial_reader sem_reader queue_reader fifo_reader
      drain_reader sent_reader unbroken_reader)
next
  case (closing s)
  then show ?case
    by (simp add: pipe_inv_def close_inv)
qed

lemma pipe_reachable: "reachable s \<Longrightarrow> pipe_inv s"
  by (induction rule: reachable.induct) (auto simp: pipe_init pipe_step)

end
