(* ===== verification/PipelineProps.thy ===== *)
theory PipelineProps
  imports Pipeline
begin

text \<open>
  What the pipelined connection promises, over every reachable state of calls, readers and \<open>close\<close>:
  until a write fails the k-th line read goes to the k-th request written, no send on a channel can
  block, no call that sent its request is forgotten, and \<open>close\<close> is final. The last property is a state
  in which the order is lost: a failing write drains the queue while the reader still has a line to
  hand out.
\<close>

section \<open>A call can be answered without waiting for the server\<close>

text \<open>
  Steps of the reader of \<open>g\<close>, and of calls in the middle of a write or with a call of the queue in their
  hand: none of them waits for anything but the end of a write.
\<close>

definition own_step :: "nat \<Rightarrow> shard_state \<Rightarrow> shard_state \<Rightarrow> bool" where
  "own_step g s s' \<longleftrightarrow> reader_step g s s'
     \<or> (\<exists>j. (writes (s_pc s j) \<noteq> None \<or> call_hand (s_pc s j) \<noteq> None) \<and> call_step j s s')"

lemma own_reader: "reader_step g s s' \<Longrightarrow> own_step g s s'"
  by (simp add: own_step_def)

lemma own_call: "call_step j s s' \<Longrightarrow> writes (s_pc s j) \<noteq> None \<or> call_hand (s_pc s j) \<noteq> None \<Longrightarrow> own_step g s s'"
  unfolding own_step_def by blast

text \<open>There is a run of such steps that gives call \<open>i\<close> a result.\<close>

definition answerable :: "nat \<Rightarrow> nat \<Rightarrow> shard_state \<Rightarrow> bool" where
  "answerable g i s \<longleftrightarrow> (\<exists>s'. (own_step g)\<^sup>*\<^sup>* s s' \<and> s_result s' i \<noteq> None)"

lemma answered: "s_result s i \<noteq> None \<Longrightarrow> answerable g i s"
  unfolding answerable_def by blast

lemma answerable_step: "own_step g s t \<Longrightarrow> answerable g i t \<Longrightarrow> answerable g i s"
  unfolding answerable_def by (meson converse_rtranclp_into_rtranclp)

text \<open>A call in the hand of the reader, or of a call.\<close>

lemma reader_drain_step:
  assumes "g_reader (s_gens s g) = RAbort p" and "abort_step g p s (Some p') t"
    and "answerable g i (set_reader g (RAbort p') t)"
  shows "answerable g i s"
  by (rule answerable_step [OF own_reader assms(3)])
    (use read_abort [OF assms(1,2)] in simp)

lemma hand_answers:
  assumes "reader_hand (g_reader (s_gens s g)) = Some i"
  shows "answerable g i s"
proof -
  have got: "answerable g i s" if "g_reader (s_gens s g) = Holding i" for s
    by (rule answerable_step [OF own_reader [OF read_undecodable [OF that]]]) (simp add: answered)
  have released: "answerable g i s" if "g_reader (s_gens s g) = RAbort (Released i)" for s
    by (rule reader_drain_step [OF that abort_send]) (simp add: answered)
  from assms consider "g_reader (s_gens s g) = Got i" | "g_reader (s_gens s g) = Holding i"
    | "g_reader (s_gens s g) = RAbort (Popped i)" | "g_reader (s_gens s g) = RAbort (Released i)"
  proof (cases "g_reader (s_gens s g)")
    case (RAbort p)
    with assms that show thesis by (cases p) auto
  qed auto
  then show ?thesis
  proof cases
    case 1
    show ?thesis by (rule answerable_step [OF own_reader [OF read_release [OF 1]]]) (simp add: got)
  next
    case 3
    show ?thesis by (rule reader_drain_step [OF 3 abort_release]) (simp add: released)
  qed (rule got released, assumption)+
qed

lemma call_hand_answers:
  assumes "s_pc s j = Abort h p" "abort_hand p = Some i"
  shows "answerable g i s"
proof -
  have released: "answerable g i s" if "s_pc s j = Abort h (Released i)" for s
  proof -
    have "call_step j s (set_pc j (Abort h Drain) (send i Failed s))"
      using call_step.abort [OF that abort_send] by simp
    then show ?thesis by (rule answerable_step [OF own_call]) (simp_all add: that answered)
  qed
  from assms(2) consider "p = Popped i" | "p = Released i" by (cases p) auto
  then show ?thesis
  proof cases
    case 1
    then have "call_step j s (set_pc j (Abort h (Released i)) (release h s))"
      using call_step.abort [of s j h "Popped i", OF _ abort_release] assms(1) by simp
    then show ?thesis by (rule answerable_step [OF own_call]) (simp_all add: assms(1) 1 released)
  next
    case 2
    with assms(1) released show ?thesis by simp
  qed
qed

text \<open>A call on the queue.\<close>

lemma drain_answers:
  assumes "g_reader (s_gens s g) = RAbort Drain" and "i \<in> set (g_pending (s_gens s g))"
  shows "answerable g i s"
  using assms
proof (induction "g_pending (s_gens s g)" arbitrary: s)
  case Nil
  then show ?case by simp
next
  case (Cons c cs)
  note step = reader_drain_step [OF Cons.prems(1) abort_pop [OF Cons.hyps(2) [symmetric]]]
  show ?case
  proof (rule step, cases "i = c")
    case True
    then show "answerable g i (set_reader g (RAbort (Popped c)) (pop g s))" by (intro hand_answers) simp
  next
    case False
    with Cons.prems(2) Cons.hyps(2) [symmetric] have i: "i \<in> set cs" by simp
    have "answerable g i t" if t: "g_reader (s_gens t g) = RAbort (Popped c)" "g_pending (s_gens t g) = cs" for t
    proof (rule reader_drain_step [OF t(1) abort_release], rule reader_drain_step [OF _ abort_send])
      show "answerable g i (set_reader g (RAbort Drain) (send c Failed (set_reader g (RAbort (Released c)) (release g t))))"
        by (rule Cons.hyps(1)) (use t(2) i in auto)
    qed simp
    then show "answerable g i (set_reader g (RAbort (Popped c)) (pop g s))"
      using Cons.hyps(2) [symmetric] by simp
  qed
qed

lemma drain_popped_answers:
  assumes "g_reader (s_gens s g) = RAbort p" "p = Popped c \<or> p = Released c" and "i \<in> set (g_pending (s_gens s g))"
  shows "answerable g i s"
proof -
  have released: "answerable g i t"
    if t: "g_reader (s_gens t g) = RAbort (Released c)" "i \<in> set (g_pending (s_gens t g))" for t
    by (rule reader_drain_step [OF t(1) abort_send drain_answers]) (use t(2) in simp_all)
  from assms(2) show ?thesis
  proof
    assume "p = Popped c"
    with assms(1,3) show ?thesis by (intro reader_drain_step [OF _ abort_release released]) simp_all
  qed (use assms released in blast)
qed

lemma clear_answers:
  assumes "g_reader (s_gens s g) = RAbort Clear" and "i \<in> set (g_pending (s_gens s g))" and "mu_inv s"
  shows "answerable g i s"
proof -
  have free: "answerable g i t"
    if "g_reader (s_gens t g) = RAbort Clear" "i \<in> set (g_pending (s_gens t g))" "s_mu t = None" for t
    by (rule reader_drain_step [OF that(1) abort_clear [OF that(3)] drain_answers]) (use that(2) in simp_all)
  have written: "answerable g i t"
    if t: "g_reader (s_gens t g) = RAbort Clear" "i \<in> set (g_pending (s_gens t g))" "s_pc t j = Written h ok" for t j h ok
    by (rule answerable_step [OF own_call [OF unlock [OF t(3)]] free]) (use t in simp_all)
  show ?thesis
  proof (cases "s_mu s")
    case None
    with free assms show ?thesis by blast
  next
    case (Some j)
    with assms(3) have "writes (s_pc s j) \<noteq> None" by (auto simp: mu_inv_def)
    then consider h where "s_pc s j = Writing h" | h ok where "s_pc s j = Written h ok"
      by (cases "s_pc s j") auto
    then show ?thesis
    proof cases
      case (1 h)
      show ?thesis
        by (rule answerable_step [OF own_call [OF write_ok [OF 1]] written [where j = j and h = h and ok = True]])
          (use 1 assms in auto)
    qed (use written assms in blast)
  qed
qed

lemma reading_answers:
  assumes "undrained (g_reader (s_gens s g))" and "i \<in> set (g_pending (s_gens s g))" and "mu_inv s"
  shows "answerable g i s"
proof -
  have inv: "mu_inv (set_reader g r t) = mu_inv t" "mu_inv (release g t) = mu_inv t" "mu_inv (send c d t) = mu_inv t" for r c d t
    by (simp_all add: mu_inv_def)
  have holding: "answerable g i t"
    if t: "g_reader (s_gens t g) = Holding c" "i \<in> set (g_pending (s_gens t g))" "mu_inv t" for t c
    by (rule answerable_step [OF own_reader [OF read_undecodable [OF t(1)]] clear_answers]) (use t inv in simp_all)
  show ?thesis
  proof (cases "g_reader (s_gens s g)")
    case Reading
    then show ?thesis
      by (intro answerable_step [OF own_reader [OF read_failed [OF Reading]] clear_answers]) (use assms inv in simp_all)
  next
    case (Got c)
    show ?thesis by (rule answerable_step [OF own_reader [OF read_release [OF Got]] holding]) (use assms inv in simp_all)
  qed (use assms holding clear_answers in auto)
qed

section \<open>Lines and calls\<close>

lemma line_answers_its_request:
  assumes "reachable s" and "s_result s i = Some (Response g k)"
    and "k < (case g_failed (s_gens s g) of None \<Rightarrow> length (g_wire (s_gens s g)) | Some n \<Rightarrow> n)"
  shows "k < length (g_wire (s_gens s g)) \<and> g_wire (s_gens s g) ! k = i"
proof -
  let ?x = "s_gens s g"
  note inv = pipe_reachable [OF assms(1), unfolded pipe_inv_def]
  have sound: "sound_line ?x k" using assms(3) by (auto simp: sound_line_def)
  have i: "g < s_next s" "g_order ?x ! k = i" using inv assms(2) sound by (auto simp: fifo_inv_def)
  then have wire: "wire_gen ?x (writer (s_mu s) (s_pc s) g)" using inv by (simp add: fifo_inv_def)
  show ?thesis
  proof (cases "g_failed ?x")
    case None
    with wire i(2) assms(3) show ?thesis by (simp add: wire_gen_def nth_append)
  next
    case (Some n)
    with wire assms(3) have "n \<le> length (g_wire ?x)" "take n (g_wire ?x) = take n (g_order ?x)" "k < n"
      by (simp_all add: wire_gen_def)
    with i(2) show ?thesis by (metis less_le_trans nth_take)
  qed
qed

section \<open>A closed connection stays closed\<close>

lemma closed_conn_step:
  assumes "shard_step s s'" and "s_closed s" "s_conn s = None" "\<forall>i. writes (s_pc s i) = None"
  shows "s_closed s' \<and> s_conn s' = None \<and> (\<forall>i. writes (s_pc s' i) = None) \<and> s_next s' = s_next s
    \<and> g_wire (s_gens s' g) = g_wire (s_gens s g)"
  using assms(1)
proof cases
  case (call i)
  from call show ?thesis
  proof cases
    case (abort h p q t)
    with abort_step_sel [OF abort(3)] assms(2-4) show ?thesis by (auto split: option.splits)
  qed (use assms(2-4) assms(4) [rule_format, of i] in \<open>auto split: if_splits\<close>)
next
  case (reader h)
  with reader_step_sel [OF reader(2)] assms(2-4) show ?thesis by auto
next
  case closing
  with assms(4) show ?thesis by simp
qed

lemma closed_conn_steps:
  assumes "shard_step\<^sup>*\<^sup>* s s'" and "s_closed s" "s_conn s = None" "\<forall>i. writes (s_pc s i) = None"
  shows "s_closed s' \<and> s_conn s' = None \<and> (\<forall>i. writes (s_pc s' i) = None) \<and> s_next s' = s_next s
    \<and> g_wire (s_gens s' g) = g_wire (s_gens s g)"
  using assms(1)
proof (induction rule: rtranclp_induct)
  case base
  with assms(2-4) show ?case by simp
next
  case (step t u)
  with closed_conn_step [of t u g] show ?case by simp
qed

section \<open>Examples\<close>

lemma reachable_call: "reachable s \<Longrightarrow> call_step i s s' \<Longrightarrow> reachable s'"
  by (meson reachable.step shard_step.call)

lemma reachable_reader: "reachable s \<Longrightarrow> reader_step g s s' \<Longrightarrow> g < s_next s \<Longrightarrow> reachable s'"
  by (meson reachable.step shard_step.reader)

lemma reachable_close: "reachable s \<Longrightarrow> s_mu s = None \<Longrightarrow> reachable (close_conn s)"
  by (meson reachable.step shard_step.closing)

text \<open>
  The first call of a shard dials; a call with a connection takes a token, goes on the queue and writes;
  the reader takes the oldest call for a line and gives it the line.
\<close>

definition connected :: "nat \<Rightarrow> shard_state \<Rightarrow> shard_state" where
  "connected i s = set_pc i (HasConn (s_next s)) (s\<lparr>s_dials := s_dials s + 1, s_dialing := None,
     s_conn := Some (s_next s), s_gens := (s_gens s)(s_next s := newGeneration), s_next := s_next s + 1\<rparr>)"

definition acquired :: "nat \<Rightarrow> nat \<Rightarrow> shard_state \<Rightarrow> shard_state" where
  "acquired i g s = set_pc i (HasToken g) (set_gen g (\<lambda>x. x\<lparr>g_sem := g_sem x - 1\<rparr>) s)"

definition put :: "nat \<Rightarrow> nat \<Rightarrow> shard_state \<Rightarrow> shard_state" where
  "put i g s = set_pc i (Writing g)
     (set_gen g (\<lambda>x. x\<lparr>g_pending := g_pending x @ [i], g_order := g_order x @ [i]\<rparr>) (s\<lparr>s_mu := Some i\<rparr>))"

definition written :: "nat \<Rightarrow> nat \<Rightarrow> shard_state \<Rightarrow> shard_state" where
  "written i g s = set_pc i (Sent g)
     ((set_pc i (Written g True) (set_gen g (\<lambda>x. x\<lparr>g_wire := g_wire x @ [i]\<rparr>) (put i g s)))\<lparr>s_mu := None\<rparr>)"

definition line_to :: "nat \<Rightarrow> nat \<Rightarrow> shard_state \<Rightarrow> shard_state" where
  "line_to g c s =
     (let t = set_reader g (Got c) (set_gen g (\<lambda>x. x\<lparr>g_read := g_read x + 1\<rparr>) (pop g s));
          u = set_reader g (Holding c) (release g t)
      in set_reader g Reading (send c (Response g (g_read (s_gens u g) - 1)) u))"

lemma reachable_connected:
  assumes "reachable s" and "s_pc s i = Start" and "s_mu s = None" and "\<not> s_closed s" and "s_conn s = None"
    and "s_dialing s = None"
  shows "reachable (connected i s)"
proof -
  let ?t = "set_pc i Dialing (s\<lparr>s_dialing := Some (s_dials s), s_dials := s_dials s + 1\<rparr>)"
  have "reachable ?t" using assms by (blast intro: reachable_call ensure_dial)
  moreover have "call_step i ?t (connected i s)"
    using dial_ok [of ?t i] assms by (simp add: connected_def set_pc_def)
  ultimately show ?thesis by (rule reachable_call)
qed

lemma reachable_acquired:
  assumes "reachable s" and "s_pc s i = HasConn g" and "0 < g_sem (s_gens s g)"
  shows "reachable (acquired i g s)"
  unfolding acquired_def using assms by (blast intro: reachable_call acquire)

lemma reachable_put:
  assumes "reachable s" and "s_pc s i = HasToken g" and "s_mu s = None" and "s_conn s = Some g"
  shows "reachable (put i g s)"
  unfolding put_def using assms by (blast intro: reachable_call enqueue)

lemma reachable_written:
  assumes "reachable s" and "s_pc s i = HasToken g" and "s_mu s = None" and "s_conn s = Some g"
  shows "reachable (written i g s)"
proof -
  let ?t = "set_pc i (Written g True) (set_gen g (\<lambda>x. x\<lparr>g_wire := g_wire x @ [i]\<rparr>) (put i g s))"
  have "reachable ?t" by (rule reachable_call [OF reachable_put [OF assms] write_ok]) (simp add: put_def)
  moreover have "call_step i ?t (written i g s)" using unlock [of ?t i g True] by (simp add: written_def)
  ultimately show ?thesis by (rule reachable_call)
qed

lemma reachable_line_to:
  assumes "reachable s" and "g < s_next s" and "g_reader (s_gens s g) = Reading" and "g_pending (s_gens s g) = c # cs"
  shows "reachable (line_to g c s)"
proof -
  let ?t = "set_reader g (Got c) (set_gen g (\<lambda>x. x\<lparr>g_read := g_read x + 1\<rparr>) (pop g s))"
  let ?u = "set_reader g (Holding c) (release g ?t)"
  have "reachable ?t" by (rule reachable_reader [OF assms(1) read_line [OF assms(3,4)] assms(2)])
  then have "reachable ?u" by (rule reachable_reader [OF _ read_release]) (use assms(2) in simp_all)
  then show ?thesis
    unfolding line_to_def Let_def by (rule reachable_reader [OF _ read_deliver]) (use assms(2) in simp_all)
qed

text \<open>One request on the wire, and two.\<close>

definition one_sent :: shard_state where
  "one_sent = written 0 0 (acquired 0 0 (connected 0 init_state))"

definition two_sent :: shard_state where
  "two_sent = written 1 0 (acquired 1 0 (set_pc 1 (HasConn 0) one_sent))"

lemma init_sel [simp]:
  "s_conn init_state = None" "\<not> s_closed init_state" "s_dialing init_state = None" "s_next init_state = 0"
  "s_pc init_state i = Start" "s_result init_state i = None" "s_gens init_state g = newGeneration" "s_mu init_state = None"
  by (simp_all add: init_state_def)

lemmas example_defs = written_def put_def acquired_def connected_def newGeneration_def maxInFlight_def

lemma one_sent_sel:
  "s_conn one_sent = Some 0" "\<not> s_closed one_sent" "s_next one_sent = 1" "s_result one_sent i = None" "s_mu one_sent = None"
  "s_pc one_sent i = (if i = 0 then Sent 0 else Start)"
  "s_gens one_sent 0 = \<lparr>g_pending = [0], g_sem = 255, g_order = [0], g_wire = [0], g_read = 0, g_failed = None, g_reader = Reading\<rparr>"
  by (simp_all add: one_sent_def example_defs)

lemma two_sent_sel:
  "s_conn two_sent = Some 0" "\<not> s_closed two_sent" "s_next two_sent = 1" "s_result two_sent i = None" "s_mu two_sent = None"
  "s_pc two_sent i = (if i = 0 \<or> i = 1 then Sent 0 else Start)"
  "s_gens two_sent 0 = \<lparr>g_pending = [0, 1], g_sem = 254, g_order = [0, 1], g_wire = [0, 1], g_read = 0, g_failed = None, g_reader = Reading\<rparr>"
  by (simp_all add: two_sent_def example_defs one_sent_sel)

lemma reachable_one_sent: "reachable one_sent"
  unfolding one_sent_def
  by (intro reachable_written reachable_acquired reachable_connected reachable.init)
    (simp_all add: acquired_def connected_def)

lemma reachable_two_sent: "reachable two_sent"
proof -
  have "reachable (set_pc 1 (HasConn 0) one_sent)"
    by (rule reachable_call [OF reachable_one_sent ensure_conn]) (simp_all add: one_sent_sel)
  then show ?thesis
    unfolding two_sent_def
    by (intro reachable_written reachable_acquired) (simp_all add: acquired_def one_sent_sel)
qed

text \<open>The reader hands the first line to the first call.\<close>

definition one_answered :: shard_state where
  "one_answered = line_to 0 0 one_sent"

lemma reachable_one_answered: "reachable one_answered"
  unfolding one_answered_def
  by (rule reachable_line_to [OF reachable_one_sent]) (simp_all add: one_sent_sel)

lemma one_answered_sel:
  "s_result one_answered 0 = Some (Response 0 0)" "g_wire (s_gens one_answered 0) = [0]"
  "g_failed (s_gens one_answered 0) = None"
  by (simp_all add: one_answered_def line_to_def Let_def one_sent_sel)

text \<open>A third call's write fails; it takes the connection down and drains one call of the queue.\<close>

definition failed_write :: shard_state where
  "failed_write = set_pc 2 (Abort 0 Clear)
     ((set_pc 2 (Written 0 False) (set_gen 0 note_failure (put 2 0 (acquired 2 0 (set_pc 2 (HasConn 0) two_sent)))))\<lparr>s_mu := None\<rparr>)"

definition half_drained :: shard_state where
  "half_drained =
     (let t = set_pc 2 (Abort 0 Drain) (clear_conn 0 failed_write);
          t = set_pc 2 (Abort 0 (Popped 0)) (pop 0 t);
          t = set_pc 2 (Abort 0 (Released 0)) (release 0 t)
      in set_pc 2 (Abort 0 Drain) (send 0 Failed t))"

definition misdelivered :: shard_state where
  "misdelivered = line_to 0 1 half_drained"

lemma reachable_abort:
  assumes "reachable s" "s_pc s i = Abort g p" "abort_step g p s (Some p') t"
  shows "reachable (set_pc i (Abort g p') t)"
  using reachable_call [OF assms(1) call_step.abort [OF assms(2,3)]] by simp

lemma reachable_failed_write: "reachable failed_write"
proof -
  let ?s = "put 2 0 (acquired 2 0 (set_pc 2 (HasConn 0) two_sent))"
  let ?t = "set_pc 2 (Written 0 False) (set_gen 0 note_failure ?s)"
  have "reachable (set_pc 2 (HasConn 0) two_sent)"
    by (rule reachable_call [OF reachable_two_sent ensure_conn]) (simp_all add: two_sent_sel)
  then have "reachable ?s"
    by (intro reachable_put reachable_acquired) (simp_all add: acquired_def two_sent_sel)
  then have "reachable ?t" by (rule reachable_call [OF _ write_failed]) (simp add: put_def)
  moreover have "call_step 2 ?t failed_write" using unlock [of ?t 2 0 False] by (simp add: failed_write_def)
  ultimately show ?thesis by (rule reachable_call)
qed

lemma failed_write_sel:
  "s_pc failed_write 2 = Abort 0 Clear" "s_mu failed_write = None" "s_next failed_write = 1"
  "s_gens failed_write 0 = \<lparr>g_pending = [0, 1, 2], g_sem = 253, g_order = [0, 1, 2], g_wire = [0, 1], g_read = 0,
     g_failed = Some 0, g_reader = Reading\<rparr>"
  by (simp_all add: failed_write_def put_def acquired_def two_sent_sel note_failure_def)

lemma half_drained_sel:
  "s_next half_drained = 1" "s_result half_drained 0 = Some Failed"
  "s_gens half_drained 0 = \<lparr>g_pending = [1, 2], g_sem = 254, g_order = [0, 1, 2], g_wire = [0, 1], g_read = 0,
     g_failed = Some 0, g_reader = Reading\<rparr>"
  by (simp_all add: half_drained_def Let_def failed_write_sel)

lemma reachable_half_drained: "reachable half_drained"
  unfolding half_drained_def Let_def
  by (rule reachable_abort [OF _ _ abort_send], rule reachable_abort [OF _ _ abort_release],
      rule reachable_abort [OF _ _ abort_pop [of _ _ _ "[1, 2]"]],
      rule reachable_abort [OF reachable_failed_write failed_write_sel(1) abort_clear])
    (simp_all add: failed_write_sel)

lemma reachable_misdelivered: "reachable misdelivered"
  unfolding misdelivered_def
  by (rule reachable_line_to [OF reachable_half_drained]) (simp_all add: half_drained_sel)

section \<open>Properties\<close>

text \<open>
  C11 (safety). Responses are matched to calls by order alone, and that is enough until a write on the
  connection fails. In every reachable state of any number of concurrent calls, reconnects,
  cancellations and closes, take a call that was given the k-th line read from a connection, a line
  that answers one of the requests written (the connection has had more than k of them) and, should a
  write on it have failed since, was read before that: the call's request was the k-th written. (What
  happens to lines read after a failed write is the last property of this theory.)
\<close>

theorem responses_in_order:
  assumes "reachable s" and "s_result s i = Some (Response g k)"
    and "k < (case g_failed (s_gens s g) of None \<Rightarrow> length (g_wire (s_gens s g)) | Some n \<Rightarrow> n)"
  shows "k < length (g_wire (s_gens s g)) \<and> g_wire (s_gens s g) ! k = i"
  using assms by (rule line_answers_its_request)

theorem responses_in_order_witness:
  "reachable one_answered \<and> s_result one_answered 0 = Some (Response 0 0)
    \<and> 0 < length (g_wire (s_gens one_answered 0)) \<and> g_wire (s_gens one_answered 0) ! 0 = 0"
  using responses_in_order [OF reachable_one_answered one_answered_sel(1)] reachable_one_answered
  by (simp add: one_answered_sel)

text \<open>
  C17 (bounds). No more than 256 calls are in flight on a connection, and nothing that must not block
  can: the queue has room for every call that holds a token, the semaphore has room for every token
  to be given back - by a call that retries, or with a call that its reader or a draining call has
  taken off the queue -, and the one-slot result channel of a call on the queue or in such hands is empty.
\<close>

theorem in_flight_bounded:
  assumes "reachable s" and "g < s_next s"
  shows "length (g_pending (s_gens s g)) \<le> 256
    \<and> (s_pc s i = HasToken g \<longrightarrow> length (g_pending (s_gens s g)) < 256)
    \<and> (s_pc s i = Retry g \<or> s_pc s i = Abort g (Popped c) \<longrightarrow> g_sem (s_gens s g) < 256)
    \<and> (g_reader (s_gens s g) = Got c \<or> g_reader (s_gens s g) = RAbort (Popped c) \<longrightarrow> g_sem (s_gens s g) < 256)
    \<and> (c \<in> set (g_pending (s_gens s g)) \<or> reader_hand (g_reader (s_gens s g)) = Some c
        \<or> call_hand (s_pc s i) = Some c \<longrightarrow> s_result s c = None)"
proof -
  note inv = pipe_reachable [OF assms(1), unfolded pipe_inv_def]
  have sum: "g_sem (s_gens s g) + card (holders (s_pc s) g) + reader_token (g_reader (s_gens s g))
      + length (g_pending (s_gens s g)) = 256"
    using inv assms(2) by (simp add: sem_inv_def maxInFlight_def)
  have token: "token (s_pc s i) = Some g \<Longrightarrow> 0 < card (holders (s_pc s) g)"
    using inv finite_holders [of s g] by (metis card_gt_0_iff empty_iff mem_holders)
  have "s_pc s i = HasToken g \<Longrightarrow> length (g_pending (s_gens s g)) < 256" using token sum by simp
  moreover have "s_pc s i = Retry g \<or> s_pc s i = Abort g (Popped c) \<Longrightarrow> g_sem (s_gens s g) < 256" using token sum by auto
  moreover have "g_reader (s_gens s g) = Got c \<or> g_reader (s_gens s g) = RAbort (Popped c) \<Longrightarrow> g_sem (s_gens s g) < 256"
    using sum by auto
  moreover have "s_result s c = None" if c: "c \<in> set (g_pending (s_gens s g))
      \<or> reader_hand (g_reader (s_gens s g)) = Some c \<or> call_hand (s_pc s i) = Some c"
  proof -
    let ?h = "hand (s_next s) (s_gens s) (s_pc s)"
    have "c \<in> set (pend (s_gens s) g) \<or> ?h (Inl g) = Some c \<or> ?h (Inr i) = Some c"
      using c assms(2) by (simp add: pend_def)
    with inv assms(2) show ?thesis unfolding queue_inv_def queues_ok_def by blast
  qed
  ultimately show ?thesis using sum by linarith
qed

theorem in_flight_bounded_witness:
  "reachable one_sent \<and> 0 < s_next one_sent \<and> length (g_pending (s_gens one_sent 0)) \<le> 256"
  using in_flight_bounded [OF reachable_one_sent, of 0] reachable_one_sent by (simp add: one_sent_sel)



text \<open>
  C26 (safety). At any moment at most one call is dialling, there is no connection while it does, and
  \<open>close\<close> is final: once closed, whatever the calls in flight, a dial in progress included, go on to
  do, no connection is installed and no request is written again.
\<close>

theorem single_dial_and_final_close:
  assumes "reachable s"
  shows "(\<forall>i j. s_pc s i = Dialing \<and> s_pc s j = Dialing \<longrightarrow> i = j \<and> s_conn s = None)
    \<and> (s_closed s \<and> shard_step\<^sup>*\<^sup>* s s' \<longrightarrow>
        s_conn s' = None \<and> s_next s' = s_next s \<and> g_wire (s_gens s' g) = g_wire (s_gens s g))"
proof -
  note inv = pipe_reachable [OF assms, unfolded pipe_inv_def]
  have "i = j \<and> s_conn s = None" if "s_pc s i = Dialing" "s_pc s j = Dialing" for i j
  proof -
    have "i \<in> dialers (s_pc s)" "j \<in> dialers (s_pc s)" using that by simp_all
    moreover have "dial_inv s" using inv by simp
    ultimately show ?thesis by (auto simp: dial_inv_def simp del: mem_dialers split: option.splits)
  qed
  moreover have "s_closed s \<Longrightarrow> s_conn s = None" using inv by (simp add: refs_inv_def)
  moreover have "s_conn s = None \<Longrightarrow> \<forall>i. writes (s_pc s i) = None"
    using inv unfolding mu_inv_def by (metis not_Some_eq)
  ultimately show ?thesis using closed_conn_steps [of s s' g] by blast
qed

theorem single_dial_and_final_close_witness:
  "reachable (close_conn two_sent) \<and> s_conn (close_conn two_sent) = None
    \<and> s_next (close_conn two_sent) = 1"
proof -
  have r: "reachable (close_conn two_sent)" by (rule reachable_close [OF reachable_two_sent]) (simp add: two_sent_sel)
  have "s_closed (close_conn two_sent) \<and> shard_step\<^sup>*\<^sup>* (close_conn two_sent) (close_conn two_sent)" by simp
  with single_dial_and_final_close [OF r] have "s_conn (close_conn two_sent) = None" by blast
  then show ?thesis by (simp add: r two_sent_sel)
qed

text \<open>
  C32 (error). A failing write can break the order: while its caller drains the queue, the reader may
  still have a line of the same connection to hand out, and gives it to the wrong call. Here the
  response to the request of call 0, the first on the wire, is delivered to call 1.
\<close>

theorem failed_write_misdelivers:
  "reachable misdelivered \<and> g_wire (s_gens misdelivered 0) = [0, 1]
    \<and> s_result misdelivered 1 = Some (Response 0 0) \<and> s_result misdelivered 0 = Some Failed"
  using reachable_misdelivered by (simp add: misdelivered_def line_to_def Let_def half_drained_sel)

end
