(* ===== verification/BreakerSteps.thy ===== *)
theory BreakerSteps
  imports Breaker
begin

text \<open>
  The circuit breaker of \<open>client/breaker.go\<close> under concurrency: \<open>allow\<close>, \<open>recordSuccess\<close> and
  \<open>recordFailure\<close> one atomic operation at a time, for any number of calls. The clock each step reads is
  open. The lemmas show that an operation nobody interferes with does what \<open>Breaker\<close> says in one piece,
  what holds under every interleaving, and what does not.
\<close>

section \<open>The steps\<close>

datatype outcome = GaveUp | Succeeded | FailedTrial | FailedCounted | FailedUnseen

text \<open>
  Where a call is: about to load \<open>open\<close>; about to compare the cooldown; about to swap \<open>trialInFlight\<close>;
  refused; let through (as the trial or not); in \<open>recordSuccess\<close>, past the store of the count
  (\<open>SSwap\<close>) and past the swap (\<open>SClear\<close>); in \<open>recordFailure\<close>, with the trial seen (\<open>FStamp\<close>,
  \<open>FRelease\<close>) or not (\<open>FAdd\<close>, and \<open>FOpenedAt\<close>, \<open>FOpen\<close> at the threshold); done.
\<close>

datatype breaker_pc =
    BStart | BCheck | BSwap | BRefused | BLetThrough bool
  | SSwap | SClear | FStamp | FRelease | FAdd | FOpenedAt | FOpen | BDone outcome

inductive atomic_step :: "int64 \<Rightarrow> breaker_pc \<Rightarrow> circuit_breaker \<Rightarrow> breaker_pc \<Rightarrow> circuit_breaker \<Rightarrow> bool" for now where
  load_closed: "failureThreshold b <=s 0 \<or> \<not> cb_open b \<Longrightarrow> atomic_step now BStart b (BLetThrough False) b"
| load_open: "\<not> failureThreshold b <=s 0 \<Longrightarrow> cb_open b \<Longrightarrow> atomic_step now BStart b BCheck b"
| cooling: "time_since (openedAtNano b) now <s openDuration b \<Longrightarrow> atomic_step now BCheck b BRefused b"
| cooled: "\<not> time_since (openedAtNano b) now <s openDuration b \<Longrightarrow> atomic_step now BCheck b BSwap b"
| becomes_trial: "\<not> trialInFlight b \<Longrightarrow> atomic_step now BSwap b (BLetThrough True) (b\<lparr>trialInFlight := True\<rparr>)"
| trial_taken: "trialInFlight b \<Longrightarrow> atomic_step now BSwap b BRefused b"
| gives_up: "atomic_step now (BLetThrough t) b (BDone GaveUp) b"
| succeeds: "atomic_step now (BLetThrough t) b SSwap (b\<lparr>consecutiveFailures := 0\<rparr>)"
| swap_open: "cb_open b \<Longrightarrow> atomic_step now SSwap b SClear (b\<lparr>cb_open := False\<rparr>)"
| swap_closed: "\<not> cb_open b \<Longrightarrow> atomic_step now SSwap b (BDone Succeeded) b"
| clear_trial: "atomic_step now SClear b (BDone Succeeded) (b\<lparr>trialInFlight := False\<rparr>)"
| fails_disabled: "failureThreshold b <=s 0 \<Longrightarrow> atomic_step now (BLetThrough t) b (BDone FailedUnseen) b"
| fails_in_trial: "\<not> failureThreshold b <=s 0 \<Longrightarrow> trialInFlight b \<Longrightarrow> atomic_step now (BLetThrough t) b FStamp b"
| fails: "\<not> failureThreshold b <=s 0 \<Longrightarrow> \<not> trialInFlight b \<Longrightarrow> atomic_step now (BLetThrough t) b FAdd b"
| stamps: "atomic_step now FStamp b FRelease (b\<lparr>openedAtNano := now\<rparr>)"
| releases: "atomic_step now FRelease b (BDone FailedTrial) (b\<lparr>trialInFlight := False\<rparr>)"
| counts: "consecutiveFailures b + 1 = c \<Longrightarrow>
     atomic_step now FAdd b (if failureThreshold b <=s c then FOpenedAt else BDone FailedCounted)
       (b\<lparr>consecutiveFailures := c\<rparr>)"
| stamps_open: "atomic_step now FOpenedAt b FOpen (b\<lparr>openedAtNano := now\<rparr>)"
| opens: "atomic_step now FOpen b (BDone FailedCounted) (b\<lparr>cb_open := True\<rparr>)"

inductive_cases atomic_stepE: "atomic_step now p b p' b'"

text \<open>Any number of calls, one of which moves.\<close>

type_synonym breaker_sys = "circuit_breaker \<times> (nat \<Rightarrow> breaker_pc)"

inductive breaker_moves :: "breaker_sys \<Rightarrow> breaker_sys \<Rightarrow> bool" where
  moves: "atomic_step now (pc i) b p b' \<Longrightarrow> breaker_moves (b, pc) (b', pc(i := p))"

section \<open>An operation alone\<close>

text \<open>The steps of one call with nobody in between.\<close>

inductive alone :: "int64 \<Rightarrow> breaker_pc \<Rightarrow> circuit_breaker \<Rightarrow> breaker_pc \<Rightarrow> circuit_breaker \<Rightarrow> bool" for now where
  alone_refl: "alone now p b p b"
| alone_step: "atomic_step now p b p' b' \<Longrightarrow> alone now p' b' p'' b'' \<Longrightarrow> alone now p b p'' b''"

lemma alone1: "atomic_step now p b p' b' \<Longrightarrow> alone now p b p' b'"
  by (rule alone_step [OF _ alone_refl])

lemma allow_alone:
  "alone now BStart b (if fst (allow now b) then BLetThrough (trialInFlight (snd (allow now b)) \<and> \<not> trialInFlight b)
     else BRefused) (snd (allow now b))"
proof -
  consider "failureThreshold b <=s 0 \<or> \<not> cb_open b"
    | "\<not> failureThreshold b <=s 0" "cb_open b" "time_since (openedAtNano b) now <s openDuration b"
    | "\<not> failureThreshold b <=s 0" "cb_open b" "\<not> time_since (openedAtNano b) now <s openDuration b" "trialInFlight b"
    | "\<not> failureThreshold b <=s 0" "cb_open b" "\<not> time_since (openedAtNano b) now <s openDuration b" "\<not> trialInFlight b"
    by blast
  then show ?thesis
  proof cases
    case 1
    then show ?thesis using load_closed [of b now] by (auto simp: allow_def intro: alone1)
  next
    case 2
    then show ?thesis by (simp add: allow_def alone_step [OF load_open alone1 [OF cooling]])
  next
    case 3
    then show ?thesis
      by (simp add: allow_def alone_step [OF load_open alone_step [OF cooled alone1 [OF trial_taken]]])
  next
    case 4
    then show ?thesis
      by (simp add: allow_def alone_step [OF load_open alone_step [OF cooled alone1 [OF becomes_trial]]])
  qed
qed

lemma recordSuccess_alone: "alone now (BLetThrough t) b (BDone Succeeded) (recordSuccess b)"
proof (cases "cb_open b")
  case True
  let ?b = "b\<lparr>consecutiveFailures := 0\<rparr>"
  have "alone now (BLetThrough t) b (BDone Succeeded) (?b\<lparr>cb_open := False, trialInFlight := False\<rparr>)"
    by (rule alone_step [OF succeeds alone_step [OF swap_open alone1 [OF clear_trial]]]) (simp add: True)
  with True show ?thesis by (simp add: recordSuccess_def Let_def)
next
  case False
  then show ?thesis
    by (simp add: recordSuccess_def Let_def alone_step [OF succeeds alone1 [OF swap_closed]])
qed

lemma recordFailure_alone: "\<exists>r. alone now (BLetThrough t) b (BDone r) (recordFailure now b)"
proof -
  let ?c = "consecutiveFailures b + 1"
  consider "failureThreshold b <=s 0" | "\<not> failureThreshold b <=s 0" "trialInFlight b"
    | "\<not> failureThreshold b <=s 0" "\<not> trialInFlight b" "failureThreshold b <=s ?c"
    | "\<not> failureThreshold b <=s 0" "\<not> trialInFlight b" "\<not> failureThreshold b <=s ?c"
    by blast
  then show ?thesis
  proof cases
    case 1
    then show ?thesis by (auto simp: recordFailure_def intro: alone1 fails_disabled)
  next
    case 2
    have "alone now (BLetThrough t) b (BDone FailedTrial) (b\<lparr>openedAtNano := now, trialInFlight := False\<rparr>)"
      by (rule alone_step [OF fails_in_trial alone_step [OF stamps alone1 [OF releases]]]) (simp_all add: 2)
    with 2 show ?thesis by (auto simp: recordFailure_def)
  next
    case 3
    have "atomic_step now FAdd b FOpenedAt (b\<lparr>consecutiveFailures := ?c\<rparr>)" using counts [OF refl, of now b] 3 by simp
    then have "alone now (BLetThrough t) b (BDone FailedCounted) (b\<lparr>consecutiveFailures := ?c, openedAtNano := now, cb_open := True\<rparr>)"
      using 3 by (auto intro!: alone_step [OF fails] alone_step [OF stamps_open] alone1 [OF opens] intro: alone_step)
    with 3 show ?thesis by (auto simp: recordFailure_def Let_def)
  next
    case 4
    have "atomic_step now FAdd b (BDone FailedCounted) (b\<lparr>consecutiveFailures := ?c\<rparr>)" using counts [OF refl, of now b] 4 by simp
    then have "alone now (BLetThrough t) b (BDone FailedCounted) (b\<lparr>consecutiveFailures := ?c\<rparr>)"
      using 4 by (auto intro: alone_step [OF fails] alone1)
    with 4 show ?thesis by (auto simp: recordFailure_def Let_def)
  qed
qed

section \<open>Every interleaving\<close>

text \<open>The calls whose failure was counted.\<close>

definition counted :: "(nat \<Rightarrow> breaker_pc) \<Rightarrow> nat set" where
  "counted pc = {i. pc i \<in> {FOpenedAt, FOpen, BDone FailedCounted}}"

lemma counted_upd:
  "p \<in> {FOpenedAt, FOpen, BDone FailedCounted} \<Longrightarrow> counted (pc(i := p)) = insert i (counted pc)"
  "p \<notin> {FOpenedAt, FOpen, BDone FailedCounted} \<Longrightarrow> counted (pc(i := p)) = counted pc - {i}"
  by (auto simp: counted_def)

lemma mem_counted: "i \<in> counted pc \<longleftrightarrow> pc i \<in> {FOpenedAt, FOpen, BDone FailedCounted}"
  by (simp add: counted_def)

definition enough :: "circuit_breaker \<Rightarrow> (nat \<Rightarrow> breaker_pc) \<Rightarrow> bool" where
  "enough b pc \<longleftrightarrow> sint (failureThreshold b) \<le> int (card (counted pc))"

definition race_inv :: "breaker_sys \<Rightarrow> bool" where
  "race_inv = (\<lambda>(b, pc). finite (counted pc) \<and> sint (consecutiveFailures b) \<le> int (card (counted pc))
     \<and> (cb_open b \<longrightarrow> enough b pc)
     \<and> (\<forall>i. pc i \<in> {BCheck, BSwap, BRefused, FAdd, FOpenedAt, FOpen} \<longrightarrow> 0 < sint (failureThreshold b))
     \<and> (\<forall>i. pc i \<in> {BCheck, BSwap, BRefused, FOpenedAt, FOpen} \<longrightarrow> enough b pc))"

lemma sint_incr_le: "sint (c + 1 :: int64) \<le> sint c + 1"
proof (cases "sint c < 2 ^ 63 - 1")
  case True
  then show ?thesis by (simp add: sint_incr)
next
  case False
  then show ?thesis using sint_bounds [of "c + 1"] by simp
qed

lemma counted_grows:
  assumes "atomic_step now (pc i) b p b'"
  shows "counted pc \<subseteq> counted (pc(i := p))"
proof
  fix j assume "j \<in> counted pc"
  with assms show "j \<in> counted (pc(i := p))"
    by (cases "j = i") (auto simp: mem_counted elim: atomic_stepE)
qed

lemma finite_counted: "finite (counted pc) \<Longrightarrow> finite (counted (pc(i := p)))"
  by (rule finite_subset [of _ "insert i (counted pc)"]) (auto simp: counted_def)

lemma race_step:
  assumes "breaker_moves s s'" "race_inv s"
  shows "race_inv s'"
  using assms(1)
proof cases
  case (moves now pc i b p b')
  let ?pc = "pc(i := p)" and ?n = "int (card (counted pc))" and ?n' = "int (card (counted (pc(i := p))))"
  have fin: "finite (counted pc)" and le: "sint (consecutiveFailures b) \<le> ?n"
    and op: "cb_open b \<Longrightarrow> enough b pc"
    and pos: "\<And>j. pc j \<in> {BCheck, BSwap, BRefused, FAdd, FOpenedAt, FOpen} \<Longrightarrow> 0 < sint (failureThreshold b)"
    and en: "\<And>j. pc j \<in> {BCheck, BSwap, BRefused, FOpenedAt, FOpen} \<Longrightarrow> enough b pc"
    using assms(2) moves(1) by (auto simp: race_inv_def)
  note fin' = finite_counted [OF fin, of i p]
  have grow: "?n \<le> ?n'" using card_mono [OF fin' counted_grows [of now pc i, OF moves(3)]] by simp
  have thr: "failureThreshold b' = failureThreshold b" using moves(3) by (auto elim: atomic_stepE)
  have keep: "enough b pc \<Longrightarrow> enough b' ?pc" using grow thr by (simp add: enough_def)
  have add: "pc i = FAdd \<Longrightarrow> ?n' = ?n + 1 \<and> sint (consecutiveFailures b') \<le> ?n + 1
      \<and> (p = FOpenedAt \<longrightarrow> sint (failureThreshold b) \<le> sint (consecutiveFailures b'))"
    using moves(3) le fin sint_incr_le [of "consecutiveFailures b"]
    by (auto simp: counted_upd mem_counted int64_simps elim!: atomic_stepE split: if_splits)
  have le': "sint (consecutiveFailures b') \<le> ?n'"
  proof (cases "pc i = FAdd")
    case False
    then have "consecutiveFailures b' = consecutiveFailures b \<or> consecutiveFailures b' = 0"
      using moves(3) by (auto elim: atomic_stepE)
    with le grow show ?thesis by auto
  qed (use add in simp)
  have op': "cb_open b' \<Longrightarrow> enough b' ?pc"
    using moves(3) op en [of i] keep by (auto elim!: atomic_stepE)
  have pos_i: "p \<in> {BCheck, BSwap, BRefused, FAdd, FOpenedAt, FOpen} \<Longrightarrow> 0 < sint (failureThreshold b)"
    using moves(3) pos [of i] by (auto simp: int64_simps elim!: atomic_stepE split: if_splits)
  have en_i: "enough b' ?pc" if p: "p \<in> {BCheck, BSwap, BRefused, FOpenedAt, FOpen}"
  proof (cases "pc i = FAdd")
    case True
    with p have "p = FOpenedAt" using moves(3) by (auto elim!: atomic_stepE split: if_splits)
    with add [OF True] le' thr show ?thesis by (simp add: enough_def)
  next
    case False
    with p have "pc i \<in> {BCheck, BSwap, BRefused, FOpenedAt, FOpen} \<or> cb_open b"
      using moves(3) by (auto elim!: atomic_stepE)
    with en [of i] op keep show ?thesis by blast
  qed
  have pos': "?pc j \<in> {BCheck, BSwap, BRefused, FAdd, FOpenedAt, FOpen} \<Longrightarrow> 0 < sint (failureThreshold b')" for j
    using pos [of j] pos_i thr by (cases "j = i") simp_all
  have en': "?pc j \<in> {BCheck, BSwap, BRefused, FOpenedAt, FOpen} \<Longrightarrow> enough b' ?pc" for j
    using en [of j] keep en_i by (cases "j = i") simp_all
  show ?thesis
    unfolding moves(2) race_inv_def prod.case using fin' le' op' pos' en' by blast
qed

definition start_sys :: "int64 \<Rightarrow> int64 \<Rightarrow> breaker_sys" where
  "start_sys threshold duration = (newCircuitBreaker threshold duration, \<lambda>_. BStart)"

lemma race_start: "race_inv (start_sys threshold duration)"
  by (simp add: race_inv_def start_sys_def newCircuitBreaker_def counted_def)

lemma race_reachable: "breaker_moves\<^sup>*\<^sup>* (start_sys threshold duration) s \<Longrightarrow> race_inv s"
  by (induction rule: rtranclp_induct) (auto simp: race_start race_step)

lemma threshold_kept: "breaker_moves\<^sup>*\<^sup>* s s' \<Longrightarrow> failureThreshold (fst s') = failureThreshold (fst s)"
  by (induction rule: rtranclp_induct) (auto elim!: breaker_moves.cases atomic_stepE)

section \<open>Runs\<close>

text \<open>
  A run written out: which call moves to where and what that leaves in the breaker, over the first
  calls' positions as a list.
\<close>

inductive_simps steps_from:
  "atomic_step now BStart b p b'" "atomic_step now BCheck b p b'" "atomic_step now BSwap b p b'"
  "atomic_step now (BLetThrough t) b p b'" "atomic_step now SSwap b p b'" "atomic_step now SClear b p b'"
  "atomic_step now FAdd b p b'" "atomic_step now FOpenedAt b p b'" "atomic_step now FOpen b p b'"
  "atomic_step now FStamp b p b'" "atomic_step now FRelease b p b'"

fun run_ok :: "circuit_breaker \<Rightarrow> breaker_pc list \<Rightarrow> (nat \<times> int64 \<times> breaker_pc \<times> circuit_breaker) list
    \<Rightarrow> circuit_breaker \<Rightarrow> breaker_pc list \<Rightarrow> bool" where
  "run_ok b ps [] b' ps' \<longleftrightarrow> b' = b \<and> ps' = ps"
| "run_ok b ps ((i, now, p, b1) # xs) b' ps' \<longleftrightarrow>
     i < length ps \<and> atomic_step now (ps ! i) b p b1 \<and> run_ok b1 (ps[i := p]) xs b' ps'"

definition positions :: "breaker_pc list \<Rightarrow> nat \<Rightarrow> breaker_pc" where
  "positions ps i = (if i < length ps then ps ! i else BStart)"

lemma run_reachable: "run_ok b ps xs b' ps' \<Longrightarrow> breaker_moves\<^sup>*\<^sup>* (b, positions ps) (b', positions ps')"
proof (induction b ps xs b' ps' rule: run_ok.induct)
  case (2 b ps i now p b1 xs b' ps')
  then have i: "i < length ps" "atomic_step now (positions ps i) b p b1" by (simp_all add: positions_def)
  have "positions (ps[i := p]) = (positions ps)(i := p)" using i(1) by (auto simp: positions_def)
  with i(2) have "breaker_moves (b, positions ps) (b1, positions (ps[i := p]))"
    using moves [of now "positions ps" i b p b1] by simp
  with 2 show ?case by (auto intro: converse_rtranclp_into_rtranclp)
qed simp

lemma positions_start: "positions (replicate n BStart) = (\<lambda>_. BStart)"
  by (auto simp: positions_def)

text \<open>A breaker with threshold 1 and a cooldown of 1000, in a given state.\<close>

abbreviation brk :: "bool \<Rightarrow> int64 \<Rightarrow> int64 \<Rightarrow> bool \<Rightarrow> circuit_breaker" where
  "brk open fails at trial \<equiv> \<lparr>failureThreshold = 1, openDuration = 1000, cb_open = open,
     consecutiveFailures = fails, openedAtNano = at, trialInFlight = trial\<rparr>"

lemma run_from_start:
  assumes "run_ok (brk False 0 0 False) (replicate 4 BStart) xs b ps"
  shows "breaker_moves\<^sup>*\<^sup>* (start_sys 1 1000) (b, positions ps)"
  using run_reachable [OF assms] unfolding positions_start start_sys_def newCircuitBreaker_def .

text \<open>
  Three calls are let through; the first fails and opens the breaker; after the cooldown a fourth is
  about to swap \<open>trialInFlight\<close>; the second succeeds and closes the breaker; the third fails and is
  about to set \<open>open\<close>; the fourth swaps, succeeds, and finds the breaker closed; the third sets
  \<open>open\<close>.
\<close>

definition lost_trial_run :: "(nat \<times> int64 \<times> breaker_pc \<times> circuit_breaker) list" where
  "lost_trial_run =
    [(0, 0, BLetThrough False, brk False 0 0 False), (1, 0, BLetThrough False, brk False 0 0 False),
     (2, 0, BLetThrough False, brk False 0 0 False),
     (0, 0, FAdd, brk False 0 0 False), (0, 0, FOpenedAt, brk False 1 0 False), (0, 0, FOpen, brk False 1 0 False),
     (0, 0, BDone FailedCounted, brk True 1 0 False),
     (3, 5000, BCheck, brk True 1 0 False), (3, 5000, BSwap, brk True 1 0 False),
     (1, 0, SSwap, brk True 0 0 False), (1, 0, SClear, brk False 0 0 False), (1, 0, BDone Succeeded, brk False 0 0 False),
     (2, 0, FAdd, brk False 0 0 False), (2, 0, FOpenedAt, brk False 1 0 False), (2, 6000, FOpen, brk False 1 6000 False),
     (3, 0, BLetThrough True, brk False 1 6000 True), (3, 0, SSwap, brk False 0 6000 True),
     (3, 0, BDone Succeeded, brk False 0 6000 True),
     (2, 0, BDone FailedCounted, brk True 0 6000 True)]"

lemma lost_trial_run_ok:
  "run_ok (brk False 0 0 False) (replicate 4 BStart) lost_trial_run (brk True 0 6000 True)
     [BDone FailedCounted, BDone Succeeded, BDone FailedCounted, BDone Succeeded]"
  by (simp add: lost_trial_run_def steps_from time_since_def int64_simps numeral_eq_Suc)

text \<open>
  Two calls are let through and the first opens the breaker; a third becomes the trial; the second
  fails late and, taken for the trial, releases it; a fourth becomes the trial.
\<close>

definition two_trials_run :: "(nat \<times> int64 \<times> breaker_pc \<times> circuit_breaker) list" where
  "two_trials_run =
    [(0, 0, BLetThrough False, brk False 0 0 False), (1, 0, BLetThrough False, brk False 0 0 False),
     (0, 0, FAdd, brk False 0 0 False), (0, 0, FOpenedAt, brk False 1 0 False), (0, 0, FOpen, brk False 1 0 False),
     (0, 0, BDone FailedCounted, brk True 1 0 False),
     (2, 5000, BCheck, brk True 1 0 False), (2, 5000, BSwap, brk True 1 0 False),
     (2, 5000, BLetThrough True, brk True 1 0 True),
     (1, 6000, FStamp, brk True 1 0 True), (1, 6000, FRelease, brk True 1 6000 True),
     (1, 6000, BDone FailedTrial, brk True 1 6000 False),
     (3, 8000, BCheck, brk True 1 6000 False), (3, 8000, BSwap, brk True 1 6000 False),
     (3, 8000, BLetThrough True, brk True 1 6000 True)]"

lemma two_trials_run_ok:
  "run_ok (brk False 0 0 False) (replicate 4 BStart) two_trials_run (brk True 1 6000 True)
     [BDone FailedCounted, BDone FailedTrial, BLetThrough True, BLetThrough True]"
  by (simp add: two_trials_run_def steps_from time_since_def int64_simps numeral_eq_Suc)

section \<open>Properties\<close>

text \<open>
  C15 (refinement). An operation of the breaker, run atomic step by atomic step with no other call in
  between, does what the three-state machine of its documentation does: a closed breaker lets
  everything through; an open one nothing before its cooldown has passed, then one trial; a success
  closes, a failure in the open state reopens, one in the closed state counts and opens at the
  threshold. (For an enabled breaker, a clock past 1970 and fewer than \<open>2^63 - 1\<close> failures in a row.)
\<close>

theorem breaker_refines_machine:
  assumes "breaker_inv b" "0 < sint (failureThreshold b)" "sint (consecutiveFailures b) < 2 ^ 63 - 1"
    and "0 \<le> sint (openedAtNano b)" "0 \<le> sint now"
  shows "(\<exists>p b'. alone now BStart b p b' \<and> (p = BRefused \<or> (\<exists>t. p = BLetThrough t)) \<and> breaker_inv b'
        \<and> (p \<noteq> BRefused, cb_abs b') = spec_allow (sint (openDuration b)) (sint now) (cb_abs b))
    \<and> (\<exists>b'. alone now (BLetThrough t) b (BDone Succeeded) b' \<and> breaker_inv b' \<and> cb_abs b' = Closed 0)
    \<and> (\<exists>r b'. alone now (BLetThrough t) b (BDone r) b' \<and> breaker_inv b'
        \<and> cb_abs b' = spec_failure (sint (failureThreshold b)) (sint now) (cb_abs b))"
proof -
  note inv = breaker_step_inv [OF assms(1,3), of "Allow now"] breaker_step_inv [OF assms(1,3), of Success]
    breaker_step_inv [OF assms(1,3), of "Failure now"]
  from allow_alone [of now b] allow_refines [OF assms(2,4,5)] inv(1)
  have "\<exists>p b'. alone now BStart b p b' \<and> (p = BRefused \<or> (\<exists>t. p = BLetThrough t)) \<and> breaker_inv b'
      \<and> (p \<noteq> BRefused, cb_abs b') = spec_allow (sint (openDuration b)) (sint now) (cb_abs b)"
    by (cases "fst (allow now b)") (fastforce intro: exI)+
  moreover from recordSuccess_alone [of now t b] recordSuccess_refines [OF assms(1)] inv(2)
  have "\<exists>b'. alone now (BLetThrough t) b (BDone Succeeded) b' \<and> breaker_inv b' \<and> cb_abs b' = Closed 0" by auto
  moreover from recordFailure_alone [of now t b] recordFailure_refines [OF assms(1-3)] inv(3)
  have "\<exists>r b'. alone now (BLetThrough t) b (BDone r) b' \<and> breaker_inv b'
      \<and> cb_abs b' = spec_failure (sint (failureThreshold b)) (sint now) (cb_abs b)" by fastforce
  ultimately show ?thesis by blast
qed

theorem breaker_refines_machine_witness:
  "\<exists>r b'. alone 700 (BLetThrough False) (newCircuitBreaker 1 100) (BDone r) b' \<and> cb_abs b' = Open 700"
proof -
  have "breaker_inv (newCircuitBreaker 1 100)" by (rule new_breaker_inv)
  from breaker_refines_machine [OF this, of 700 False] show ?thesis
    by (fastforce simp: newCircuitBreaker_def cb_abs_def)
qed

text \<open>
  C29 (safety). However the atomic operations of any number of calls interleave, the breaker refuses no
  call before the shard has failed often enough: whenever a call has been refused, the breaker is
  enabled and at least as many calls as its threshold have had their failure counted.
\<close>

theorem no_refusal_without_failures:
  assumes "breaker_moves\<^sup>*\<^sup>* (start_sys threshold duration) (b, pc)" and "pc i = BRefused"
  shows "0 < sint threshold \<and> finite {j. pc j \<in> {FOpenedAt, FOpen, BDone FailedCounted}}
    \<and> sint threshold \<le> int (card {j. pc j \<in> {FOpenedAt, FOpen, BDone FailedCounted}})"
proof -
  have inv: "race_inv (b, pc)" using race_reachable [OF assms(1)] .
  have "failureThreshold b = threshold"
    using threshold_kept [OF assms(1)] by (simp add: start_sys_def newCircuitBreaker_def)
  with inv assms(2) show ?thesis
    unfolding race_inv_def enough_def counted_def by auto
qed

theorem no_refusal_without_failures_witness:
  "\<exists>b pc. breaker_moves\<^sup>*\<^sup>* (start_sys 1 1000) (b, pc) \<and> pc 1 = BRefused
    \<and> 1 \<le> int (card {j. pc j \<in> {FOpenedAt, FOpen, BDone FailedCounted}})"
proof -
  let ?ps = "[BDone FailedCounted, BRefused, BStart, BStart]"
  have "run_ok (brk False 0 0 False) (replicate 4 BStart)
      [(0, 0, BLetThrough False, brk False 0 0 False), (0, 0, FAdd, brk False 0 0 False),
       (0, 0, FOpenedAt, brk False 1 0 False), (0, 0, FOpen, brk False 1 0 False),
       (0, 0, BDone FailedCounted, brk True 1 0 False),
       (1, 10, BCheck, brk True 1 0 False), (1, 10, BRefused, brk True 1 0 False)] (brk True 1 0 False) ?ps"
    by (simp add: steps_from time_since_def int64_simps numeral_eq_Suc)
  note r = run_from_start [OF this]
  have "positions ?ps 1 = BRefused" by (simp add: positions_def)
  with no_refusal_without_failures [OF r this] r show ?thesis by auto
qed

text \<open>
  C31 (error). The breaker can lose track of its trial. In one interleaving, in which no caller gave up,
  every call is over, the breaker is open and still marks a trial as in flight: it refuses every later
  call for good. In another, a late failure of a call let through earlier is taken for the trial's, and
  a second trial is let through while the first is still out.
\<close>

theorem breaker_loses_trial:
  "(\<exists>b pc. breaker_moves\<^sup>*\<^sup>* (start_sys 1 1000) (b, pc) \<and> cb_open b \<and> trialInFlight b
      \<and> (\<forall>i. pc i \<in> {BStart, BDone Succeeded, BDone FailedCounted}) \<and> (\<forall>now. allow now b = (False, b)))
    \<and> (\<exists>b pc. breaker_moves\<^sup>*\<^sup>* (start_sys 1 1000) (b, pc) \<and> pc 2 = BLetThrough True \<and> pc 3 = BLetThrough True)"
proof
  let ?b = "brk True 0 6000 True"
    and ?ps = "[BDone FailedCounted, BDone Succeeded, BDone FailedCounted, BDone Succeeded]"
  have "positions ?ps i \<in> {BStart, BDone Succeeded, BDone FailedCounted}" for i
    using nth_mem [of i ?ps] by (auto simp: positions_def)
  moreover have "allow now ?b = (False, ?b)" for now by (simp add: allow_def int64_simps)
  ultimately show "\<exists>b pc. breaker_moves\<^sup>*\<^sup>* (start_sys 1 1000) (b, pc) \<and> cb_open b \<and> trialInFlight b
      \<and> (\<forall>i. pc i \<in> {BStart, BDone Succeeded, BDone FailedCounted}) \<and> (\<forall>now. allow now b = (False, b))"
    using run_from_start [OF lost_trial_run_ok] by (intro exI [of _ ?b] exI [of _ "positions ?ps"]) simp
  show "\<exists>b pc. breaker_moves\<^sup>*\<^sup>* (start_sys 1 1000) (b, pc) \<and> pc 2 = BLetThrough True \<and> pc 3 = BLetThrough True"
    using run_from_start [OF two_trials_run_ok] by (intro exI conjI) (assumption | simp add: positions_def)+
qed

end
