(* ===== verification/Lifecycle.thy ===== *)
theory Lifecycle
  imports Main
begin

text \<open>
  Starting and stopping the server: \<open>ListenAndServe\<close> and any number of concurrent \<open>Close\<close> calls of
  \<open>server/textserver.go\<close>, as steps that are each one critical section of \<open>listenerMu\<close> or one call of
  the network. (\<open>Accept\<close> and the \<open>go\<close> statement behind it are one step: what comes between them touches
  nothing that another goroutine can see.) What the network answers is open. The lemmas show that a \<open>Close\<close> is never lost, in
  whichever order it meets the start of the server.
\<close>

section \<open>The state\<close>

datatype serve_err = BindFailed | AcceptError

datatype serve_pc =
    ServeStart | Listened | Accepting | AcceptFailed | ServeReturned "serve_err option"

text \<open>\<open>CloseHas b\<close>: the flag is set and the listener, if \<open>b\<close>, is still to be closed.\<close>

datatype close_pc = CloseStart | CloseHas bool | CloseDone

text \<open>
  \<open>v_listener\<close> says that the \<open>listener\<close> field is set, \<open>v_open\<close> that the socket \<open>net.Listen\<close> returned is
  open, and \<open>v_accepted\<close> counts the connections handed to \<open>handleConn\<close>.
\<close>

record server_life =
  v_listener :: bool
  v_closed :: bool
  v_open :: bool
  v_accepted :: nat
  v_serve :: serve_pc
  v_close :: "nat \<Rightarrow> close_pc"

definition new_server :: server_life where
  "new_server = \<lparr>v_listener = False, v_closed = False, v_open = False, v_accepted = 0,
     v_serve = ServeStart, v_close = (\<lambda>_. CloseStart)\<rparr>"

section \<open>The steps\<close>

inductive serve_step :: "server_life \<Rightarrow> server_life \<Rightarrow> bool" where
  listen_fails: "v_serve v = ServeStart \<Longrightarrow> serve_step v (v\<lparr>v_serve := ServeReturned (Some BindFailed)\<rparr>)"
| listens: "v_serve v = ServeStart \<Longrightarrow> serve_step v (v\<lparr>v_serve := Listened, v_open := True\<rparr>)"
| found_closed: "v_serve v = Listened \<Longrightarrow> v_closed v \<Longrightarrow>
     serve_step v (v\<lparr>v_serve := ServeReturned None, v_open := False\<rparr>)"
| installs: "v_serve v = Listened \<Longrightarrow> \<not> v_closed v \<Longrightarrow>
     serve_step v (v\<lparr>v_serve := Accepting, v_listener := True\<rparr>)"
| accepts: "v_serve v = Accepting \<Longrightarrow> v_open v \<Longrightarrow> serve_step v (v\<lparr>v_accepted := v_accepted v + 1\<rparr>)"
| accept_fails: "v_serve v = Accepting \<Longrightarrow> serve_step v (v\<lparr>v_serve := AcceptFailed\<rparr>)"
| gives_up: "v_serve v = AcceptFailed \<Longrightarrow>
     serve_step v (v\<lparr>v_serve := ServeReturned (if v_closed v then None else Some AcceptError)\<rparr>)"

inductive close_step :: "nat \<Rightarrow> server_life \<Rightarrow> server_life \<Rightarrow> bool" for j where
  marks: "v_close v j = CloseStart \<Longrightarrow>
     close_step j v (v\<lparr>v_closed := True, v_close := (v_close v)(j := CloseHas (v_listener v))\<rparr>)"
| closes: "v_close v j = CloseHas True \<Longrightarrow>
     close_step j v (v\<lparr>v_open := False, v_close := (v_close v)(j := CloseDone)\<rparr>)"
| nothing_to_close: "v_close v j = CloseHas False \<Longrightarrow>
     close_step j v (v\<lparr>v_close := (v_close v)(j := CloseDone)\<rparr>)"

inductive life_step :: "server_life \<Rightarrow> server_life \<Rightarrow> bool" where
  serve: "serve_step v v' \<Longrightarrow> life_step v v'"
| close: "close_step j v v' \<Longrightarrow> life_step v v'"

inductive_cases serve_stepE: "serve_step v v'"
inductive_cases close_stepE: "close_step j v v'"

section \<open>The invariant\<close>

text \<open>
  Past \<open>Listened\<close> the listener is set if the server accepts; a \<open>Close\<close> that found no listener ran
  before the server installed one, which then never happens; one that is done has closed the socket
  or the server has not begun to accept. A server that returned nil was asked to stop.
\<close>

definition life_inv :: "server_life \<Rightarrow> bool" where
  "life_inv v \<longleftrightarrow> (v_serve v = Accepting \<longrightarrow> v_listener v)
     \<and> (v_listener v \<longrightarrow> v_serve v \<notin> {ServeStart, Listened})
     \<and> (\<forall>j. v_close v j \<noteq> CloseStart \<longrightarrow> v_closed v)
     \<and> (\<forall>j. v_close v j = CloseHas False \<longrightarrow> v_serve v \<noteq> Accepting)
     \<and> (\<forall>j. v_close v j = CloseDone \<longrightarrow> v_serve v = Accepting \<longrightarrow> \<not> v_open v)
     \<and> (v_serve v = ServeReturned None \<longrightarrow> v_closed v)"

lemma life_inv_new: "life_inv new_server"
  by (simp add: life_inv_def new_server_def)

lemma serve_step_inv: "serve_step v v' \<Longrightarrow> life_inv v \<Longrightarrow> life_inv v'"
  by (erule serve_stepE) (auto simp: life_inv_def)

lemma close_step_inv: "close_step j v v' \<Longrightarrow> life_inv v \<Longrightarrow> life_inv v'"
  by (erule close_stepE) (auto simp: life_inv_def)

lemma life_step_inv: "life_step v v' \<Longrightarrow> life_inv v \<Longrightarrow> life_inv v'"
  by (erule life_step.cases) (auto dest: serve_step_inv close_step_inv)

lemma life_steps_inv: "life_step\<^sup>*\<^sup>* v v' \<Longrightarrow> life_inv v \<Longrightarrow> life_inv v'"
  by (induction rule: rtranclp_induct) (auto dest: life_step_inv)

section \<open>After a Close\<close>

definition stopped :: "server_life \<Rightarrow> bool" where
  "stopped v \<longleftrightarrow> life_inv v \<and> v_closed v \<and> (v_serve v = Accepting \<longrightarrow> \<not> v_open v)"

lemma done_stopped: "life_inv v \<Longrightarrow> v_close v j = CloseDone \<Longrightarrow> stopped v"
  by (auto simp: stopped_def life_inv_def)

lemma stopped_serve_step:
  "serve_step v v' \<Longrightarrow> stopped v \<Longrightarrow> stopped v' \<and> v_accepted v' = v_accepted v
    \<and> v_serve v' \<noteq> ServeReturned (Some AcceptError)"
  using serve_step_inv [of v v'] by (auto simp: stopped_def elim!: serve_stepE)

lemma stopped_step: "life_step v v' \<Longrightarrow> stopped v \<Longrightarrow> stopped v' \<and> v_accepted v' = v_accepted v"
proof (erule life_step.cases)
  fix w w'
  assume "v = w" "v' = w'" "serve_step w w'" "stopped v"
  then show ?thesis using stopped_serve_step by blast
next
  fix j w w'
  assume "v = w" "v' = w'" "close_step j w w'" "stopped v"
  then show ?thesis using close_step_inv [of j w w'] by (auto simp: stopped_def elim!: close_stepE)
qed

lemma stopped_steps: "life_step\<^sup>*\<^sup>* v v' \<Longrightarrow> stopped v \<Longrightarrow> stopped v' \<and> v_accepted v' = v_accepted v"
  by (induction rule: rtranclp_induct) (auto dest: stopped_step)

text \<open>What is left for a stopping server to do.\<close>

fun serve_rank :: "serve_pc \<Rightarrow> nat" where
  "serve_rank ServeStart = 2"
| "serve_rank Listened = 1"
| "serve_rank Accepting = 2"
| "serve_rank AcceptFailed = 1"
| "serve_rank (ServeReturned r) = 0"

lemma stopped_rank: "serve_step v v' \<Longrightarrow> stopped v \<Longrightarrow> serve_rank (v_serve v') < serve_rank (v_serve v)"
  by (auto simp: stopped_def elim!: serve_stepE)

lemma stopped_run:
  "(serve_step ^^ n) v v' \<Longrightarrow> stopped v \<Longrightarrow> stopped v' \<and> serve_rank (v_serve v') + n \<le> serve_rank (v_serve v)"
proof (induction n arbitrary: v')
  case (Suc n)
  then obtain u where u: "(serve_step ^^ n) v u" "serve_step u v'" by auto
  with Suc show ?case using stopped_rank [OF u(2)] stopped_serve_step [OF u(2)] by fastforce
qed simp

lemma serve_progress: "(\<exists>v'. serve_step v v') \<or> (\<exists>r. v_serve v = ServeReturned r)"
  by (cases "v_serve v") (metis serve_step.intros)+

section \<open>Properties\<close>

text \<open>
  C27 (termination). A \<open>Close\<close> is never lost, whether it runs before \<open>net.Listen\<close> returns, between that
  and the installing of the listener, or while connections are accepted. Once one \<open>Close\<close> has
  returned, in every continuation no connection is accepted any more, and \<open>ListenAndServe\<close> is at most
  two steps of its own from returning, with nil unless the bind itself failed.
\<close>

theorem close_stops_the_server:
  assumes "life_step\<^sup>*\<^sup>* new_server v" and "v_close v j = CloseDone"
    and "life_step\<^sup>*\<^sup>* v w"
  shows "v_accepted w = v_accepted v
    \<and> (\<forall>n w'. (serve_step ^^ n) w w' \<longrightarrow> n \<le> 2
         \<and> (0 < n \<longrightarrow> v_serve w' \<noteq> ServeReturned (Some AcceptError))
         \<and> ((\<exists>w''. serve_step w' w'') \<or> (\<exists>r. v_serve w' = ServeReturned r)))"
proof (intro conjI allI impI)
  have "stopped v" using assms(1,2) life_inv_new life_steps_inv done_stopped by blast
  with assms(3) have w: "stopped w" "v_accepted w = v_accepted v" using stopped_steps by auto
  then show "v_accepted w = v_accepted v" by simp
  have "serve_rank p \<le> 2" for p by (cases p) simp_all
  then show "n \<le> 2" if "(serve_step ^^ n) w w'" for n w'
    using stopped_run [OF that w(1)] by (meson add_leD2 order_trans)
  show "v_serve w' \<noteq> ServeReturned (Some AcceptError)" if "(serve_step ^^ n) w w'" "0 < n" for n w'
  proof -
    obtain m where "n = Suc m" using \<open>0 < n\<close> by (cases n) auto
    with that obtain u where "(serve_step ^^ m) w u" "serve_step u w'" by auto
    then show ?thesis using stopped_run [of m w u] w(1) stopped_serve_step by blast
  qed
  show "(\<exists>w''. serve_step w' w'') \<or> (\<exists>r. v_serve w' = ServeReturned r)" for w'
    by (rule serve_progress)
qed

text \<open>A \<open>Close\<close> before the server has bound its socket.\<close>

definition closed_early :: server_life where
  "closed_early = new_server\<lparr>v_closed := True, v_close := (\<lambda>_. CloseStart)(0 := CloseDone)\<rparr>"

lemma closed_early_reached: "life_step\<^sup>*\<^sup>* new_server closed_early"
proof -
  let ?v = "new_server\<lparr>v_closed := True, v_close := (\<lambda>_. CloseStart)(0 := CloseHas False)\<rparr>"
  have "close_step 0 new_server ?v" using marks [of new_server 0] by (simp add: new_server_def)
  moreover have "close_step 0 ?v closed_early"
    using nothing_to_close [of ?v 0] by (simp add: closed_early_def new_server_def)
  ultimately show ?thesis by (meson life_step.close rtranclp.simps)
qed

theorem close_stops_the_server_witness:
  "v_accepted closed_early = 0 \<and> \<not> (\<exists>v. (serve_step ^^ 3) closed_early v)"
proof -
  note stops = close_stops_the_server [OF closed_early_reached, of 0 closed_early]
  have "n \<le> 2" if "(serve_step ^^ n) closed_early v" for n v
    using stops that by (simp add: closed_early_def new_server_def)
  from this [of 3] stops show ?thesis by (auto simp: closed_early_def new_server_def)
qed

end
