(* ===== verification/Command.thy ===== *)
theory Command
  imports TextServerProps Lifecycle
begin

text \<open>
  The server command (\<open>cmd/deadhorse/main.go\<close>): the process \<open>main\<close> puts together from its flags - the
  throttler, the text server and the metrics server - and how it ends. The main goroutine, the
  goroutine that waits for the signal and the metrics server are steps over the state of \<open>Lifecycle\<close>
  and the store; request lines and GC turns run beside them. The lemmas show that a signal ends the
  process, whatever it meets.
\<close>

section \<open>The process\<close>

text \<open>
  \<open>Status 0\<close> is the return of \<open>main\<close>, \<open>Status 1\<close> is \<open>log.Fatalf\<close>, \<open>Status 2\<close> a panic of a goroutine;
  \<open>Killed\<close> is the default action of a signal.
\<close>

datatype exit = Status nat | Killed

text \<open>\<open>Stopping\<close> and \<open>Ending\<close>: the deferred calls, last one first.\<close>

datatype main_pc = Serving | Stopping | Ending | Exited exit

record process =
  p_addr :: string
  p_metricsAddr :: string
  p_maxLineSize :: int64
  p_gcInterval :: int64
  p_store :: store
  p_life :: server_life
  p_signalled :: bool
  p_ctxDone :: bool
  p_metrics :: bool
  p_main :: main_pc

text \<open>\<open>main\<close> up to the call of \<open>ListenAndServe\<close>, from the values of its flags.\<close>

definition start_process :: "string \<Rightarrow> int64 \<Rightarrow> int64 \<Rightarrow> int64 \<Rightarrow> int64 \<Rightarrow> int64 \<Rightarrow> process" where
  "start_process host port prometheusPort numStripes gcInterval maxLineSize =
     (let (throttler, interval) = NewInMemoryThrottler numStripes gcInterval in
      \<lparr>p_addr = host @ '':'' @ FormatInt port, p_metricsAddr = host @ '':'' @ FormatInt prometheusPort,
       p_maxLineSize = NewTextServer maxLineSize,
       p_gcInterval = interval, p_store = throttler, p_life = new_server,
       p_signalled = False, p_ctxDone = False, p_metrics = True, p_main = Serving\<rparr>)"

text \<open>With the flags as they are declared.\<close>

definition default_process :: process where
  "default_process = start_process [] 9000 9090 DefaultStripes DefaultGCInterval DefaultMaxLineSize"

section \<open>Its steps\<close>

text \<open>
  The main goroutine: it serves; an error of \<open>ListenAndServe\<close> ends the process at once, without the
  deferred calls; a nil return runs them, \<open>stop\<close>, which ends the context, and \<open>throttler.Close\<close>.
\<close>

inductive main_step :: "process \<Rightarrow> process \<Rightarrow> bool" where
  serves: "p_main p = Serving \<Longrightarrow> serve_step (p_life p) v \<Longrightarrow> main_step p (p\<lparr>p_life := v\<rparr>)"
| fatal: "p_main p = Serving \<Longrightarrow> v_serve (p_life p) = ServeReturned (Some e) \<Longrightarrow>
     main_step p (p\<lparr>p_main := Exited (Status 1)\<rparr>)"
| stops: "p_main p = Serving \<Longrightarrow> v_serve (p_life p) = ServeReturned None \<Longrightarrow>
     main_step p (p\<lparr>p_main := Stopping, p_ctxDone := True\<rparr>)"
| closes_throttler: "p_main p = Stopping \<Longrightarrow>
     main_step p (p\<lparr>p_main := Ending, p_store := throttler_Close (p_store p)\<rparr>)"
| returns: "p_main p = Ending \<Longrightarrow> main_step p (p\<lparr>p_main := Exited (Status 0)\<rparr>)"

text \<open>The goroutine that waits for the context and closes the text server.\<close>

inductive closer_step :: "process \<Rightarrow> process \<Rightarrow> bool" where
  closer: "p_main p \<notin> range Exited \<Longrightarrow> p_ctxDone p \<Longrightarrow> close_step 0 (p_life p) v \<Longrightarrow>
     closer_step p (p\<lparr>p_life := v\<rparr>)"

text \<open>
  SIGINT and SIGTERM: the first ends the context, more are swallowed until \<open>stop\<close> has given the
  signals back their default action.
\<close>

inductive signal_step :: "process \<Rightarrow> process \<Rightarrow> bool" where
  first: "p_main p = Serving \<Longrightarrow> \<not> p_ctxDone p \<Longrightarrow>
     signal_step p (p\<lparr>p_signalled := True, p_ctxDone := True\<rparr>)"
| kills: "p_main p \<in> {Stopping, Ending} \<Longrightarrow> signal_step p (p\<lparr>p_main := Exited Killed\<rparr>)"

text \<open>\<open>serveMetrics\<close>: the metrics server runs in a goroutine of its own; its error is only logged.\<close>

inductive serveMetrics :: "process \<Rightarrow> process \<Rightarrow> bool" where
  metrics_stop: "p_main p \<notin> range Exited \<Longrightarrow> p_metrics p \<Longrightarrow> serveMetrics p (p\<lparr>p_metrics := False\<rparr>)"

inductive control_step :: "process \<Rightarrow> process \<Rightarrow> bool" where
  main: "main_step p q \<Longrightarrow> control_step p q"
| close: "closer_step p q \<Longrightarrow> control_step p q"
| signal: "signal_step p q \<Longrightarrow> control_step p q"
| metrics: "serveMetrics p q \<Longrightarrow> control_step p q"

text \<open>
  What goes on beside them: a line read on some connection, which would end the process if it
  panicked, and a turn of the GC.
\<close>

inductive traffic_step :: "process \<Rightarrow> process \<Rightarrow> bool" where
  request: "p_main p \<notin> range Exited \<Longrightarrow>
     dispatch InMemoryThrottle (Some throttler_keyCountEstimate) (p_store p) now uptime line
       = Some (st, reply, closeConn, ms) \<Longrightarrow>
     traffic_step p (p\<lparr>p_store := st\<rparr>)"
| panics: "p_main p \<notin> range Exited \<Longrightarrow>
     dispatch InMemoryThrottle (Some throttler_keyCountEstimate) (p_store p) now uptime line = None \<Longrightarrow>
     traffic_step p (p\<lparr>p_main := Exited (Status 2)\<rparr>)"
| gc: "p_main p \<notin> range Exited \<Longrightarrow> traffic_step p (p\<lparr>p_store := rotate_all (p_store p)\<rparr>)"

text \<open>A run with a number of control steps, and any traffic between them.\<close>

inductive process_run :: "nat \<Rightarrow> process \<Rightarrow> process \<Rightarrow> bool" where
  none: "process_run 0 p p"
| control: "process_run n p q \<Longrightarrow> control_step q r \<Longrightarrow> process_run (Suc n) p r"
| traffic: "process_run n p q \<Longrightarrow> traffic_step q r \<Longrightarrow> process_run n p r"

inductive_cases main_stepE: "main_step p q"
inductive_cases closer_stepE: "closer_step p q"
inductive_cases signal_stepE: "signal_step p q"
inductive_cases serveMetricsE: "serveMetrics p q"

section \<open>Requests leave the GC loop alone\<close>

lemma store_get_done: "store_get st k = Some (b, st') \<Longrightarrow> done_closed st' = done_closed st"
  by (auto simp: store_get_def split: bind_splits prod.splits)

lemma peek_loop_done: "peek_loop now i es st rs is = Some (st', r) \<Longrightarrow> done_closed st' = done_closed st"
  by (induction now i es st rs "is" rule: peek_loop.induct)
    (auto simp: Let_def store_get_done split: bind_splits if_splits)

lemma collect_buckets_done:
  "collect_buckets store_get st ks m = Some (m', st') \<Longrightarrow> done_closed st' = done_closed st"
proof (induction ks arbitrary: st m)
  case (Cons k ks)
  then show ?case by (auto dest: store_get_done split: bind_splits if_splits)
qed simp

lemma write_back_done: "done_closed (write_back write_tat st m working) = done_closed st"
proof (induction m arbitrary: st)
  case (Cons x m)
  then show ?case by (cases x) simp
qed simp

lemma InMemoryThrottle_done:
  "InMemoryThrottle st now entries = Some (st', r) \<Longrightarrow> done_closed st' = done_closed st"
  by (auto simp: InMemoryThrottle_def Throttle_def evaluateRealGroup_def Let_def write_back_done
      dest!: peek_loop_done collect_buckets_done split: bind_splits if_splits)

interpretation serving: throttler_contract InMemoryThrottle "\<lambda>st. store_inv st \<and> done_closed st = d" for d
proof unfold_locales
  fix st :: store and now entries
  assume "store_inv st \<and> done_closed st = d"
  then show "\<exists>st' rs err. InMemoryThrottle st now entries = Some (st', rs, err)
      \<and> (store_inv st' \<and> done_closed st' = d) \<and> map s_Key rs = map q_Key entries"
    using in_memory.throttle_returns [of st now entries] InMemoryThrottle_done by blast
qed

section \<open>The invariant\<close>

text \<open>
  The server is asked to stop by a signal only; past \<open>Serving\<close> it has returned nil; a process that
  returned has stopped its GC loop, one that ended with an error has not; none panicked.
\<close>

fun main_ok :: "main_pc \<Rightarrow> serve_pc \<Rightarrow> bool \<Rightarrow> bool" where
  "main_ok Serving serve stopped_gc \<longleftrightarrow> \<not> stopped_gc"
| "main_ok Stopping serve stopped_gc \<longleftrightarrow> serve = ServeReturned None \<and> \<not> stopped_gc"
| "main_ok Ending serve stopped_gc \<longleftrightarrow> serve = ServeReturned None \<and> stopped_gc"
| "main_ok (Exited Killed) serve stopped_gc \<longleftrightarrow> serve = ServeReturned None"
| "main_ok (Exited (Status n)) serve stopped_gc \<longleftrightarrow>
     n = 0 \<and> serve = ServeReturned None \<and> stopped_gc
     \<or> n = 1 \<and> (\<exists>e. serve = ServeReturned (Some e)) \<and> \<not> stopped_gc"

definition process_inv :: "process \<Rightarrow> bool" where
  "process_inv p \<longleftrightarrow> life_inv (p_life p) \<and> store_inv (p_store p) \<and> p_ctxDone p = p_signalled p
     \<and> (v_closed (p_life p) \<longrightarrow> p_signalled p)
     \<and> main_ok (p_main p) (v_serve (p_life p)) (done_closed (p_store p))"

lemma start_process_inv: "process_inv (start_process host port prometheusPort numStripes gcInterval maxLineSize)"
  using newStore_inv [of numStripes gcInterval] life_inv_new
  by (simp add: process_inv_def start_process_def NewInMemoryThrottler_def newStore_def Let_def)
    (simp add: new_server_def)

lemma serve_step_closed: "serve_step v v' \<Longrightarrow> v_closed v' = v_closed v"
  by (erule serve_stepE) auto

lemma close_step_serve: "close_step j v v' \<Longrightarrow> v_serve v' = v_serve v"
  by (erule close_stepE) auto

lemma main_step_inv:
  assumes "main_step p q" "process_inv p"
  shows "process_inv q"
  using assms(1)
proof cases
  case (serves v)
  with assms(2) show ?thesis
    using serve_step_inv [OF serves(3)] serve_step_closed [OF serves(3)] by (simp add: process_inv_def)
next
  case (fatal e)
  with assms(2) show ?thesis by (simp add: process_inv_def)
next
  case stops
  with assms(2) show ?thesis by (simp add: process_inv_def life_inv_def)
next
  case closes_throttler
  with assms(2) show ?thesis
    using store_inv_close by (simp add: process_inv_def throttler_Close_def store_close_def)
next
  case returns
  with assms(2) show ?thesis by (simp add: process_inv_def)
qed

lemma closer_step_inv:
  assumes "closer_step p q" "process_inv p"
  shows "process_inv q"
  using assms(1)
proof cases
  case (closer v)
  with assms(2) show ?thesis
    using close_step_inv [OF closer(4)] close_step_serve [OF closer(4)] by (simp add: process_inv_def)
qed

lemma signal_step_inv: "signal_step p q \<Longrightarrow> process_inv p \<Longrightarrow> process_inv q"
  by (erule signal_stepE) (auto simp: process_inv_def)

lemma serveMetrics_inv: "serveMetrics p q \<Longrightarrow> process_inv p \<Longrightarrow> process_inv q"
  by (erule serveMetricsE) (simp add: process_inv_def)

lemma control_step_inv:
  assumes "control_step p q" "process_inv p"
  shows "process_inv q"
  using assms(1)
  by cases (use assms(2) main_step_inv closer_step_inv signal_step_inv serveMetrics_inv in blast)+

text \<open>No request panics, and traffic touches the store only.\<close>

lemma traffic_step_store:
  assumes "traffic_step p q" "process_inv p"
  shows "\<exists>st. q = p\<lparr>p_store := st\<rparr> \<and> store_inv st \<and> done_closed st = done_closed (p_store p)"
proof -
  have st: "store_inv (p_store p)" using assms(2) by (simp add: process_inv_def)
  have line: "\<exists>st r c ms. dispatch InMemoryThrottle (Some throttler_keyCountEstimate) (p_store p) now uptime l
      = Some (st, r, c, ms) \<and> store_inv st \<and> done_closed st = done_closed (p_store p)" for now uptime l
    using serving.dispatch_line [of "p_store p" "done_closed (p_store p)"] st by fastforce
  show ?thesis
    using assms(1)
  proof cases
    case (request now uptime l st reply closeConn ms)
    with line [of now uptime l] show ?thesis by auto
  next
    case (panics now uptime l)
    with line [of now uptime l] show ?thesis by simp
  next
    case gc
    with st show ?thesis by (auto intro: rotate_inv)
  qed
qed

lemma traffic_step_inv:
  assumes "traffic_step p q" "process_inv p"
  shows "process_inv q"
  using traffic_step_store [OF assms] assms(2) by (auto simp: process_inv_def)

lemma process_run_inv: "process_run n p q \<Longrightarrow> process_inv p \<Longrightarrow> process_inv q"
  by (induction rule: process_run.induct) (auto intro: control_step_inv traffic_step_inv)

section \<open>What is left to do after a signal\<close>

fun serving_rank :: "serve_pc \<Rightarrow> nat" where
  "serving_rank ServeStart = 4"
| "serving_rank Listened = 3"
| "serving_rank Accepting = 2"
| "serving_rank AcceptFailed = 1"
| "serving_rank (ServeReturned r) = 0"

fun main_rank :: "main_pc \<Rightarrow> serve_pc \<Rightarrow> nat" where
  "main_rank Serving serve = 3 + serving_rank serve"
| "main_rank Stopping serve = 2"
| "main_rank Ending serve = 1"
| "main_rank (Exited e) serve = 0"

fun close_rank :: "close_pc \<Rightarrow> nat" where
  "close_rank CloseStart = 2"
| "close_rank (CloseHas b) = 1"
| "close_rank CloseDone = 0"

definition process_rank :: "process \<Rightarrow> nat" where
  "process_rank p = main_rank (p_main p) (v_serve (p_life p)) + close_rank (v_close (p_life p) 0)
     + (if p_metrics p then 1 else 0)"

lemma process_rank_bound: "process_rank p \<le> 10"
proof -
  have "serving_rank (v_serve (p_life p)) \<le> 4" by (cases "v_serve (p_life p)") simp_all
  then have "main_rank (p_main p) (v_serve (p_life p)) \<le> 7" by (cases "p_main p") simp_all
  moreover have "close_rank (v_close (p_life p) 0) \<le> 2" by (cases "v_close (p_life p) 0") simp_all
  ultimately show ?thesis by (simp add: process_rank_def)
qed

lemma serve_step_rank:
  "serve_step v v' \<Longrightarrow> v_close v' = v_close v
    \<and> serving_rank (v_serve v') + Suc (v_accepted v) \<le> serving_rank (v_serve v) + v_accepted v'"
  by (erule serve_stepE) auto

lemma close_step_rank:
  "close_step j v v' \<Longrightarrow> v_accepted v' = v_accepted v
    \<and> close_rank (v_close v' j) < close_rank (v_close v j)"
  by (erule close_stepE) auto

text \<open>Each control step but the accepting of a connection brings the end closer.\<close>

lemma control_step_rank:
  assumes "control_step p q" "p_ctxDone p"
  shows "p_ctxDone q
    \<and> process_rank q + Suc (v_accepted (p_life p)) \<le> process_rank p + v_accepted (p_life q)"
  using assms(1)
proof cases
  case main
  then show ?thesis
  proof cases
    case (serves v)
    with assms(2) serve_step_rank [OF serves(3)] show ?thesis by (simp add: process_rank_def)
  qed (use assms(2) in \<open>simp_all add: process_rank_def\<close>)
next
  case close
  then show ?thesis
  proof cases
    case (closer v)
    with close_step_rank [OF closer(4)] close_step_serve [OF closer(4)] show ?thesis
      by (simp add: process_rank_def)
  qed
next
  case signal
  then show ?thesis using assms(2) by cases (auto simp: process_rank_def)
next
  case metrics
  then show ?thesis using assms(2) by cases (simp add: process_rank_def)
qed

lemma process_run_rank:
  "process_run n p q \<Longrightarrow> process_inv p \<Longrightarrow> p_ctxDone p \<Longrightarrow>
    p_ctxDone q \<and> process_rank q + n + v_accepted (p_life p) \<le> process_rank p + v_accepted (p_life q)"
proof (induction rule: process_run.induct)
  case (control n p q r)
  then show ?case using control_step_rank [OF control.hyps(2)] by fastforce
next
  case (traffic n p q r)
  then have "process_inv q" by (blast intro: process_run_inv)
  with traffic show ?case using traffic_step_store [OF traffic.hyps(2)] by (auto simp: process_rank_def)
qed simp

text \<open>What a control step does to the server, if anything, is a step of \<open>Lifecycle\<close>.\<close>

lemma control_step_life: "control_step p q \<Longrightarrow> p_life q = p_life p \<or> life_step (p_life p) (p_life q)"
  by (erule control_step.cases)
    (auto elim!: main_stepE closer_stepE signal_stepE serveMetricsE intro: life_step.intros)

lemma process_run_life: "process_run n p q \<Longrightarrow> process_inv p \<Longrightarrow> life_step\<^sup>*\<^sup>* (p_life p) (p_life q)"
proof (induction rule: process_run.induct)
  case (control n p q r)
  then show ?case using control_step_life [OF control.hyps(2)] by fastforce
next
  case (traffic n p q r)
  then have "process_inv q" by (blast intro: process_run_inv)
  with traffic show ?case using traffic_step_store [OF traffic.hyps(2)] by auto
qed simp

text \<open>A server that is closed while it serves does not return an error.\<close>

definition orderly :: "server_life \<Rightarrow> bool" where
  "orderly v \<longleftrightarrow> v_closed v \<and> v_serve v \<noteq> ServeStart \<and> (\<forall>e. v_serve v \<noteq> ServeReturned (Some e))"

lemma orderly_step: "life_step v v' \<Longrightarrow> orderly v \<Longrightarrow> orderly v'"
  by (erule life_step.cases) (auto simp: orderly_def elim!: serve_stepE close_stepE)

lemma orderly_steps: "life_step\<^sup>*\<^sup>* v v' \<Longrightarrow> orderly v \<Longrightarrow> orderly v'"
  by (induction rule: rtranclp_induct) (auto dest: orderly_step)

lemma control_progress:
  assumes "p_main p \<notin> range Exited"
  shows "\<exists>q. control_step p q"
proof (cases "p_main p")
  case Serving
  with serve_progress [of "p_life p"] show ?thesis
    by (metis (full_types) control_step.main main_step.intros(1-3) option.exhaust)
qed (use assms in \<open>blast intro: control_step.main main_step.intros\<close>)+

lemma closer_progress:
  assumes "p_main p \<notin> range Exited" "p_ctxDone p" "v_close (p_life p) 0 \<noteq> CloseDone"
  shows "\<exists>q. closer_step p q"
proof -
  have "\<exists>v. close_step 0 (p_life p) v"
    using assms(3) by (cases "v_close (p_life p) 0") (metis (full_types) close_step.intros)+
  with assms(1,2) show ?thesis by (blast intro: closer)
qed

section \<open>The property\<close>

text \<open>
  C28 (termination). A signal ends the server process. However it meets the start of the server, and
  whatever requests, GC turns and failures of the metrics server go on: after the signal the process
  takes at most ten more steps, not counting connections still accepted, and none is accepted once
  the goroutine that waits for the signal has closed the server, which nothing keeps it from doing;
  until the process has ended some step is left. It returns 0 only after a signal and with its GC loop
  stopped; it never panics; and a server closed after it bound its socket does not end the process
  with an error.
\<close>

theorem signal_ends_the_process:
  assumes "process_run m (start_process host port prometheusPort numStripes gcInterval maxLineSize) p"
    and "process_run n p q"
  shows "(\<forall>e. p_main q = Exited e \<longrightarrow> e \<in> {Status 0, Status 1, Killed}
         \<and> (e = Status 0 \<longrightarrow> p_signalled q \<and> done_closed (p_store q))
         \<and> (orderly (p_life p) \<longrightarrow> e \<noteq> Status 1))
    \<and> (p_main q \<notin> range Exited \<longrightarrow> (\<exists>r. control_step q r))
    \<and> (p_signalled p \<longrightarrow> n \<le> 10 + (v_accepted (p_life q) - v_accepted (p_life p))
         \<and> (p_main q \<notin> range Exited \<longrightarrow> v_close (p_life q) 0 \<noteq> CloseDone \<longrightarrow> (\<exists>r. closer_step q r))
         \<and> (v_close (p_life p) 0 = CloseDone \<longrightarrow> v_accepted (p_life q) = v_accepted (p_life p)))"
proof -
  have p: "process_inv p" by (rule process_run_inv [OF assms(1) start_process_inv])
  have q: "process_inv q" by (rule process_run_inv [OF assms(2) p])
  note life = process_run_life [OF assms(2) p]
  have "e \<in> {Status 0, Status 1, Killed} \<and> (e = Status 0 \<longrightarrow> p_signalled q \<and> done_closed (p_store q))
      \<and> (orderly (p_life p) \<longrightarrow> e \<noteq> Status 1)" if "p_main q = Exited e" for e
    using q orderly_steps [OF life] that
    by (cases e) (auto simp: process_inv_def life_inv_def orderly_def)
  moreover have "n \<le> 10 + (v_accepted (p_life q) - v_accepted (p_life p))" "p_ctxDone q" if "p_signalled p"
    using process_run_rank [OF assms(2) p] that p process_rank_bound [of p] by (auto simp: process_inv_def)
  moreover have "v_accepted (p_life q) = v_accepted (p_life p)" if "v_close (p_life p) 0 = CloseDone"
    using stopped_steps [OF life] done_stopped [OF _ that] p by (simp add: process_inv_def)
  ultimately show ?thesis using control_progress [of q] closer_progress [of q] by blast
qed

text \<open>A signal before the server has bound its socket.\<close>

theorem signal_ends_the_process_witness:
  "\<exists>p. process_run 1 default_process p \<and> p_signalled p
    \<and> (\<forall>n q. process_run n p q \<longrightarrow> n \<le> 10 + (v_accepted (p_life q) - v_accepted (p_life p)))"
proof -
  let ?s = default_process
  let ?p = "?s\<lparr>p_signalled := True, p_ctxDone := True\<rparr>"
  have "control_step ?s ?p"
    by (intro control_step.signal first) (simp_all add: default_process_def start_process_def case_prod_beta)
  then have run: "process_run 1 ?s ?p" using process_run.control [OF process_run.none] by fastforce
  moreover have "p_signalled ?p" by simp
  ultimately show ?thesis using signal_ends_the_process [OF run [unfolded default_process_def], folded default_process_def] by blast
qed

end
