(* ===== verification/LoadStats.thy ===== *)
theory LoadStats
  imports Prelude "HOL-Library.Multiset"
begin

text \<open>
  The statistics of the load generator (\<open>tools/loadtest/stats.go\<close>): \<open>record\<close>, \<open>snapshot\<close>, \<open>final\<close>,
  \<open>buildReport\<close> and \<open>percentile\<close>, whose index is a product of \<open>float64\<close>s and is modelled with its
  rounding. The lemmas show that the index never leaves the slice, that the percentiles of a report
  are ordered samples, and that the final report is over every sample of the run. Printing a report is
  not modelled.
\<close>

section \<open>A float64 product\<close>

text \<open>
  The number of binary digits, and rounding to 53 of them, to the nearest with ties to even: what
  \<open>float64\<close> does to a natural number.
\<close>

fun bitlen :: "nat \<Rightarrow> nat" where
  "bitlen n = (if n = 0 then 0 else Suc (bitlen (n div 2)))"

declare bitlen.simps [simp del]

lemma bitlen_0 [simp]: "bitlen 0 = 0"
  by (subst bitlen.simps) simp

lemma bitlen_1 [simp]: "bitlen (Suc 0) = Suc 0"
  by (subst bitlen.simps) simp

definition round_even :: "nat \<Rightarrow> nat \<Rightarrow> nat" where
  "round_even n k = (let q = n div 2 ^ k; r = n mod 2 ^ k in
     if 2 ^ k < 2 * r \<or> (2 * r = 2 ^ k \<and> odd q) then q + 1 else q)"

definition to_float :: "nat \<Rightarrow> nat" where
  "to_float n = (let k = bitlen n - 53 in round_even n k * 2 ^ k)"

lemma bitlen_bounds: "0 < n \<Longrightarrow> 2 ^ (bitlen n - 1) \<le> n \<and> n < 2 ^ bitlen n \<and> 0 < bitlen n"
proof (induction n rule: bitlen.induct)
  case (1 n)
  show ?case
  proof (cases "n div 2 = 0")
    case True
    with "1.prems" have "n = 1" by presburger
    then show ?thesis by simp
  next
    case False
    with 1 have IH: "2 ^ (bitlen (n div 2) - 1) \<le> n div 2" "n div 2 < 2 ^ bitlen (n div 2)" "0 < bitlen (n div 2)"
      by simp_all
    have step: "bitlen n = Suc (bitlen (n div 2))" using "1.prems" by (subst bitlen.simps) simp
    obtain b where b: "bitlen (n div 2) = Suc b" using IH(3) by (cases "bitlen (n div 2)") auto
    define q :: nat where "q = 2 ^ b"
    have "q \<le> n div 2" "n div 2 < 2 * q" using IH(1, 2) b by (simp_all add: q_def)
    then have "2 * q \<le> n" "n < 2 * (2 * q)" by presburger+
    then show ?thesis using b step by (simp add: q_def)
  qed
qed

lemma bitlen_le: "n < 2 ^ k \<Longrightarrow> bitlen n \<le> k"
proof (cases "n = 0")
  case False
  assume "n < 2 ^ k"
  with False have "(2 :: nat) ^ (bitlen n - 1) < 2 ^ k"
    using bitlen_bounds [of n] by (meson gr_zeroI order_le_less_trans)
  then have "bitlen n - 1 < k" by (rule power_less_imp_less_exp [rotated]) simp
  then show ?thesis by simp
qed simp

lemma bitlen_mono: "m \<le> n \<Longrightarrow> bitlen m \<le> bitlen n"
  using bitlen_bounds [of n] by (cases "n = 0") (auto intro!: bitlen_le)

lemma round_even_bounds: "n div 2 ^ k \<le> round_even n k \<and> round_even n k \<le> n div 2 ^ k + 1"
  by (simp add: round_even_def Let_def)

lemma round_even_mono:
  assumes "m \<le> n"
  shows "round_even m k \<le> round_even n k"
proof (cases "m div 2 ^ k = n div 2 ^ k")
  case True
  have "m mod 2 ^ k \<le> n mod 2 ^ k"
    using assms True by (metis add_le_cancel_left div_mult_mod_eq)
  with True show ?thesis by (auto simp: round_even_def Let_def)
next
  case False
  with div_le_mono [OF assms, of "2 ^ k"] have "m div 2 ^ k + 1 \<le> n div 2 ^ k" by simp
  then show ?thesis using round_even_bounds [of m k] round_even_bounds [of n k] by linarith
qed

lemma round_even_exact: "2 ^ k dvd n \<Longrightarrow> round_even n k = n div 2 ^ k"
  by (simp add: round_even_def Let_def)

lemma to_float_mono:
  assumes "m \<le> n"
  shows "to_float m \<le> to_float n"
proof -
  let ?j = "bitlen m - 53" and ?k = "bitlen n - 53"
  consider "?j = ?k" | "?j < ?k" using bitlen_mono [OF assms] by linarith
  then show ?thesis
  proof cases
    case 1
    then show ?thesis using round_even_mono [OF assms] by (simp add: to_float_def Let_def)
  next
    case 2
    have n: "0 < n" using 2 by (cases "n = 0") simp_all
    have "m < 2 ^ (53 + ?j)"
    proof (cases "m = 0")
      case False
      have "m < 2 ^ bitlen m" using bitlen_bounds [of m] False by simp
      also have "\<dots> \<le> (2 :: nat) ^ (53 + ?j)" by (rule power_increasing) simp_all
      finally show ?thesis .
    qed simp
    then have "m div 2 ^ ?j < 2 ^ 53" by (intro less_mult_imp_div_less) (simp only: power_add)
    then have "round_even m ?j \<le> 2 ^ 53" using round_even_bounds [of m ?j] by linarith
    then have "to_float m \<le> 2 ^ 53 * 2 ^ ?j" by (simp add: to_float_def Let_def)
    also have "\<dots> = 2 ^ (52 + (?j + 1))" by (simp add: power_add)
    also have "\<dots> \<le> (2 :: nat) ^ (52 + ?k)" using 2 by (intro power_increasing) simp_all
    also have "\<dots> = 2 ^ 52 * 2 ^ ?k" by (simp add: power_add)
    also have "\<dots> \<le> to_float n"
    proof -
      have "bitlen n - 1 = 52 + ?k" using 2 by simp
      then have "2 ^ 52 * 2 ^ ?k \<le> n" using bitlen_bounds [OF n] by (simp only: power_add)
      then have "2 ^ 52 \<le> n div 2 ^ ?k" by (subst less_eq_div_iff_mult_less_eq) simp_all
      then show ?thesis using round_even_bounds [of n ?k] by (simp add: to_float_def Let_def)
    qed
    finally show ?thesis .
  qed
qed

lemma to_float_exact:
  assumes "2 ^ (bitlen n - 53) dvd n"
  shows "to_float n = n"
  using assms by (simp add: to_float_def Let_def round_even_exact)

lemma to_float_small: "n \<le> 2 ^ 53 \<Longrightarrow> to_float n = n"
proof (cases "n = 2 ^ 53")
  case True
  have "bitlen n \<le> 54" unfolding True by (rule bitlen_le) simp
  then have "(2 :: nat) ^ (bitlen n - 53) dvd 2 ^ 53" by (intro le_imp_power_dvd) simp
  then show ?thesis unfolding True by (rule to_float_exact)
next
  case False
  assume "n \<le> 2 ^ 53"
  with False have "bitlen n \<le> 53" by (intro bitlen_le) simp
  then show ?thesis by (intro to_float_exact) simp
qed

lemma to_float_scaled: "n \<le> 2 ^ 53 \<Longrightarrow> to_float (2 ^ 53 * n) = 2 ^ 53 * n"
proof -
  assume n: "n \<le> 2 ^ 53"
  then have "2 ^ 53 * n < 2 ^ 107" by simp
  then have "bitlen (2 ^ 53 * n) \<le> 107" by (rule bitlen_le)
  show ?thesis
  proof (cases "n = 2 ^ 53")
    case True
    then have "(2 :: nat) ^ (bitlen (2 ^ 53 * n) - 53) dvd 2 ^ 53 * n"
      using \<open>bitlen _ \<le> 107\<close> le_imp_power_dvd [of "bitlen (2 ^ 53 * n) - 53" 106 "2 :: nat"] by simp
    then show ?thesis by (rule to_float_exact)
  next
    case False
    with n have "2 ^ 53 * n < 2 ^ 106" by simp
    then have "bitlen (2 ^ 53 * n) \<le> 106" by (rule bitlen_le)
    then have "(2 :: nat) ^ (bitlen (2 ^ 53 * n) - 53) dvd 2 ^ 53" by (intro le_imp_power_dvd) simp
    then show ?thesis by (intro to_float_exact) simp
  qed
qed

section \<open>Percentiles and reports\<close>

text \<open>
  The percentile a report asks for, as the 53-bit fraction its constant stands for: 0.50, 0.90 and
  0.99 over \<open>2 ^ 53\<close>.
\<close>

definition p50_fraction :: nat where "p50_fraction = 4503599627370496"
definition p90_fraction :: nat where "p90_fraction = 8106479329266893"
definition p99_fraction :: nat where "p99_fraction = 8917127262193582"

definition percentile_index :: "nat \<Rightarrow> nat \<Rightarrow> nat" where
  "percentile_index p n = to_float (p * to_float (n - 1)) div 2 ^ 53"

definition percentile :: "int64 list \<Rightarrow> nat \<Rightarrow> int64 option" where
  "percentile ordered p =
     (let idx = percentile_index p (length ordered) in if idx < length ordered then Some (ordered ! idx) else None)"

record report =
  r_count :: int64
  r_throttled :: int64
  r_errors :: int64
  r_elapsed :: int64
  r_p50 :: int64
  r_p90 :: int64
  r_p99 :: int64
  r_pmax :: int64

definition buildReport :: "int64 list \<Rightarrow> int64 \<Rightarrow> int64 \<Rightarrow> int64 \<Rightarrow> report option" where
  "buildReport latencies throttled errors elapsed =
     (let ordered = sort_key sint latencies;
          r = \<lparr>r_count = of_nat (length latencies), r_throttled = throttled, r_errors = errors,
               r_elapsed = elapsed, r_p50 = 0, r_p90 = 0, r_p99 = 0, r_pmax = 0\<rparr> in
      if ordered = [] then Some r
      else do {
        p50 \<leftarrow> percentile ordered p50_fraction;
        p90 \<leftarrow> percentile ordered p90_fraction;
        p99 \<leftarrow> percentile ordered p99_fraction;
        Some (r\<lparr>r_p50 := p50, r_p90 := p90, r_p99 := p99, r_pmax := ordered ! (length ordered - 1)\<rparr>)
      })"

section \<open>Collecting samples\<close>

record stats =
  t_intervalLatencies :: "int64 list"
  t_intervalThrottled :: int64
  t_intervalErrors :: int64
  t_allLatencies :: "int64 list"
  t_allThrottled :: int64
  t_allErrors :: int64

definition newStats :: stats where
  "newStats = \<lparr>t_intervalLatencies = [], t_intervalThrottled = 0, t_intervalErrors = 0,
     t_allLatencies = [], t_allThrottled = 0, t_allErrors = 0\<rparr>"

definition stats_record :: "stats \<Rightarrow> int64 \<Rightarrow> bool \<Rightarrow> bool \<Rightarrow> stats" where
  "stats_record s d throttled errored =
     (let s = s\<lparr>t_intervalLatencies := t_intervalLatencies s @ [d]\<rparr>;
          s = (if throttled then s\<lparr>t_intervalThrottled := t_intervalThrottled s + 1\<rparr> else s) in
      if errored then s\<lparr>t_intervalErrors := t_intervalErrors s + 1\<rparr> else s)"

definition snapshot :: "stats \<Rightarrow> int64 \<Rightarrow> stats \<times> report option" where
  "snapshot s elapsed =
     (s\<lparr>t_intervalLatencies := [], t_intervalThrottled := 0, t_intervalErrors := 0,
        t_allLatencies := t_allLatencies s @ t_intervalLatencies s,
        t_allThrottled := t_allThrottled s + t_intervalThrottled s,
        t_allErrors := t_allErrors s + t_intervalErrors s\<rparr>,
      buildReport (t_intervalLatencies s) (t_intervalThrottled s) (t_intervalErrors s) elapsed)"

definition final_report :: "stats \<Rightarrow> int64 \<Rightarrow> stats \<times> report option" where
  "final_report s elapsed =
     (let s = s\<lparr>t_allLatencies := t_allLatencies s @ t_intervalLatencies s,
                t_allThrottled := t_allThrottled s + t_intervalThrottled s,
                t_allErrors := t_allErrors s + t_intervalErrors s,
                t_intervalLatencies := []\<rparr> in
      (s, buildReport (t_allLatencies s) (t_allThrottled s) (t_allErrors s) elapsed))"

text \<open>A run: requests recorded by the workers in some order, with snapshots in between.\<close>

datatype stats_event = Recorded int64 bool bool | Snapshot int64

fun stats_run :: "stats \<Rightarrow> stats_event list \<Rightarrow> stats" where
  "stats_run s [] = s"
| "stats_run s (Recorded d th er # es) = stats_run (stats_record s d th er) es"
| "stats_run s (Snapshot elapsed # es) = stats_run (fst (snapshot s elapsed)) es"

fun samples :: "stats_event list \<Rightarrow> int64 list" where
  "samples [] = []"
| "samples (Recorded d th er # es) = d # samples es"
| "samples (Snapshot elapsed # es) = samples es"

fun throttled_samples :: "stats_event list \<Rightarrow> nat" where
  "throttled_samples [] = 0"
| "throttled_samples (Recorded d th er # es) = (if th then 1 else 0) + throttled_samples es"
| "throttled_samples (Snapshot elapsed # es) = throttled_samples es"

fun errored_samples :: "stats_event list \<Rightarrow> nat" where
  "errored_samples [] = 0"
| "errored_samples (Recorded d th er # es) = (if er then 1 else 0) + errored_samples es"
| "errored_samples (Snapshot elapsed # es) = errored_samples es"

lemma final_after_run:
  "snd (final_report (stats_run s es) elapsed) =
     buildReport (t_allLatencies s @ t_intervalLatencies s @ samples es)
       (t_allThrottled s + t_intervalThrottled s + of_nat (throttled_samples es))
       (t_allErrors s + t_intervalErrors s + of_nat (errored_samples es)) elapsed"
  by (induction s es rule: stats_run.induct)
    (simp_all add: final_report_def stats_record_def snapshot_def Let_def add.assoc add.left_commute)

section \<open>Bounds and order of the percentiles\<close>

lemma percentile_index_mono: "p \<le> q \<Longrightarrow> percentile_index p n \<le> percentile_index q n"
  unfolding percentile_index_def by (intro div_le_mono to_float_mono mult_right_mono) simp_all

lemma percentile_index_bound:
  assumes "p \<le> 2 ^ 53" "n \<le> 2 ^ 53"
  shows "percentile_index p n \<le> n - 1"
proof -
  have n: "to_float (n - 1) = n - 1" using assms(2) by (intro to_float_small) simp
  have "to_float (p * (n - 1)) \<le> to_float (2 ^ 53 * (n - 1))"
    using assms(1) by (intro to_float_mono mult_right_mono) simp_all
  also have "\<dots> = 2 ^ 53 * (n - 1)" using assms(2) by (intro to_float_scaled) simp
  finally show ?thesis unfolding percentile_index_def n
    by (metis div_le_mono nonzero_mult_div_cancel_left power_not_zero zero_neq_numeral)
qed

lemma percentile_sorted:
  assumes "p \<le> 2 ^ 53" "xs \<noteq> []" "length xs \<le> 2 ^ 53"
  shows "percentile xs p = Some (xs ! percentile_index p (length xs))" "percentile_index p (length xs) < length xs"
proof -
  show "percentile_index p (length xs) < length xs"
    using percentile_index_bound [OF assms(1,3)] assms(2) by (cases xs) simp_all
  then show "percentile xs p = Some (xs ! percentile_index p (length xs))" by (simp add: percentile_def Let_def)
qed

lemma fractions:
  "p50_fraction \<le> p90_fraction" "p90_fraction \<le> p99_fraction" "p99_fraction \<le> 2 ^ 53"
  by (simp_all add: p50_fraction_def p90_fraction_def p99_fraction_def)

text \<open>0.50 is exact: the index of the median is the middle one, rounded down.\<close>

lemma percentile_index_median:
  assumes "n \<le> 2 ^ 53"
  shows "percentile_index p50_fraction n = (n - 1) div 2"
proof -
  have n: "to_float (n - 1) = n - 1" using assms by (intro to_float_small) simp
  have "to_float (p50_fraction * (n - 1)) = p50_fraction * (n - 1)"
  proof (rule to_float_exact)
    have "p50_fraction * (n - 1) < 2 ^ 105" using assms by (simp add: p50_fraction_def)
    then have "bitlen (p50_fraction * (n - 1)) \<le> 105" by (rule bitlen_le)
    then have "(2 :: nat) ^ (bitlen (p50_fraction * (n - 1)) - 53) dvd 2 ^ 52"
      by (intro le_imp_power_dvd) simp
    also have "(2 :: nat) ^ 52 dvd p50_fraction * (n - 1)" by (simp add: p50_fraction_def)
    finally show "2 ^ (bitlen (p50_fraction * (n - 1)) - 53) dvd p50_fraction * (n - 1)" .
  qed
  then show ?thesis
    unfolding percentile_index_def n by (simp add: p50_fraction_def div_mult2_eq [symmetric])
qed

text \<open>A report over some samples: its percentiles are ordered samples, the last one the largest.\<close>

lemma buildReport_some:
  assumes "xs \<noteq> []" "length xs \<le> 2 ^ 53"
  shows "\<exists>r. buildReport xs th er el = Some r
    \<and> r_count r = of_nat (length xs) \<and> r_throttled r = th \<and> r_errors r = er \<and> r_elapsed r = el
    \<and> sint (r_p50 r) \<le> sint (r_p90 r) \<and> sint (r_p90 r) \<le> sint (r_p99 r) \<and> sint (r_p99 r) \<le> sint (r_pmax r)
    \<and> {r_p50 r, r_p90 r, r_p99 r, r_pmax r} \<subseteq> set xs \<and> (\<forall>d \<in> set xs. sint d \<le> sint (r_pmax r))
    \<and> r_p50 r = sort_key sint xs ! ((length xs - 1) div 2)"
proof -
  let ?s = "sort_key sint xs"
  let ?i = "\<lambda>p. percentile_index p (length xs)"
  have ne: "?s \<noteq> []" "length ?s = length xs" using assms(1) by (metis length_0_conv length_sort)+
  have order: "i \<le> j \<Longrightarrow> j < length xs \<Longrightarrow> sint (?s ! i) \<le> sint (?s ! j)" for i j
    using sorted_nth_mono [of "map sint ?s" i j] by simp
  have small: "p50_fraction \<le> 2 ^ 53" "p90_fraction \<le> 2 ^ 53" "p99_fraction \<le> 2 ^ 53"
    using fractions by linarith+
  note at = percentile_sorted [OF _ ne(1), unfolded ne(2), OF _ assms(2)]
  note bound = at(2) [OF small(1)] at(2) [OF small(2)] at(2) [OF small(3)]
  have idx: "?i p50_fraction \<le> ?i p90_fraction" "?i p90_fraction \<le> ?i p99_fraction"
      "?i p99_fraction \<le> length xs - 1"
    using fractions bound by (simp_all add: percentile_index_mono)
  have last: "length xs - 1 < length xs" using assms(1) by (cases xs) simp_all
  have mem: "i < length xs \<Longrightarrow> ?s ! i \<in> set xs" for i
    using nth_mem [of i ?s] by simp
  have largest: "sint d \<le> sint (?s ! (length xs - 1))" if "d \<in> set xs" for d
  proof -
    have "d \<in> set ?s" using that by simp
    then obtain i where "i < length ?s" "?s ! i = d" by (auto simp only: in_set_conv_nth)
    then have "i < length xs" "?s ! i = d" by simp_all
    then show ?thesis using order [of i "length xs - 1"] last by simp
  qed
  define r where "r = \<lparr>r_count = of_nat (length xs), r_throttled = th, r_errors = er, r_elapsed = el,
    r_p50 = ?s ! ?i p50_fraction, r_p90 = ?s ! ?i p90_fraction, r_p99 = ?s ! ?i p99_fraction,
    r_pmax = ?s ! (length xs - 1)\<rparr>"
  have "buildReport xs th er el = Some r"
    using ne(1) by (simp add: buildReport_def Let_def at(1) [OF small(1)] at(1) [OF small(2)] at(1) [OF small(3)]
      ne(2) r_def)
  moreover have "sint (r_p50 r) \<le> sint (r_p90 r)" "sint (r_p90 r) \<le> sint (r_p99 r)" "sint (r_p99 r) \<le> sint (r_pmax r)"
    using order [OF idx(1) bound(2)] order [OF idx(2) bound(3)] order [OF idx(3) last] by (simp_all add: r_def)
  moreover have "{r_p50 r, r_p90 r, r_p99 r, r_pmax r} \<subseteq> set xs"
    using bound last by (simp add: r_def mem)
  moreover have "\<forall>d \<in> set xs. sint d \<le> sint (r_pmax r)" using largest by (simp add: r_def)
  moreover have "r_p50 r = ?s ! ((length xs - 1) div 2)"
    by (simp add: r_def percentile_index_median [OF assms(2)])
  ultimately show ?thesis by (intro exI [of _ r]) (simp add: r_def)
qed

section \<open>The final report\<close>

text \<open>
  What a report over a whole run says: every request counted exactly once, every throttled and every
  failed one, and, if there is one at all, percentiles that are samples of the run in order, the median
  the middle one, rounded down, and the maximum the largest.
\<close>

definition report_covers :: "report \<Rightarrow> stats_event list \<Rightarrow> bool" where
  "report_covers r es \<longleftrightarrow> r_count r = of_nat (length (samples es))
     \<and> r_throttled r = of_nat (throttled_samples es) \<and> r_errors r = of_nat (errored_samples es)
     \<and> (samples es \<noteq> [] \<longrightarrow>
          sint (r_p50 r) \<le> sint (r_p90 r) \<and> sint (r_p90 r) \<le> sint (r_p99 r) \<and> sint (r_p99 r) \<le> sint (r_pmax r)
        \<and> {r_p50 r, r_p90 r, r_p99 r, r_pmax r} \<subseteq> set (samples es)
        \<and> (\<forall>d \<in> set (samples es). sint d \<le> sint (r_pmax r))
        \<and> r_p50 r = sort_key sint (samples es) ! ((length (samples es) - 1) div 2))"

lemma final_report_covers:
  assumes "length (samples es) \<le> 2 ^ 53"
  shows "\<exists>r. snd (final_report (stats_run newStats es) elapsed) = Some r \<and> report_covers r es"
proof (cases "samples es = []")
  case True
  then show ?thesis by (simp add: final_after_run newStats_def buildReport_def report_covers_def)
next
  case False
  with buildReport_some [OF False assms, of "of_nat (throttled_samples es)" "of_nat (errored_samples es)" elapsed]
  show ?thesis by (auto simp: final_after_run newStats_def report_covers_def)
qed

text \<open>A report is made without an index leaving its slice, if there are not too many samples.\<close>

lemma buildReport_small: "length xs \<le> 2 ^ 53 \<Longrightarrow> \<exists>r. buildReport xs th er el = Some r"
  using buildReport_some [of xs th er el] by (cases "xs = []") (auto simp: buildReport_def Let_def)

lemma stats_run_append: "stats_run s (es @ es') = stats_run (stats_run s es) es'"
  by (induction s es rule: stats_run.induct) simp_all

lemma samples_append [simp]: "samples (es @ es') = samples es @ samples es'"
  by (induction es rule: samples.induct) simp_all

lemma stats_run_latencies:
  "t_allLatencies (stats_run s es) @ t_intervalLatencies (stats_run s es)
    = t_allLatencies s @ t_intervalLatencies s @ samples es"
  by (induction s es rule: stats_run.induct) (simp_all add: stats_record_def snapshot_def Let_def)

lemma interval_latencies: "length (t_intervalLatencies (stats_run newStats es)) \<le> length (samples es)"
  using arg_cong [OF stats_run_latencies [of newStats es], of length] by (simp add: newStats_def)

end
