(* ===== verification/LoadTest.thy ===== *)
theory LoadTest
  imports LoadStats Types GoStrings
begin

text \<open>
  The load generator (\<open>tools/loadtest/main.go\<close>): the checks of its flags, \<open>splitAddrs\<close> and the choice
  of keys, \<open>mix64\<close>, \<open>keyWeight\<close> and the rejection loop \<open>pickKey\<close>. \<open>math/rand\<close> is an argument: the
  pairs of numbers its calls return. A loop that does not return is \<open>None\<close>. Its goroutines are the
  subject of \<open>LoadRun\<close>.
\<close>

unbundle bit_operations_syntax

section \<open>Flags\<close>

definition TrimSpace :: "string \<Rightarrow> string" where
  "TrimSpace s =
     (let space = (\<lambda>x :: nat \<times> string. IsSpace (fst x)) in
      concat (map snd (rev (dropWhile space (rev (dropWhile space (rune_split s)))))))"

definition splitAddrs :: "string \<Rightarrow> string list" where
  "splitAddrs s = filter (\<lambda>a. a \<noteq> []) (map TrimSpace (Split CHR '','' s))"

text \<open>Whether \<open>main\<close> goes on with these flags; the rate is a \<open>float64\<close>, of which only the sign counts.\<close>

definition loadtest_flags_ok :: "string \<Rightarrow> int64 \<Rightarrow> int64 \<Rightarrow> int64 \<Rightarrow> int64 \<Rightarrow> bool \<Rightarrow> bool" where
  "loadtest_flags_ok addrs numKeys minKeyWeight maxKeyWeight concurrency ratePositive =
     (if length (splitAddrs addrs) = 0 then False
      else if numKeys <=s 0 then False
      else if minKeyWeight <s 0 \<or> maxKeyWeight <=s 0 \<or> maxKeyWeight <s minKeyWeight then False
      else if concurrency <=s 0 then False
      else ratePositive)"

section \<open>Choosing keys\<close>

definition mix64 :: "uint64 \<Rightarrow> uint64" where
  "mix64 x =
     (let x = x XOR drop_bit 33 x;
          x = x * 0xff51afd7ed558ccd;
          x = x XOR drop_bit 33 x;
          x = x * 0xc4ceb9fe1a85ec53 in
      x XOR drop_bit 33 x)"

definition keyWeight :: "int64 \<Rightarrow> int64 \<Rightarrow> int64 \<Rightarrow> uint64 \<Rightarrow> int64" where
  "keyWeight i minWeight maxWeight seed =
     (if maxWeight <=s minWeight then minWeight
      else minWeight + mix64 (i XOR seed) mod (maxWeight - minWeight + 1))"

text \<open>\<open>draws t\<close>: what the two calls of \<open>rand.IntN\<close> return in round \<open>t\<close>.\<close>

partial_function (option) pickKey_from ::
  "(nat \<Rightarrow> int64 \<times> int64) \<Rightarrow> int64 \<Rightarrow> int64 \<Rightarrow> uint64 \<Rightarrow> nat \<Rightarrow> int64 option" where
  "pickKey_from draws minWeight maxWeight seed t =
     (if snd (draws t) <s keyWeight (fst (draws t)) minWeight maxWeight seed then Some (fst (draws t))
      else pickKey_from draws minWeight maxWeight seed (Suc t))"

definition pickKey :: "(nat \<Rightarrow> int64 \<times> int64) \<Rightarrow> int64 \<Rightarrow> int64 \<Rightarrow> uint64 \<Rightarrow> int64 option" where
  "pickKey draws minWeight maxWeight seed = pickKey_from draws minWeight maxWeight seed 0"

section \<open>Lemmas\<close>

lemma xorshift_inverse: "(x XOR drop_bit 33 x) XOR drop_bit 33 (x XOR drop_bit 33 x) = (x :: uint64)"
proof (rule bit_word_eqI)
  fix n
  show "bit ((x XOR drop_bit 33 x) XOR drop_bit 33 (x XOR drop_bit 33 x)) n = bit x n"
    using bit_imp_le_length [of x "33 + (33 + n)"] by (auto simp: bit_simps)
qed

lemma xorshift_inj: "x XOR drop_bit 33 x = y XOR drop_bit 33 y \<longleftrightarrow> x = (y :: uint64)"
  by (metis xorshift_inverse)

lemma mix_constants:
  "(0xff51afd7ed558ccd :: uint64) * 5725274745694666757 = 1"
  "(0xc4ceb9fe1a85ec53 :: uint64) * 11291846944257947611 = 1"
  by simp_all

lemma odd_mult_inverse:
  "(x :: uint64) * 0xff51afd7ed558ccd * 5725274745694666757 = x"
  "(x :: uint64) * 0xc4ceb9fe1a85ec53 * 11291846944257947611 = x"
  by (simp_all only: mult.assoc mix_constants mult_1_right)

lemma odd_mult_inj:
  "(x :: uint64) * 0xff51afd7ed558ccd = y * 0xff51afd7ed558ccd \<longleftrightarrow> x = y"
  "(x :: uint64) * 0xc4ceb9fe1a85ec53 = y * 0xc4ceb9fe1a85ec53 \<longleftrightarrow> x = y"
  by (metis odd_mult_inverse)+

lemma mix64_inj: "mix64 x = mix64 y \<longleftrightarrow> x = y"
  by (simp add: mix64_def Let_def xorshift_inj odd_mult_inj)

lemma keyWeight_range:
  assumes "0 \<le> sint mn" "sint mn \<le> sint mx"
  shows "sint mn \<le> sint (keyWeight i mn mx seed) \<and> sint (keyWeight i mn mx seed) \<le> sint mx"
proof (cases "mx <=s mn")
  case True
  with assms show ?thesis by (simp add: keyWeight_def int64_simps)
next
  case False
  let ?m = "mix64 (i XOR seed) mod (mx - mn + 1)"
  have lt: "sint mn < sint mx" using False by (simp add: int64_simps)
  have bounds: "sint mx < 2 ^ 63" using sint_bounds(2) [of mx] by simp
  have d: "sint (mx - mn) = sint mx - sint mn"
    using assms lt bounds by (intro sint_sub64) (simp add: fits64_def)
  then have ud: "uint (mx - mn) = sint mx - sint mn" using lt by (simp add: uint_sint_nonneg)
  then have "uint (mx - mn + 1) = sint mx - sint mn + 1"
    using bounds assms by (simp add: uint_plus_if')
  then have "uint ?m \<le> sint mx - sint mn"
    using lt pos_mod_bound [of "uint (mx - mn + 1)" "uint (mix64 (i XOR seed))"] by (simp add: uint_mod_distrib)
  moreover from this have "uint ?m < 2 ^ 63" using bounds assms by linarith
  then have "sint ?m = uint ?m" by (rule sint_word_of_uint)
  ultimately have m: "0 \<le> sint ?m" "sint ?m \<le> sint mx - sint mn" by simp_all
  then have "fits64 (sint mn + sint ?m)" using assms bounds by (simp add: fits64_def)
  then have "sint (mn + ?m) = sint mn + sint ?m" by (rule sint_add64)
  then show ?thesis using False m by (simp add: keyWeight_def)
qed

lemma pickKey_accepted:
  "pickKey_from draws mn mx seed t = Some i \<Longrightarrow>
    \<exists>u \<ge> t. fst (draws u) = i \<and> snd (draws u) <s keyWeight i mn mx seed"
proof (rule pickKey_from.raw_induct [where P = "\<lambda>draws mn mx seed t i.
    \<exists>u \<ge> t. fst (draws u) = i \<and> snd (draws u) <s keyWeight i mn mx seed"], goal_cases)
  case (1 f draws mn mx seed t i)
  show ?case
  proof (cases "snd (draws t) <s keyWeight (fst (draws t)) mn mx seed")
    case True
    with 1(3) have "fst (draws t) = i" by simp
    with True show ?thesis by blast
  next
    case False
    with 1(3) have "f draws mn mx seed (Suc t) = Some i" by simp
    from 1(2) [OF this] show ?thesis using Suc_leD by blast
  qed
qed

lemma pickKey_returns:
  assumes "snd (draws u) <s keyWeight (fst (draws u)) mn mx seed" "t \<le> u"
  shows "\<exists>i. pickKey_from draws mn mx seed t = Some i"
  using assms(2)
proof (induction rule: inc_induct)
  case base
  then show ?case using assms(1) by (simp add: pickKey_from.simps)
next
  case (step t)
  then show ?case by (subst pickKey_from.simps) simp
qed

text \<open>How many of the numbers below a weight's bound accept a key: as many as its weight says.\<close>

lemma card_nonneg_below: "0 \<le> sint (w :: int64) \<Longrightarrow> card {r :: int64. 0 \<le> sint r \<and> sint r < sint w} = nat (sint w)"
proof -
  assume w: "0 \<le> sint w"
  have fits: "k < sint w \<Longrightarrow> 0 \<le> k \<Longrightarrow> sint (word_of_int k :: int64) = k" for k
    using sint_bounds(2) [of w] by (intro sint_word_of_int64) (simp add: fits64_def)
  have "bij_betw sint {r :: int64. 0 \<le> sint r \<and> sint r < sint w} {0..<sint w}"
    by (rule bij_betw_byWitness [where f' = word_of_int]) (auto simp: fits)
  then show ?thesis by (simp add: bij_betw_same_card)
qed

section \<open>Properties\<close>

text \<open>
  C40 (functional). Keys are chosen in proportion to their weight. A weight lies between the two flags
  and depends on the key's index and the seed only; of the numbers \<open>rand.IntN(maxWeight)\<close> can return,
  exactly as many accept a key as its weight; and \<open>pickKey\<close> returns if and only if some draw is
  accepted, and then such a one. (With a minimum weight of 0, which the flags allow, every key may have
  the weight 0, and then it never returns.)
\<close>

theorem pickKey_weighted:
  assumes "0 \<le> sint mn" "sint mn \<le> sint mx"
  shows "sint mn \<le> sint (keyWeight i mn mx seed) \<and> sint (keyWeight i mn mx seed) \<le> sint mx
    \<and> card {r. 0 \<le> sint r \<and> sint r < sint mx \<and> r <s keyWeight i mn mx seed} = nat (sint (keyWeight i mn mx seed))
    \<and> ((\<exists>k. pickKey draws mn mx seed = Some k)
        \<longleftrightarrow> (\<exists>t. snd (draws t) <s keyWeight (fst (draws t)) mn mx seed))
    \<and> (pickKey draws mn mx seed = Some k
        \<longrightarrow> (\<exists>t. fst (draws t) = k \<and> snd (draws t) <s keyWeight k mn mx seed))"
proof -
  let ?w = "keyWeight i mn mx seed"
  note range = keyWeight_range [OF assms, of i seed]
  have "{r. 0 \<le> sint r \<and> sint r < sint mx \<and> r <s ?w} = {r. 0 \<le> sint r \<and> sint r < sint ?w}"
    using range by (auto simp: int64_simps)
  then have "card {r. 0 \<le> sint r \<and> sint r < sint mx \<and> r <s ?w} = nat (sint ?w)"
    using card_nonneg_below [of ?w] range assms(1) by simp
  with range show ?thesis
    unfolding pickKey_def using pickKey_accepted [of draws mn mx seed 0] pickKey_returns [of draws _ mn mx seed 0]
    by blast
qed

theorem pickKey_weighted_witness:
  "1 \<le> sint (keyWeight 3 1 10 31) \<and> sint (keyWeight 3 1 10 31) \<le> 10
    \<and> ((\<exists>k. pickKey (\<lambda>t. (of_nat t, 0)) 1 10 31 = Some k)
        \<longleftrightarrow> (\<exists>t. (0 :: int64) <s keyWeight (of_nat t) 1 10 31))"
  using pickKey_weighted [of 1 10 3 31 "\<lambda>t. (of_nat t, 0)"] by simp

end
