(* ===== verification/Client.thy ===== *)
theory Client
  imports ShardConnProps Fnv1a
begin

text \<open>
  \<open>client/client.go\<close> and \<open>client/simple.go\<close>: the sharded client and the one-server client over it. A
  shard is its address, its breaker and whether it was closed (a closed one fails every submission
  with \<open>net.ErrClosed\<close>, see \<open>ensureConn\<close>). \<open>None\<close> is a panic: of \<open>NewShardedClient\<close> on an empty
  address list, or of an index out of range.
\<close>

section \<open>The model\<close>

record shard_conn =
  sh_addr :: string
  sh_breaker :: circuit_breaker
  sh_closed :: bool

record sharded_client =
  c_shards :: "shard_conn list"
  c_timeout :: int64
  c_failOpen :: bool
  c_breakerFailureThreshold :: int64
  c_breakerOpenDuration :: int64

definition defaultTimeout :: int64 where "defaultTimeout = 10 * 1000000"

datatype client_option = WithTimeout int64 | WithFailClosed | WithBreaker int64 int64

fun apply_option :: "client_option \<Rightarrow> sharded_client \<Rightarrow> sharded_client" where
  "apply_option (WithTimeout d) c = c\<lparr>c_timeout := d\<rparr>"
| "apply_option WithFailClosed c = c\<lparr>c_failOpen := False\<rparr>"
| "apply_option (WithBreaker threshold d) c =
     c\<lparr>c_breakerFailureThreshold := threshold, c_breakerOpenDuration := d\<rparr>"

definition NewShardedClient :: "string list \<Rightarrow> client_option list \<Rightarrow> sharded_client option" where
  "NewShardedClient addrs opts =
     (if addrs = [] then None
      else let c = fold apply_option opts
             \<lparr>c_shards = [], c_timeout = defaultTimeout, c_failOpen = True,
              c_breakerFailureThreshold = defaultBreakerFailureThreshold,
              c_breakerOpenDuration = defaultBreakerOpenDuration\<rparr>
           in Some (c\<lparr>c_shards := map (\<lambda>addr.
                \<lparr>sh_addr = addr,
                 sh_breaker = newCircuitBreaker (c_breakerFailureThreshold c) (c_breakerOpenDuration c),
                 sh_closed = False\<rparr>) addrs\<rparr>))"

definition shardFor :: "sharded_client \<Rightarrow> string \<Rightarrow> nat option" where
  "shardFor c key = (if length (c_shards c) = 1 then Some 0 else hash_index key (length (c_shards c)))"

definition sharded_throttle ::
  "sharded_client \<Rightarrow> string \<Rightarrow> int64 \<Rightarrow> int64 \<Rightarrow> exchange_env \<Rightarrow> request_entry list
    \<Rightarrow> (sharded_client \<times> response_entry list \<times> go_err list) option" where
  "sharded_throttle c shardKey now later env entries = do {
     i \<leftarrow> shardFor c shardKey;
     s \<leftarrow> (if i < length (c_shards c) then Some (c_shards c ! i) else None);
     let env = (if sh_closed s then env\<lparr>x_submit := Some NetErrClosed\<rparr> else env);
     (b, rs, errs) \<leftarrow> shard_throttle (sh_addr s) (c_failOpen c) now later env (sh_breaker s) entries;
     Some (c\<lparr>c_shards := (c_shards c)[i := s\<lparr>sh_breaker := b\<rparr>]\<rparr>, rs, errs)
   }"

definition sharded_close :: "sharded_client \<Rightarrow> sharded_client" where
  "sharded_close c = c\<lparr>c_shards := map (\<lambda>s. s\<lparr>sh_closed := True\<rparr>) (c_shards c)\<rparr>"

text \<open>\<open>client.Client\<close>: one server, the empty shard key.\<close>

definition NewClient :: "string \<Rightarrow> client_option list \<Rightarrow> sharded_client option" where
  "NewClient addr opts = NewShardedClient [addr] opts"

definition client_throttle ::
  "sharded_client \<Rightarrow> int64 \<Rightarrow> int64 \<Rightarrow> exchange_env \<Rightarrow> request_entry list
    \<Rightarrow> (sharded_client \<times> response_entry list \<times> go_err list) option" where
  "client_throttle c now later env entries = sharded_throttle c [] now later env entries"

definition client_close :: "sharded_client \<Rightarrow> sharded_client" where
  "client_close c = sharded_close c"

section \<open>Lemmas\<close>

lemma NewShardedClient_shards:
  "NewShardedClient addrs opts = Some c \<Longrightarrow> map sh_addr (c_shards c) = addrs \<and> addrs \<noteq> []"
  by (auto simp: NewShardedClient_def Let_def comp_def split: if_splits)

lemma shardFor_hash: "c_shards c \<noteq> [] \<Longrightarrow> shardFor c key = hash_index key (length (c_shards c))"
  by (simp add: shardFor_def hash_index_def)

lemma shardFor_range:
  assumes "c_shards c \<noteq> []"
  obtains i where "shardFor c key = Some i" "i < length (c_shards c)"
  using hash_index_Some [of "length (c_shards c)" key] assms by (auto simp: shardFor_hash)

lemma sharded_throttle_eq:
  assumes "shardFor c key = Some i" "i < length (c_shards c)"
    and "env' = (if sh_closed (c_shards c ! i) then env\<lparr>x_submit := Some NetErrClosed\<rparr> else env)"
    and "call_spec (sh_addr (c_shards c ! i)) (c_failOpen c) now later env' (sh_breaker (c_shards c ! i)) es
      = (b, rs, errs)"
  shows "sharded_throttle c key now later env es
    = Some (c\<lparr>c_shards := (c_shards c)[i := (c_shards c ! i)\<lparr>sh_breaker := b\<rparr>]\<rparr>, rs, errs)"
  using assms by (simp add: sharded_throttle_def shard_throttle_eq)

text \<open>A call returns, with as many shards as before.\<close>

lemma sharded_throttle_returns:
  assumes "c_shards c \<noteq> []"
  shows "\<exists>c' resp errs. sharded_throttle c key now later env es = Some (c', resp, errs)"
proof -
  obtain i where i: "shardFor c key = Some i" "i < length (c_shards c)"
    using shardFor_range [OF assms] by blast
  obtain b rs errs where "call_spec (sh_addr (c_shards c ! i)) (c_failOpen c) now later
      (if sh_closed (c_shards c ! i) then env\<lparr>x_submit := Some NetErrClosed\<rparr> else env)
      (sh_breaker (c_shards c ! i)) es = (b, rs, errs)" by (metis prod_cases3)
  from sharded_throttle_eq [OF i refl this] show ?thesis by blast
qed

lemma sharded_throttle_shards:
  "sharded_throttle c key now later env es = Some (c', resp, errs) \<Longrightarrow>
    length (c_shards c') = length (c_shards c)"
  by (auto simp: sharded_throttle_def Let_def split: bind_splits)

lemma closed_call:
  assumes "x_submit env = Some NetErrClosed"
  shows "\<exists>err. fst (snd (call_spec addr failOpen now later env b es))
      = merge_answers es (map (failed_response failOpen err) (valid_entries es))
    \<and> (err = NetErrClosed \<or> err = ErrCircuitOpen addr)"
  using assms by (auto simp: call_spec_def Let_def exchange_end_def split: exchange_end.split)

section \<open>The properties\<close>

text \<open>
  C34 (safety). A call goes to one shard, the one its key hashes to (with one shard the modulo is not
  computed, with the same result), never panics, and leaves every other shard, its breaker included,
  as it was: a dead shard's breaker cannot cut off a healthy one. And Close is final: on a closed client
  no call returns an answer of a server; every entry with a valid key is reported by the fail-open or
  fail-closed policy, with \<open>net.ErrClosed\<close> or, once those failures have opened the breaker,
  \<open>ErrCircuitOpen\<close>.
\<close>

theorem sharded_throttle_isolated:
  assumes "c_shards c \<noteq> []"
  shows "\<exists>i c' rs errs. hash_index key (length (c_shards c)) = Some i \<and> i < length (c_shards c)
    \<and> sharded_throttle c key now later env es = Some (c', rs, errs)
    \<and> length (c_shards c') = length (c_shards c) \<and> map sh_addr (c_shards c') = map sh_addr (c_shards c)
    \<and> (\<forall>j. j \<noteq> i \<longrightarrow> c_shards c' ! j = c_shards c ! j)
    \<and> (c = sharded_close c0 \<longrightarrow>
        (\<exists>err. rs = merge_answers es (map (failed_response (c_failOpen c) err) (valid_entries es))
           \<and> (err = NetErrClosed \<or> err = ErrCircuitOpen (sh_addr (c_shards c ! i)))))"
proof -
  obtain i where i: "shardFor c key = Some i" "i < length (c_shards c)"
    using shardFor_range [OF assms] by blast
  let ?env = "if sh_closed (c_shards c ! i) then env\<lparr>x_submit := Some NetErrClosed\<rparr> else env"
  obtain b rs errs where call: "call_spec (sh_addr (c_shards c ! i)) (c_failOpen c) now later ?env
      (sh_breaker (c_shards c ! i)) es = (b, rs, errs)" by (metis prod_cases3)
  note t = sharded_throttle_eq [OF i refl call]
  have addrs: "map sh_addr ((c_shards c)[i := (c_shards c ! i)\<lparr>sh_breaker := b\<rparr>]) = map sh_addr (c_shards c)"
    using i(2) by (simp add: map_update list_update_same_conv)
  have closed: "\<exists>err. rs = merge_answers es (map (failed_response (c_failOpen c) err) (valid_entries es))
      \<and> (err = NetErrClosed \<or> err = ErrCircuitOpen (sh_addr (c_shards c ! i)))" if "c = sharded_close c0"
  proof -
    have "sh_closed (c_shards c ! i)" using i(2) unfolding that by (simp add: sharded_close_def)
    then have "x_submit ?env = Some NetErrClosed" by simp
    from closed_call [OF this, of "sh_addr (c_shards c ! i)" "c_failOpen c" now later "sh_breaker (c_shards c ! i)" es]
    show ?thesis unfolding call by simp
  qed
  show ?thesis
    by (rule exI [of _ i], rule exI [of _ "c\<lparr>c_shards := (c_shards c)[i := (c_shards c ! i)\<lparr>sh_breaker := b\<rparr>]\<rparr>"],
        rule exI [of _ rs], rule exI [of _ errs], intro conjI impI t closed)
      (use i addrs shardFor_hash [OF assms, of key] in \<open>simp_all\<close>)
qed

text \<open>A call that fails, and one on a closed client, although a line is there.\<close>

theorem sharded_throttle_isolated_witness:
  "\<exists>c i c' rs errs rs' err. NewShardedClient [''s:1'', ''s:2'', ''s:3''] [WithFailClosed] = Some c
     \<and> sharded_throttle c ''user:42'' 10 20 \<lparr>x_submit = Some (NetErr ''refused''), x_wait = WaitDone Canceled, x_ctxErr = None\<rparr>
          [example_call ''k''] = Some (c', rs, errs)
     \<and> (\<forall>j. j \<noteq> i \<longrightarrow> c_shards c' ! j = c_shards c ! j)
     \<and> map_option (\<lambda>(c, rs, errs). rs) (sharded_throttle (sharded_close c) ''user:42'' 10 20
          \<lparr>x_submit = None, x_wait = ResponseLine ''RESULT k|0|2|0'', x_ctxErr = None\<rparr> [example_call ''k'']) = Some rs'
     \<and> rs' = merge_answers [example_call ''k''] (map (failed_response False err) (valid_entries [example_call ''k'']))"
proof -
  let ?env = "\<lparr>x_submit = Some (NetErr ''refused''), x_wait = WaitDone Canceled, x_ctxErr = None\<rparr>"
    and ?line = "\<lparr>x_submit = None, x_wait = ResponseLine ''RESULT k|0|2|0'', x_ctxErr = None\<rparr>"
    and ?es = "[example_call ''k'']"
  obtain c where c: "NewShardedClient [''s:1'', ''s:2'', ''s:3''] [WithFailClosed] = Some c" "\<not> c_failOpen c"
    by (simp add: NewShardedClient_def)
  then have ne: "c_shards c \<noteq> []" using NewShardedClient_shards by fastforce
  then have ne': "c_shards (sharded_close c) \<noteq> []" and "c_failOpen (sharded_close c) = False"
    using c(2) by (simp_all add: sharded_close_def)
  then obtain rs' err where "map_option (\<lambda>(c, rs, errs). rs)
      (sharded_throttle (sharded_close c) ''user:42'' 10 20 ?line ?es) = Some rs'"
    "rs' = merge_answers ?es (map (failed_response False err) (valid_entries ?es))"
    using sharded_throttle_isolated [OF ne', of "''user:42''" 10 20 ?line ?es c] by fastforce
  with sharded_throttle_isolated [OF ne, of "''user:42''" 10 20 ?env ?es] c(1) show ?thesis by blast
qed

end
