(* ===== verification/LoadRun.thy ===== *)
theory LoadRun
  imports LoadTest Client
begin

text \<open>
  A run of the load generator (\<open>main\<close>, \<open>rateTicker\<close>, \<open>generateWork\<close> and \<open>runWorker\<close> of
  \<open>tools/loadtest/main.go\<close>): one goroutine ticks, one picks keys and puts them into a bounded channel,
  the workers take them out and call the sharded client, and \<open>main\<close> reports until the workers are done.
  Each step is one channel operation, one call or one report. The lemmas show that a run whose context
  has ended comes to an end, with every key sent in its final report, unless \<open>main\<close> panics over its
  report interval.
\<close>

section \<open>The state\<close>

record load_flags =
  f_addrs :: string
  f_numKeys :: int64
  f_minKeyWeight :: int64
  f_maxKeyWeight :: int64
  f_ratePositive :: bool
  f_concurrency :: int64
  f_reportInterval :: int64
  f_requestTimeout :: int64
  f_failClosed :: bool
  f_keyPrefix :: string
  f_capacity :: int64
  f_emissionInterval :: int64
  f_cost :: int64
  f_peek :: bool
  f_seed :: uint64

text \<open>
  Where the goroutines are. The unbuffered channel of \<open>rateTicker\<close> holds nothing: a tick goes over
  when the ticker is \<open>TickReady\<close> and the generator selects.
\<close>

datatype ticker_pc = TickWait | TickReady | TickClosed
datatype gen_pc = GenSelect | GenPick | GenSend string | GenClosed
datatype worker_pc = WorkerIdle | WorkerBusy string | WorkerDone

text \<open>\<open>main\<close>: before \<open>time.NewTicker(*reportInterval)\<close>, in its loop, or over.\<close>

datatype load_pc = Starting | Reporting | Returned report | Panicked

text \<open>Why \<open>main\<close> may not get to start its goroutines: a \<open>log.Fatal\<close> about the flags, or a panic.\<close>

datatype start_failure = LogFatal | StartPanic

text \<open>
  \<open>l_ticks\<close>, \<open>l_taken\<close> and \<open>l_log\<close> are not in the code: the number of ticks so far, the keys the
  workers have taken, and what was done to the statistics.
\<close>

record load_run =
  l_seed :: uint64
  l_ctxDone :: bool
  l_ticker :: ticker_pc
  l_gen :: gen_pc
  l_work :: "string list"
  l_workers :: "(sharded_client \<times> worker_pc) list"
  l_stats :: stats
  l_done :: bool
  l_main :: load_pc
  l_ticks :: nat
  l_taken :: "string list"
  l_log :: "stats_event list"

definition worker_options :: "load_flags \<Rightarrow> client_option list" where
  "worker_options f = [WithTimeout (f_requestTimeout f)] @ (if f_failClosed f then [WithFailClosed] else [])"

text \<open>
  The size of the channel, a product that may wrap, and what \<open>make\<close> does with it: a negative size, or
  one whose strings (16 bytes each) do not fit the address space of 64-bit Go, is a panic.
\<close>

definition work_capacity :: "load_flags \<Rightarrow> int64" where
  "work_capacity f = f_concurrency f * 4"

definition make_chan_ok :: "int64 \<Rightarrow> bool" where
  "make_chan_ok n \<longleftrightarrow> 0 \<le> sint n \<and> sint n * 16 \<le> 2 ^ 48 - 96"

text \<open>
  \<open>main\<close> up to its ticker, with the goroutines started; \<open>rand64\<close> is what \<open>rand.Uint64\<close> returns.
\<close>

definition start_load :: "load_flags \<Rightarrow> uint64 \<Rightarrow> start_failure + load_run" where
  "start_load f rand64 =
     (let addrs = splitAddrs (f_addrs f) in
      if \<not> loadtest_flags_ok (f_addrs f) (f_numKeys f) (f_minKeyWeight f) (f_maxKeyWeight f)
             (f_concurrency f) (f_ratePositive f) then Inl LogFatal
      else if \<not> make_chan_ok (work_capacity f) then Inl StartPanic
      else case NewShardedClient addrs (worker_options f) of None \<Rightarrow> Inl StartPanic
      | Some c \<Rightarrow>
        Inr \<lparr>l_seed = (if f_seed f = 0 then rand64 else f_seed f), l_ctxDone = False, l_ticker = TickWait, l_gen = GenSelect, l_work = [],
          l_workers = replicate (nat (sint (f_concurrency f))) (c, WorkerIdle),
          l_stats = newStats, l_done = False, l_main = Starting, l_ticks = 0, l_taken = [], l_log = []\<rparr>)"

definition load_limit :: "load_flags \<Rightarrow> limit" where
  "load_limit f = \<lparr>l_Capacity = f_capacity f, l_Rate = \<lparr>r_Units = 1, r_Period = f_emissionInterval f\<rparr>\<rparr>"

text \<open>What \<open>rand.IntN\<close> may return in the rounds of \<open>pickKey\<close>.\<close>

definition rand_draws :: "load_flags \<Rightarrow> (nat \<Rightarrow> int64 \<times> int64) \<Rightarrow> bool" where
  "rand_draws f draws \<longleftrightarrow> (\<forall>t. 0 \<le> sint (fst (draws t)) \<and> sint (fst (draws t)) < sint (f_numKeys f)
     \<and> 0 \<le> sint (snd (draws t)) \<and> sint (snd (draws t)) < sint (f_maxKeyWeight f))"

text \<open>The flags as they are declared; \<open>-duration\<close> is when the context ends, \<open>-rate\<close> how often the ticker fires.\<close>

definition load_defaults :: load_flags where
  "load_defaults = \<lparr>f_addrs = ''localhost:9000'', f_numKeys = 1000000, f_minKeyWeight = 1, f_maxKeyWeight = 10,
     f_ratePositive = True, f_concurrency = 200, f_reportInterval = 1 * 1000000000,
     f_requestTimeout = 2 * 1000000000, f_failClosed = False, f_keyPrefix = ''loadtest'', f_capacity = 1000,
     f_emissionInterval = 1 * 1000000, f_cost = 1, f_peek = False, f_seed = 0\<rparr>"

text \<open>One turn of a worker's loop: the client after it, and whether the request was throttled and failed.\<close>

definition worker_call ::
  "load_flags \<Rightarrow> sharded_client \<Rightarrow> string \<Rightarrow> int64 \<Rightarrow> int64 \<Rightarrow> exchange_env
    \<Rightarrow> (sharded_client \<times> bool \<times> bool) option" where
  "worker_call f c key now later env =
     (let entry = \<lparr>q_Key = key, q_Limit = load_limit f, q_Cost = f_cost f, q_Peek = f_peek f\<rparr> in do {
        (c, resp, errs) \<leftarrow> sharded_throttle c key now later env [entry];
        let throttled = (0 < length resp \<and> s_Throttled (hd resp)) in
        Some (c, throttled, errs \<noteq> [])
      })"

section \<open>The steps\<close>

text \<open>
  \<open>rateTicker\<close>; the ticker fires when it likes. A \<open>select\<close> with several cases ready takes any, so
  that a tick can win against the end of the context.
\<close>

inductive ticker_step :: "load_run \<Rightarrow> load_run \<Rightarrow> bool" where
  tick: "l_ticker s = TickWait \<Longrightarrow> ticker_step s (s\<lparr>l_ticker := TickReady, l_ticks := l_ticks s + 1\<rparr>)"

inductive ticker_end :: "load_run \<Rightarrow> load_run \<Rightarrow> bool" where
  ticker_done: "l_ctxDone s \<Longrightarrow> l_ticker s \<noteq> TickClosed \<Longrightarrow> ticker_end s (s\<lparr>l_ticker := TickClosed\<rparr>)"

text \<open>\<open>generateWork\<close>: \<open>draws\<close> is what \<open>math/rand\<close> returns in this call of \<open>pickKey\<close>.\<close>

inductive gen_step :: "load_flags \<Rightarrow> load_run \<Rightarrow> load_run \<Rightarrow> bool" for f where
  gen_done: "l_gen s = GenSelect \<Longrightarrow> l_ctxDone s \<or> l_ticker s = TickClosed \<Longrightarrow>
     gen_step f s (s\<lparr>l_gen := GenClosed\<rparr>)"
| gen_tick: "l_gen s = GenSelect \<Longrightarrow> l_ticker s = TickReady \<Longrightarrow>
     gen_step f s (s\<lparr>l_gen := GenPick, l_ticker := TickWait\<rparr>)"
| gen_pick: "l_gen s = GenPick \<Longrightarrow> rand_draws f draws \<Longrightarrow>
     pickKey draws (f_minKeyWeight f) (f_maxKeyWeight f) (l_seed s) = Some i \<Longrightarrow>
     gen_step f s (s\<lparr>l_gen := GenSend (f_keyPrefix f @ ''-'' @ FormatInt i)\<rparr>)"
| gen_send: "l_gen s = GenSend key \<Longrightarrow> int (length (l_work s)) < sint (work_capacity f) \<Longrightarrow>
     gen_step f s (s\<lparr>l_gen := GenSelect, l_work := l_work s @ [key]\<rparr>)"
| gen_gives_up: "l_gen s = GenSend key \<Longrightarrow> l_ctxDone s \<Longrightarrow> gen_step f s (s\<lparr>l_gen := GenClosed\<rparr>)"

text \<open>
  Worker \<open>i\<close>: the loop over the channel, which ends when it is closed and empty; then the client is
  closed and the wait group told. The clock and the network of a call, and the time it took, are open.
\<close>

inductive worker_step :: "load_flags \<Rightarrow> nat \<Rightarrow> load_run \<Rightarrow> load_run \<Rightarrow> bool" for f i where
  takes: "i < length (l_workers s) \<Longrightarrow> l_workers s ! i = (c, WorkerIdle) \<Longrightarrow> l_work s = key # work \<Longrightarrow>
     worker_step f i s (s\<lparr>l_workers := (l_workers s)[i := (c, WorkerBusy key)], l_work := work,
       l_taken := l_taken s @ [key]\<rparr>)"
| calls: "i < length (l_workers s) \<Longrightarrow> l_workers s ! i = (c, WorkerBusy key) \<Longrightarrow>
     worker_call f c key now later env = Some (c', throttled, errored) \<Longrightarrow>
     worker_step f i s (s\<lparr>l_workers := (l_workers s)[i := (c', WorkerIdle)],
       l_stats := stats_record (l_stats s) elapsed throttled errored,
       l_log := l_log s @ [Recorded elapsed throttled errored]\<rparr>)"
| ends: "i < length (l_workers s) \<Longrightarrow> l_workers s ! i = (c, WorkerIdle) \<Longrightarrow> l_work s = [] \<Longrightarrow>
     l_gen s = GenClosed \<Longrightarrow>
     worker_step f i s (s\<lparr>l_workers := (l_workers s)[i := (sharded_close c, WorkerDone)]\<rparr>)"

text \<open>The goroutine that waits for the workers; the final report of \<open>main\<close>, and the periodic ones.\<close>

inductive wait_step :: "load_run \<Rightarrow> load_run \<Rightarrow> bool" where
  all_done: "\<not> l_done s \<Longrightarrow> list_all (\<lambda>w. snd w = WorkerDone) (l_workers s) \<Longrightarrow>
     wait_step s (s\<lparr>l_done := True\<rparr>)"

inductive main_end :: "load_run \<Rightarrow> load_run \<Rightarrow> bool" where
  total: "l_done s \<Longrightarrow> final_report (l_stats s) elapsed = (st, r) \<Longrightarrow>
     main_end s (s\<lparr>l_stats := st, l_main := (case r of None \<Rightarrow> Panicked | Some r \<Rightarrow> Returned r)\<rparr>)"

inductive report_step :: "load_flags \<Rightarrow> load_run \<Rightarrow> load_run \<Rightarrow> bool" for f where
  reports: "snapshot (l_stats s) (f_reportInterval f) = (st, r) \<Longrightarrow>
     report_step f s (s\<lparr>l_stats := st, l_main := (case r of None \<Rightarrow> Panicked | Some r \<Rightarrow> Reporting),
       l_log := l_log s @ [Snapshot (f_reportInterval f)]\<rparr>)"

text \<open>\<open>main\<close> makes its ticker; \<open>time.NewTicker\<close> panics if the interval is not positive.\<close>

definition make_ticker :: "load_flags \<Rightarrow> load_run \<Rightarrow> load_run" where
  "make_ticker f s = s\<lparr>l_main := (if f_reportInterval f \<le>s 0 then Panicked else Reporting)\<rparr>"

text \<open>
  All of it, until \<open>main\<close> returns or panics: the steps of the clocks, with the deadline or interrupt
  that ends the context, and those of the goroutines, which run while \<open>main\<close> is starting or in its loop.
\<close>

definition running :: "load_run \<Rightarrow> bool" where
  "running s \<longleftrightarrow> l_main s = Starting \<or> l_main s = Reporting"

inductive clock_step :: "load_flags \<Rightarrow> load_run \<Rightarrow> load_run \<Rightarrow> bool" for f where
  ticks: "running s \<Longrightarrow> ticker_step s s' \<Longrightarrow> clock_step f s s'"
| reports: "l_main s = Reporting \<Longrightarrow> report_step f s s' \<Longrightarrow> clock_step f s s'"
| ctx: "running s \<Longrightarrow> clock_step f s (s\<lparr>l_ctxDone := True\<rparr>)"

inductive run_step :: "load_flags \<Rightarrow> load_run \<Rightarrow> load_run \<Rightarrow> bool" for f where
  ticker: "running s \<Longrightarrow> ticker_end s s' \<Longrightarrow> run_step f s s'"
| gen: "running s \<Longrightarrow> gen_step f s s' \<Longrightarrow> run_step f s s'"
| worker: "running s \<Longrightarrow> worker_step f i s s' \<Longrightarrow> run_step f s s'"
| starts: "l_main s = Starting \<Longrightarrow> run_step f s (make_ticker f s)"
| waits: "running s \<Longrightarrow> wait_step s s' \<Longrightarrow> run_step f s s'"
| main: "l_main s = Reporting \<Longrightarrow> main_end s s' \<Longrightarrow> run_step f s s'"

text \<open>A run with a number of steps of the goroutines.\<close>

inductive load_steps :: "load_flags \<Rightarrow> nat \<Rightarrow> load_run \<Rightarrow> load_run \<Rightarrow> bool" for f where
  none: "load_steps f 0 s s"
| clock: "load_steps f n s s' \<Longrightarrow> clock_step f s' s'' \<Longrightarrow> load_steps f n s s''"
| run: "load_steps f n s s' \<Longrightarrow> run_step f s' s'' \<Longrightarrow> load_steps f (Suc n) s s''"

section \<open>The invariant\<close>

fun busy :: "worker_pc \<Rightarrow> nat" where
  "busy (WorkerBusy key) = 1"
| "busy WorkerIdle = 0"
| "busy WorkerDone = 0"

text \<open>
  A worker ends only once the channel is closed and empty; each key taken is in the hands of a worker
  or has been requested; the clients have shards to send to.
\<close>

definition workers_inv :: "load_flags \<Rightarrow> load_run \<Rightarrow> bool" where
  "workers_inv f s \<longleftrightarrow> length (l_workers s) = nat (sint (f_concurrency f))
     \<and> (\<forall>w \<in> set (l_workers s). c_shards (fst w) \<noteq> [])
     \<and> ((\<exists>w \<in> set (l_workers s). snd w = WorkerDone) \<longrightarrow> l_gen s = GenClosed \<and> l_work s = [])
     \<and> (l_done s \<longrightarrow> (\<forall>w \<in> set (l_workers s). snd w = WorkerDone))
     \<and> length (l_taken s) = (\<Sum>w \<leftarrow> l_workers s. busy (snd w)) + length (samples (l_log s))
     \<and> int (length (l_work s)) \<le> sint (work_capacity f)"

text \<open>The statistics are those of what was recorded, and so is the final report.\<close>

definition stats_inv :: "load_flags \<Rightarrow> load_run \<Rightarrow> bool" where
  "stats_inv f s \<longleftrightarrow> (running s \<longrightarrow> l_stats s = stats_run newStats (l_log s))
     \<and> (sint (f_reportInterval f) \<le> 0 \<longrightarrow> l_main s = Starting \<or> l_main s = Panicked)
     \<and> (l_main s = Panicked \<longrightarrow> sint (f_reportInterval f) \<le> 0 \<or> 2 ^ 53 < length (samples (l_log s)))
     \<and> (\<forall>r. l_main s = Returned r \<longrightarrow> l_done s
          \<and> (length (samples (l_log s)) \<le> 2 ^ 53 \<longrightarrow> report_covers r (l_log s)))"

lemma worker_call_returns:
  "c_shards c \<noteq> [] \<Longrightarrow> \<exists>c' throttled errored. worker_call f c key now later env = Some (c', throttled, errored)"
  using sharded_throttle_returns [of c key now later env
      "[\<lparr>q_Key = key, q_Limit = load_limit f, q_Cost = f_cost f, q_Peek = f_peek f\<rparr>]"]
  by (auto simp: worker_call_def Let_def)

lemma worker_call_shards:
  "worker_call f c key now later env = Some (c', throttled, errored) \<Longrightarrow> length (c_shards c') = length (c_shards c)"
  by (auto simp: worker_call_def Let_def dest: sharded_throttle_shards split: bind_splits)

lemma start_load_inv:
  assumes "start_load f rand64 = Inr s"
  shows "workers_inv f s" "stats_inv f s" "0 < sint (f_concurrency f)" "0 < sint (f_numKeys f)"
    "sint (f_minKeyWeight f) \<le> sint (f_maxKeyWeight f)" "\<not> l_ctxDone s" "l_main s = Starting"
proof -
  obtain c where c: "NewShardedClient (splitAddrs (f_addrs f)) (worker_options f) = Some c"
    and s: "s = \<lparr>l_seed = (if f_seed f = 0 then rand64 else f_seed f), l_ctxDone = False, l_ticker = TickWait,
      l_gen = GenSelect, l_work = [], l_workers = replicate (nat (sint (f_concurrency f))) (c, WorkerIdle),
      l_stats = newStats, l_done = False, l_main = Starting, l_ticks = 0, l_taken = [], l_log = []\<rparr>"
    and ok: "loadtest_flags_ok (f_addrs f) (f_numKeys f) (f_minKeyWeight f) (f_maxKeyWeight f)
      (f_concurrency f) (f_ratePositive f)"
    and chan: "make_chan_ok (work_capacity f)"
    using assms by (auto simp: start_load_def Let_def split: if_splits option.splits)
  have "c_shards c \<noteq> []" using NewShardedClient_shards [OF c] by auto
  then show "workers_inv f s" using chan unfolding s by (auto simp: workers_inv_def sum_list_replicate make_chan_ok_def)
  show "stats_inv f s" "\<not> l_ctxDone s" "l_main s = Starting" unfolding s by (simp_all add: stats_inv_def)
  show "0 < sint (f_concurrency f)" "0 < sint (f_numKeys f)"
    "sint (f_minKeyWeight f) \<le> sint (f_maxKeyWeight f)"
    using ok by (auto simp: loadtest_flags_ok_def int64_simps split: if_splits)
qed

lemma worker_step_workers_inv:
  assumes "worker_step f i s s'" "workers_inv f s"
  shows "workers_inv f s'"
proof -
  have upd: "(\<forall>w \<in> set ((l_workers s)[i := w']). P w)" if "\<forall>w \<in> set (l_workers s). P w" "P w'" for P w'
    using that set_update_subset_insert [of "l_workers s" i w'] by auto
  have mem: "l_workers s ! i \<in> set (l_workers s)" if "i < length (l_workers s)" using that by simp
  show ?thesis
    using assms(1)
  proof cases
    case (takes c key work)
    have "\<forall>w \<in> set (l_workers s). snd w \<noteq> WorkerDone" using assms(2) takes(4) by (auto simp: workers_inv_def)
    from upd [OF this, of "(c, WorkerBusy key)"]
    have live: "\<forall>w \<in> set ((l_workers s)[i := (c, WorkerBusy key)]). snd w \<noteq> WorkerDone" by simp
    have "\<forall>w \<in> set ((l_workers s)[i := (c, WorkerBusy key)]). c_shards (fst w) \<noteq> []"
      using assms(2) mem takes(2,3) by (intro upd) (auto simp: workers_inv_def)
    moreover have "\<not> l_done s" using assms(2) mem [OF takes(2)] takes(3) by (auto simp: workers_inv_def)
    ultimately show ?thesis
      using assms(2) takes live sum_map_update [OF takes(2), of "\<lambda>w. busy (snd w)" "(c, WorkerBusy key)"]
      by (simp add: workers_inv_def)
  next
    case (calls c key now later env c' throttled errored elapsed)
    have "c_shards c \<noteq> []" using assms(2) mem [OF calls(2)] calls(3) by (auto simp: workers_inv_def)
    then have "c_shards c' \<noteq> []" using worker_call_shards [OF calls(4)] by auto
    then have "\<forall>w \<in> set ((l_workers s)[i := (c', WorkerIdle)]). c_shards (fst w) \<noteq> []"
      using assms(2) by (intro upd) (auto simp: workers_inv_def)
    moreover have "\<not> l_done s" using assms(2) mem [OF calls(2)] calls(3) by (auto simp: workers_inv_def)
    moreover have "\<exists>w \<in> set (l_workers s). snd w = WorkerDone"
      if "\<exists>w \<in> set ((l_workers s)[i := (c', WorkerIdle)]). snd w = WorkerDone"
      using that upd [of "\<lambda>w. snd w \<noteq> WorkerDone" "(c', WorkerIdle)"] by auto
    ultimately show ?thesis
      using assms(2) calls(1,3) sum_map_update [OF calls(2), of "\<lambda>w. busy (snd w)" "(c', WorkerIdle)"]
      by (simp add: workers_inv_def)
  next
    case (ends c)
    have "c_shards c \<noteq> []" using assms(2) mem [OF ends(2)] ends(3) by (auto simp: workers_inv_def)
    then have "\<forall>w \<in> set ((l_workers s)[i := (sharded_close c, WorkerDone)]). c_shards (fst w) \<noteq> []"
      using assms(2) by (intro upd) (auto simp: workers_inv_def sharded_close_def)
    moreover have "\<not> l_done s" using assms(2) mem [OF ends(2)] ends(3) by (auto simp: workers_inv_def)
    ultimately show ?thesis
      using assms(2) ends sum_map_update [OF ends(2), of "\<lambda>w. busy (snd w)" "(sharded_close c, WorkerDone)"]
      by (simp add: workers_inv_def)
  qed
qed

lemma gen_step_workers_inv:
  assumes "gen_step f s s'" "workers_inv f s"
  shows "workers_inv f s'"
  using assms(1) by cases (use assms(2) in \<open>auto simp: workers_inv_def\<close>)

lemma main_end_workers_inv:
  assumes "main_end s s' \<or> wait_step s s' \<or> s' = make_ticker f s" "workers_inv f s"
  shows "workers_inv f s'"
proof -
  have "wait_step s s' \<Longrightarrow> workers_inv f s'"
    by (erule wait_step.cases) (use assms(2) in \<open>simp add: workers_inv_def list_all_iff\<close>)
  then show ?thesis using assms by (auto elim!: main_end.cases simp: workers_inv_def make_ticker_def)
qed

lemma clock_step_workers_inv:
  assumes "clock_step f s s'" "workers_inv f s"
  shows "workers_inv f s'"
  using assms(1)
proof cases
  case ticks
  from ticks(2) assms(2) show ?thesis by cases (auto simp: workers_inv_def)
next
  case reports
  from reports(2) assms(2) show ?thesis by cases (auto simp: workers_inv_def)
next
  case ctx
  with assms(2) show ?thesis by (simp add: workers_inv_def)
qed

lemma run_step_workers_inv:
  assumes "run_step f s s'" "workers_inv f s"
  shows "workers_inv f s'"
  using assms(1)
proof cases
  case ticker
  from ticker(2) assms(2) show ?thesis by cases (auto simp: workers_inv_def)
qed (use assms(2) gen_step_workers_inv worker_step_workers_inv main_end_workers_inv in blast)+

lemma clock_step_stats_inv:
  assumes "clock_step f s s'" "stats_inv f s"
  shows "stats_inv f s'"
  using assms(1)
proof cases
  case ticks
  from ticks(2) assms(2) show ?thesis by cases (auto simp: stats_inv_def running_def)
next
  case reports
  from reports(2) show ?thesis
  proof cases
    case (reports st r)
    have stats: "l_stats s = stats_run newStats (l_log s)" "\<not> sint (f_reportInterval f) \<le> 0"
      using assms(2) \<open>l_main s = Reporting\<close> by (auto simp: stats_inv_def running_def)
    then have "st = stats_run newStats (l_log s @ [Snapshot (f_reportInterval f)])"
      using reports(2) stats(1) by (simp add: stats_run_append)
    moreover have "2 ^ 53 < length (samples (l_log s))" if "r = None"
    proof (rule ccontr)
      assume "\<not> 2 ^ 53 < length (samples (l_log s))"
      then have "length (t_intervalLatencies (l_stats s)) \<le> 2 ^ 53"
        using interval_latencies [of "l_log s"] stats(1) by simp
      from buildReport_small [OF this, of "t_intervalThrottled (l_stats s)" "t_intervalErrors (l_stats s)"
          "f_reportInterval f"] reports(2) that
      show False by (auto simp: snapshot_def)
    qed
    ultimately show ?thesis using reports(1) stats(2) by (cases r) (simp_all add: stats_inv_def running_def)
  qed
next
  case ctx
  with assms(2) show ?thesis by (auto simp: stats_inv_def running_def)
qed

lemma run_step_stats_inv:
  assumes "run_step f s s'" "stats_inv f s"
  shows "stats_inv f s'"
  using assms(1)
proof cases
  case ticker
  from ticker(2) assms(2) show ?thesis by cases (auto simp: stats_inv_def running_def)
next
  case gen
  from gen(2) assms(2) show ?thesis by cases (auto simp: stats_inv_def running_def)
next
  case (worker i)
  from worker(2) show ?thesis
    by cases (use assms(2) worker(1) in \<open>auto simp: stats_inv_def stats_run_append running_def\<close>)
next
  case starts
  with assms(2) show ?thesis by (auto simp: stats_inv_def running_def make_ticker_def word_sle_eq)
next
  case waits
  from waits(2) assms(2) show ?thesis by cases (auto simp: stats_inv_def running_def)
next
  case main
  from main(2) show ?thesis
  proof cases
    case (total elapsed st r)
    have stats: "l_stats s = stats_run newStats (l_log s)" "\<not> sint (f_reportInterval f) \<le> 0"
      using assms(2) main(1) by (auto simp: stats_inv_def running_def)
    then have "\<exists>r'. r = Some r' \<and> report_covers r' (l_log s)" if "length (samples (l_log s)) \<le> 2 ^ 53"
      using final_report_covers [OF that, of elapsed] total(3) by simp
    then show ?thesis using total stats(2) by (cases r) (auto simp: stats_inv_def running_def not_less [symmetric])
  qed
qed

definition load_inv :: "load_flags \<Rightarrow> load_run \<Rightarrow> bool" where
  "load_inv f s \<longleftrightarrow> workers_inv f s \<and> stats_inv f s"

lemma load_steps_inv: "load_steps f n s s' \<Longrightarrow> load_inv f s \<Longrightarrow> load_inv f s'"
  by (induction rule: load_steps.induct)
    (auto simp: load_inv_def intro: clock_step_workers_inv run_step_workers_inv
      clock_step_stats_inv run_step_stats_inv)

section \<open>What is left to do\<close>

text \<open>Each tick makes at most five steps: it is handed over, and its key picked, sent, taken and requested.\<close>

fun ticker_rank :: "ticker_pc \<Rightarrow> nat" where
  "ticker_rank TickWait = 1"
| "ticker_rank TickReady = 6"
| "ticker_rank TickClosed = 0"

fun gen_rank :: "gen_pc \<Rightarrow> nat" where
  "gen_rank GenSelect = 1"
| "gen_rank GenPick = 5"
| "gen_rank (GenSend key) = 4"
| "gen_rank GenClosed = 0"

fun worker_rank :: "worker_pc \<Rightarrow> nat" where
  "worker_rank WorkerIdle = 1"
| "worker_rank (WorkerBusy key) = 2"
| "worker_rank WorkerDone = 0"

definition load_rank :: "load_run \<Rightarrow> nat" where
  "load_rank s = ticker_rank (l_ticker s) + gen_rank (l_gen s) + 2 * length (l_work s)
     + (\<Sum>w \<leftarrow> l_workers s. worker_rank (snd w)) + (if l_done s then 0 else 1)
     + (case l_main s of Starting \<Rightarrow> 2 | Reporting \<Rightarrow> 1 | _ \<Rightarrow> 0)"

lemma worker_step_rank:
  assumes "worker_step f i s s'"
  shows "load_rank s' < load_rank s"
  using assms
proof cases
  case (takes c key work)
  then show ?thesis
    using sum_map_update [OF takes(2), of "\<lambda>w. worker_rank (snd w)" "(c, WorkerBusy key)"] by (simp add: load_rank_def)
next
  case (calls c key now later env c' throttled errored elapsed)
  then show ?thesis
    using sum_map_update [OF calls(2), of "\<lambda>w. worker_rank (snd w)" "(c', WorkerIdle)"] by (simp add: load_rank_def)
next
  case (ends c)
  then show ?thesis
    using sum_map_update [OF ends(2), of "\<lambda>w. worker_rank (snd w)" "(sharded_close c, WorkerDone)"]
    by (simp add: load_rank_def)
qed

lemma run_step_rank:
  assumes "run_step f s s'"
  shows "load_rank s' < load_rank s \<and> l_ticks s' = l_ticks s"
  using assms
proof cases
  case ticker
  from ticker(2) show ?thesis by cases (cases "l_ticker s"; simp add: load_rank_def)
next
  case gen
  from gen(2) show ?thesis by cases (auto simp: load_rank_def)
next
  case (worker i)
  from worker(2) have "l_ticks s' = l_ticks s" by cases simp_all
  with worker_step_rank [OF worker(2)] show ?thesis by simp
next
  case starts
  then show ?thesis by (simp add: load_rank_def make_ticker_def)
next
  case waits
  from waits(2) show ?thesis by cases (auto simp: load_rank_def)
next
  case main
  from main(2) show ?thesis
    by cases (use main(1) in \<open>auto simp: load_rank_def split: option.splits\<close>)
qed

lemma clock_step_rank:
  assumes "clock_step f s s'"
  shows "load_rank s' + 5 * l_ticks s \<le> load_rank s + 5 * l_ticks s'"
  using assms
proof cases
  case ticks
  from ticks(2) show ?thesis by cases (simp add: load_rank_def)
next
  case reports
  from reports(2) show ?thesis by cases (auto simp: load_rank_def \<open>l_main s = Reporting\<close> split: option.splits)
next
  case ctx
  then show ?thesis by (simp add: load_rank_def)
qed

lemma load_steps_rank: "load_steps f n s s' \<Longrightarrow> load_rank s' + n + 5 * l_ticks s \<le> load_rank s + 5 * l_ticks s'"
proof (induction rule: load_steps.induct)
  case (clock n s s' s'')
  with clock_step_rank [OF clock.hyps(2)] show ?case by linarith
next
  case (run n s s' s'')
  with run_step_rank [OF run.hyps(2)] show ?case by auto
qed simp

lemma work_capacity_le:
  assumes "0 < sint (f_concurrency f)"
  shows "sint (work_capacity f) \<le> 4 * sint (f_concurrency f)"
proof (cases "fits64 (sint (f_concurrency f) * 4)")
  case True
  then show ?thesis by (simp add: work_capacity_def sint_mult64)
next
  case False
  then have "2 ^ 63 \<le> 4 * sint (f_concurrency f)" using assms by (simp add: fits64_def)
  moreover have "sint (work_capacity f) < 2 ^ 63" using sint_bounds(2) [of "work_capacity f"] by simp
  ultimately show ?thesis by linarith
qed

lemma load_rank_bound:
  assumes "workers_inv f s"
    and "0 < sint (f_concurrency f)"
  shows "load_rank s \<le> 14 + 10 * nat (sint (f_concurrency f))"
proof -
  have one: "worker_rank w \<le> 2" for w by (cases w) simp_all
  have "(\<Sum>w \<leftarrow> ws. worker_rank (snd w)) \<le> 2 * length ws" for ws :: "(sharded_client \<times> worker_pc) list"
    by (induction ws) (use one in \<open>auto intro: order_trans [OF add_mono [OF one]]\<close>)
  from this [of "l_workers s"] have "(\<Sum>w \<leftarrow> l_workers s. worker_rank (snd w)) \<le> 2 * nat (sint (f_concurrency f))"
    using assms by (simp add: workers_inv_def)
  moreover have "ticker_rank (l_ticker s) \<le> 6" by (cases "l_ticker s") simp_all
  moreover have "gen_rank (l_gen s) \<le> 5" by (cases "l_gen s") simp_all
  moreover have "length (l_work s) \<le> 4 * nat (sint (f_concurrency f))"
    using assms(1) work_capacity_le [OF assms(2)] by (auto simp: workers_inv_def)
  moreover have "(case l_main s of Starting \<Rightarrow> 2 | Reporting \<Rightarrow> 1 | _ \<Rightarrow> 0) \<le> (2 :: nat)" by (cases "l_main s") simp_all
  ultimately show ?thesis by (simp add: load_rank_def)
qed

text \<open>No key put into the channel is lost, and none overtakes another.\<close>

lemma clock_step_keys: "clock_step f s s' \<Longrightarrow> l_taken s' = l_taken s \<and> l_work s' = l_work s"
  by (erule clock_step.cases) (auto elim!: ticker_step.cases report_step.cases)

lemma run_step_keys:
  assumes "run_step f s s'"
  shows "\<exists>more. l_taken s' @ l_work s' = l_taken s @ l_work s @ more"
  using assms
proof cases
  case ticker
  from ticker(2) show ?thesis by cases simp
next
  case gen
  from gen(2) show ?thesis by cases auto
next
  case (worker i)
  from worker(2) show ?thesis by cases auto
next
  case starts
  then show ?thesis by (simp add: make_ticker_def)
next
  case waits
  from waits(2) show ?thesis by cases simp
next
  case main
  from main(2) show ?thesis by cases auto
qed

lemma load_steps_keys:
  "load_steps f n s s' \<Longrightarrow> \<exists>more. l_taken s' @ l_work s' = l_taken s @ l_work s @ more"
proof (induction rule: load_steps.induct)
  case (clock n s s' s'')
  with clock_step_keys [OF clock.hyps(2)] show ?case by simp
next
  case (run n s s' s'')
  from run.IH obtain more where "l_taken s' @ l_work s' = l_taken s @ l_work s @ more" by blast
  moreover obtain more' where "l_taken s'' @ l_work s'' = l_taken s' @ l_work s' @ more'"
    using run_step_keys [OF run.hyps(2)] by blast
  ultimately have "l_taken s'' @ l_work s'' = l_taken s @ l_work s @ more @ more'" by (metis append.assoc)
  then show ?case by blast
qed simp

section \<open>Progress\<close>

text \<open>With a positive least weight \<open>pickKey\<close> can return.\<close>

lemma pick_progress:
  assumes "0 < sint (f_numKeys f)" "0 < sint (f_minKeyWeight f)" "sint (f_minKeyWeight f) \<le> sint (f_maxKeyWeight f)"
  shows "\<exists>draws i. rand_draws f draws \<and> pickKey draws (f_minKeyWeight f) (f_maxKeyWeight f) seed = Some i"
proof -
  let ?draws = "\<lambda>_ :: nat. (0 :: int64, 0 :: int64)"
  have "0 < sint (keyWeight 0 (f_minKeyWeight f) (f_maxKeyWeight f) seed)"
    using keyWeight_range [of "f_minKeyWeight f" "f_maxKeyWeight f" 0 seed] assms(2,3) by simp
  then have "snd (?draws 0) <s keyWeight (fst (?draws 0)) (f_minKeyWeight f) (f_maxKeyWeight f) seed"
    by (simp add: int64_simps)
  from pickKey_returns [of ?draws 0, OF this order_refl]
  have "\<exists>i. pickKey ?draws (f_minKeyWeight f) (f_maxKeyWeight f) seed = Some i" by (simp add: pickKey_def)
  moreover have "rand_draws f ?draws" using assms by (simp add: rand_draws_def)
  ultimately show ?thesis by blast
qed

lemma gen_progress:
  assumes "l_ctxDone s" "l_gen s \<noteq> GenClosed"
    and "0 < sint (f_numKeys f)" "0 < sint (f_minKeyWeight f)" "sint (f_minKeyWeight f) \<le> sint (f_maxKeyWeight f)"
  shows "\<exists>s'. gen_step f s s'"
proof (cases "l_gen s")
  case GenPick
  with pick_progress [OF assms(3-5)] show ?thesis by (blast intro: gen_pick)
qed (use assms in \<open>blast intro: gen_step.intros\<close>)+

lemma worker_progress:
  assumes "workers_inv f s" "l_gen s = GenClosed" "\<not> list_all (\<lambda>w. snd w = WorkerDone) (l_workers s)"
  shows "\<exists>i s'. worker_step f i s s'"
proof -
  obtain i where i: "i < length (l_workers s)" "snd (l_workers s ! i) \<noteq> WorkerDone"
    using assms(3) by (auto simp: list_all_length)
  obtain c p where w: "l_workers s ! i = (c, p)" by force
  show ?thesis
  proof (cases p)
    case WorkerIdle
    with w takes [OF i(1)] ends [OF i(1)] assms(2) show ?thesis by (cases "l_work s") blast+
  next
    case (WorkerBusy key)
    have "c_shards c \<noteq> []" using assms(1) nth_mem [OF i(1)] w by (auto simp: workers_inv_def)
    from worker_call_returns [OF this] obtain c' throttled errored where
      "worker_call f c key 0 0 undefined = Some (c', throttled, errored)" by blast
    from calls [OF i(1) w [unfolded WorkerBusy] this] show ?thesis by blast
  qed (use i w in simp)
qed

lemma load_progress:
  assumes "workers_inv f s" "l_ctxDone s" "running s"
    and "0 < sint (f_numKeys f)" "0 < sint (f_minKeyWeight f)" "sint (f_minKeyWeight f) \<le> sint (f_maxKeyWeight f)"
  shows "\<exists>s'. run_step f s s'"
proof (cases "l_gen s = GenClosed \<and> list_all (\<lambda>w. snd w = WorkerDone) (l_workers s)")
  case True
  have "\<exists>s'. main_end s s' \<or> wait_step s s'"
  proof (cases "l_done s")
    case True
    from total [OF this, of 0] show ?thesis by (metis prod.exhaust)
  qed (use True all_done in blast)
  with assms(3) show ?thesis unfolding running_def by (blast intro: run_step.intros [unfolded running_def])
next
  case False
  with gen_progress [OF assms(2) _ assms(4-6)] worker_progress [OF assms(1)] assms(3) show ?thesis
    by (blast intro: run_step.intros)
qed

section \<open>The property\<close>

text \<open>
  C38 (termination). A run of the load generator ends once its context has, and its final report is over
  all of it. Let \<open>-min-key-weight\<close> be positive (with a least weight of zero \<open>pickKey\<close> may never return;
  \<open>zero_weight_run_hangs\<close> below). Then, apart from ticks and reports, at most fourteen steps and ten for
  each connection are left, and five more for each tick the \<open>select\<close>s still let win; once the context
  has ended and until \<open>main\<close> returns or panics, some such step can be taken. No key sent into the
  channel is lost or overtaken: when \<open>main\<close> returns, the channel is empty, every worker has ended, and
  every key sent has been requested and counted, exactly once, in the final report, whose percentiles
  are samples of the run in order. If \<open>-report-interval\<close> is positive, \<open>main\<close> does not panic; if it is not,
  nothing checks it and \<open>main\<close> does nothing but panic when it makes its ticker. (The indexes of the
  percentiles are exact up to \<open>2 ^ 53\<close> requests.)
\<close>

theorem load_run_ends:
  assumes "start_load f rand64 = Inr s0" "0 < sint (f_minKeyWeight f)"
    and "load_steps f m s0 s" "load_steps f n s t"
  shows "n \<le> 14 + 10 * nat (sint (f_concurrency f)) + 5 * (l_ticks t - l_ticks s)
    \<and> (l_ctxDone t \<longrightarrow> l_main t = Starting \<or> l_main t = Reporting \<longrightarrow> (\<exists>u. run_step f t u))
    \<and> (\<exists>more. l_taken t @ l_work t = l_taken s @ l_work s @ more)
    \<and> (0 < sint (f_reportInterval f) \<and> length (samples (l_log t)) \<le> 2 ^ 53 \<longrightarrow> l_main t \<noteq> Panicked)
    \<and> (sint (f_reportInterval f) \<le> 0 \<longrightarrow> l_main t = Starting \<or> l_main t = Panicked)
    \<and> (\<forall>r. l_main t = Returned r \<longrightarrow> l_work t = [] \<and> (\<forall>w \<in> set (l_workers t). snd w = WorkerDone)
        \<and> length (samples (l_log t)) = length (l_taken t)
        \<and> (length (l_taken t) \<le> 2 ^ 53 \<longrightarrow> report_covers r (l_log t)))"
proof -
  note start = start_load_inv [OF assms(1)]
  have s: "load_inv f s" using load_steps_inv [OF assms(3)] start(1,2) by (simp add: load_inv_def)
  have t: "workers_inv f t" "stats_inv f t" using load_steps_inv [OF assms(4) s] by (simp_all add: load_inv_def)
  have "n \<le> 14 + 10 * nat (sint (f_concurrency f)) + 5 * (l_ticks t - l_ticks s)"
    using load_steps_rank [OF assms(4)] load_rank_bound [of f s, OF _ start(3)] s by (simp add: load_inv_def)
  moreover have "\<exists>u. run_step f t u" if "l_ctxDone t" "l_main t = Starting \<or> l_main t = Reporting"
    using load_progress [OF t(1) that(1) _ start(4) assms(2) start(5)] that(2) by (simp add: running_def)
  moreover have "l_work t = [] \<and> (\<forall>w \<in> set (l_workers t). snd w = WorkerDone)
      \<and> length (samples (l_log t)) = length (l_taken t)" if "l_main t = Returned r" for r
  proof -
    have "l_done t" using t(2) that by (simp add: stats_inv_def)
    then have d: "\<forall>w \<in> set (l_workers t). snd w = WorkerDone" using t(1) by (simp add: workers_inv_def)
    have "l_workers t \<noteq> []" using t(1) start(3) by (auto simp: workers_inv_def)
    with d have "l_work t = []" using t(1) by (cases "l_workers t") (auto simp: workers_inv_def)
    moreover have "(\<Sum>w \<leftarrow> l_workers t. busy (snd w)) = 0" using d by (auto simp: sum_list_eq_0_iff)
    ultimately show ?thesis using d t(1) by (simp add: workers_inv_def)
  qed
  ultimately show ?thesis using t(2) load_steps_keys [OF assms(4)] by (fastforce simp: stats_inv_def)
qed

text \<open>A run with the flags as declared, interrupted at once.\<close>

theorem load_run_ends_witness:
  "\<exists>s0 s u. start_load load_defaults 0 = Inr s0 \<and> load_steps load_defaults 0 s0 s \<and> l_ctxDone s
     \<and> run_step load_defaults s u \<and> l_main s \<noteq> Panicked"
proof -
  have "splitAddrs ''localhost:9000'' = [''localhost:9000'']" by code_simp
  then obtain s0 where s0: "start_load load_defaults 0 = Inr s0" "l_main s0 = Starting" "l_log s0 = []"
    by (simp add: start_load_def load_defaults_def loadtest_flags_ok_def int64_simps NewShardedClient_def Let_def
      work_capacity_def make_chan_ok_def)
  let ?s = "s0\<lparr>l_ctxDone := True\<rparr>"
  have "running s0" using s0(2) by (simp add: running_def)
  then have run: "load_steps load_defaults 0 s0 ?s" by (rule load_steps.clock [OF load_steps.none ctx])
  have "0 < sint (f_minKeyWeight load_defaults)" by (simp add: load_defaults_def)
  from load_run_ends [OF s0(1) this run load_steps.none] s0 run show ?thesis by fastforce
qed

section \<open>A least weight of zero\<close>

text \<open>One key, which has the weight zero with this seed: \<open>pickKey\<close> has nothing to return.\<close>

definition zero_weight_flags :: load_flags where
  "zero_weight_flags = load_defaults\<lparr>f_numKeys := 1, f_minKeyWeight := 0, f_seed := 31\<rparr>"

lemma zero_weight_no_pick:
  assumes "rand_draws zero_weight_flags draws"
  shows "pickKey draws (f_minKeyWeight zero_weight_flags) (f_maxKeyWeight zero_weight_flags) 31 = None"
proof (rule ccontr)
  assume "pickKey draws (f_minKeyWeight zero_weight_flags) (f_maxKeyWeight zero_weight_flags) 31 \<noteq> None"
  then obtain i t where t: "fst (draws t) = i"
    "snd (draws t) <s keyWeight i (f_minKeyWeight zero_weight_flags) (f_maxKeyWeight zero_weight_flags) 31"
    using pickKey_accepted by (fastforce simp: pickKey_def)
  have "0 \<le> sint i" "sint i < 1" "0 \<le> sint (snd (draws t))"
    using assms t(1) by (auto simp: rand_draws_def zero_weight_flags_def)
  then have "i = 0" by (simp add: sint_eq_iff64)
  moreover have "keyWeight 0 0 10 31 = 0" by code_simp
  ultimately have "snd (draws t) <s 0" using t(2) by (simp add: zero_weight_flags_def load_defaults_def)
  with \<open>0 \<le> sint (snd (draws t))\<close> show False by (simp add: int64_simps)
qed

definition spinning :: "load_run \<Rightarrow> bool" where
  "spinning s \<longleftrightarrow> workers_inv zero_weight_flags s \<and> l_seed s = 31 \<and> l_gen s = GenPick
     \<and> (\<forall>r. l_main s \<noteq> Returned r)"

lemma spinning_run_step:
  assumes "run_step zero_weight_flags s s'" "spinning s"
  shows "spinning s'"
proof -
  have inv: "workers_inv zero_weight_flags s'" using run_step_workers_inv [OF assms(1)] assms(2) by (simp add: spinning_def)
  have "l_workers s \<noteq> []"
    using assms(2) by (auto simp: spinning_def workers_inv_def zero_weight_flags_def load_defaults_def)
  then have live: "\<not> l_done s" using assms(2) by (cases "l_workers s") (auto simp: spinning_def workers_inv_def)
  from assms(1) have "l_seed s' = 31 \<and> l_gen s' = GenPick \<and> (\<forall>r. l_main s' \<noteq> Returned r)"
  proof cases
    case ticker
    from ticker(2) assms(2) show ?thesis by cases (simp add: spinning_def)
  next
    case gen
    from gen(2) assms(2) show ?thesis by cases (auto simp: spinning_def dest: zero_weight_no_pick)
  next
    case (worker i)
    from worker(2) assms(2) show ?thesis by cases (simp_all add: spinning_def)
  next
    case starts
    with assms(2) show ?thesis by (simp add: spinning_def make_ticker_def)
  next
    case waits
    from waits(2) assms(2) show ?thesis by cases (simp_all add: spinning_def)
  next
    case main
    from main(2) assms(2) live show ?thesis by cases (simp_all add: spinning_def)
  qed
  with inv show ?thesis by (simp add: spinning_def)
qed

lemma spinning_clock_step:
  assumes "clock_step zero_weight_flags s s'" "spinning s"
  shows "spinning s'"
proof -
  have inv: "workers_inv zero_weight_flags s'" using clock_step_workers_inv [OF assms(1)] assms(2) by (simp add: spinning_def)
  from assms(1) have "l_seed s' = 31 \<and> l_gen s' = GenPick \<and> (\<forall>r. l_main s' \<noteq> Returned r)"
  proof cases
    case ticks
    from ticks(2) assms(2) show ?thesis by cases (simp add: spinning_def)
  next
    case reports
    from reports(2) assms(2) show ?thesis by cases (simp add: spinning_def split: option.split)
  next
    case ctx
    with assms(2) show ?thesis by (simp add: spinning_def)
  qed
  with inv show ?thesis by (simp add: spinning_def)
qed

lemma spinning_steps: "load_steps zero_weight_flags n s t \<Longrightarrow> spinning s \<Longrightarrow> spinning t"
  by (induction rule: load_steps.induct) (auto intro: spinning_clock_step spinning_run_step)

text \<open>
  After its first tick such a run never ends: whatever happens, its context ending included, the
  generator stays in \<open>pickKey\<close>, the channel is not closed and \<open>main\<close> does not return.
\<close>

theorem zero_weight_run_hangs:
  "\<exists>s0 s. start_load zero_weight_flags rand64 = Inr s0 \<and> load_steps zero_weight_flags 1 s0 s
    \<and> (\<forall>n t. load_steps zero_weight_flags n s t \<longrightarrow> l_gen t = GenPick \<and> (\<forall>r. l_main t \<noteq> Returned r))"
proof -
  have "splitAddrs ''localhost:9000'' = [''localhost:9000'']" by code_simp
  then obtain s0 where s0: "start_load zero_weight_flags rand64 = Inr s0" "l_seed s0 = 31" "l_gen s0 = GenSelect"
      "l_ticker s0 = TickWait"
    by (simp add: start_load_def zero_weight_flags_def load_defaults_def loadtest_flags_ok_def int64_simps
        NewShardedClient_def Let_def work_capacity_def make_chan_ok_def)
  note start = start_load_inv [OF s0(1)]
  let ?s1 = "s0\<lparr>l_ticker := TickReady, l_ticks := l_ticks s0 + 1\<rparr>"
  let ?s = "?s1\<lparr>l_gen := GenPick, l_ticker := TickWait\<rparr>"
  have run: "running s0" using start(7) by (simp add: running_def)
  have tick: "clock_step zero_weight_flags s0 ?s1" by (rule ticks [OF run tick [OF s0(4)]])
  have pick: "run_step zero_weight_flags ?s1 ?s" by (rule gen [OF _ gen_tick]) (simp_all add: s0 start(7) running_def)
  have "workers_inv zero_weight_flags ?s"
    by (rule run_step_workers_inv [OF pick clock_step_workers_inv [OF tick start(1)]])
  then have "spinning ?s" using s0(2) start(7) by (simp add: spinning_def)
  then have "l_gen t = GenPick \<and> (\<forall>r. l_main t \<noteq> Returned r)" if "load_steps zero_weight_flags n ?s t" for n t
    using spinning_steps [OF that] by (simp add: spinning_def)
  moreover have "load_steps zero_weight_flags 1 s0 ?s"
    using load_steps.run [OF load_steps.clock [OF load_steps.none tick] pick] by simp
  ultimately show ?thesis using s0(1) by blast
qed

end
