(* ===== verification/Keyspace.thy ===== *)
theory Keyspace
  imports LoadTest TextServerProps
begin

text \<open>
  The keyspace tool (\<open>tools/keyspace/main.go\<close>): the checks of its flags, the counters, and
  \<open>fetchKeyCount\<close>, which asks a server for its number of keys. (Its \<open>splitAddrs\<close> is, text for text, the
  one of the load generator.) The lemmas show how a worker cycles through its slice of the key
  indices, which \<open>KeyRun\<close> uses, and that the number fetched is the server's.
\<close>

section \<open>The model\<close>

text \<open>What \<open>main\<close> goes on with: the concurrency, capped at the number of keys; \<open>None\<close> is \<open>log.Fatal\<close>.\<close>

definition keyspace_flags :: "string \<Rightarrow> int64 \<Rightarrow> int64 \<Rightarrow> int64 option" where
  "keyspace_flags addrs numKeys concurrency =
     (if length (splitAddrs addrs) = 0 then None
      else if numKeys <=s 0 then None
      else if concurrency <=s 0 then None
      else if numKeys <s concurrency then Some numKeys
      else Some concurrency)"

record key_stats =
  k_requests :: int64
  k_throttled :: int64
  k_errors :: int64

definition key_record :: "key_stats \<Rightarrow> bool \<Rightarrow> bool \<Rightarrow> key_stats" where
  "key_record s throttled errored =
     (let s = s\<lparr>k_requests := k_requests s + 1\<rparr>;
          s = (if throttled then s\<lparr>k_throttled := k_throttled s + 1\<rparr> else s) in
      if errored then s\<lparr>k_errors := k_errors s + 1\<rparr> else s)"

text \<open>
  \<open>fetchKeyCount\<close>: \<open>ask req\<close> is what the connection delivers after \<open>req\<close> is written, \<open>None\<close> when
  dialling or writing fails.
\<close>

definition fetchKeyCount :: "(string \<Rightarrow> string option) \<Rightarrow> int64 option" where
  "fetchKeyCount ask = do {
     input \<leftarrow> ask (''STATS'' @ [CHR 0x0A]);
     line \<leftarrow> (if CHR 0x0A \<in> set input then Some (takeWhile (\<lambda>c. c \<noteq> CHR 0x0A) input @ [CHR 0x0A]) else None);
     let fields = Fields line in
     if length fields \<noteq> 3 \<or> fields ! 0 \<noteq> ''STATS'' then None else ParseInt (fields ! 2)
   }"

text \<open>\<open>printShardStats\<close>: the line it logs; \<open>errText addr\<close> is the text of the error, if there is one.\<close>

definition printShardStats :: "(string \<Rightarrow> string \<Rightarrow> string option) \<Rightarrow> (string \<Rightarrow> string) \<Rightarrow> string list \<Rightarrow> string" where
  "printShardStats ask errText addrs =
     (let parts = map (\<lambda>addr. case fetchKeyCount (ask addr) of
            None \<Rightarrow> addr @ ''=err('' @ errText addr @ '')''
          | Some keys \<Rightarrow> addr @ ''='' @ FormatInt keys) addrs in
      ''server keys: '' @ Join ''  '' parts)"

text \<open>
  \<open>pollStats\<close>: a \<open>select\<close> over a ticker and the end of the context. A tick comes with what the connections
  it opens deliver; the events after the end of the context are not seen. The lines it logs.
\<close>

datatype poll_event = PollTick "string \<Rightarrow> string \<Rightarrow> string option" | PollDone

fun pollStats :: "(string \<Rightarrow> string) \<Rightarrow> string list \<Rightarrow> poll_event list \<Rightarrow> string list" where
  "pollStats errText addrs [] = []"
| "pollStats errText addrs (PollDone # evs) = []"
| "pollStats errText addrs (PollTick ask # evs) = printShardStats ask errText addrs # pollStats errText addrs evs"

text \<open>\<open>main\<close> starts it unless \<open>-stats-interval\<close> is zero.\<close>

definition start_poll :: "int64 \<Rightarrow> (string \<Rightarrow> string) \<Rightarrow> string list \<Rightarrow> poll_event list \<Rightarrow> string list" where
  "start_poll statsInterval errText addrs evs = (if 0 <s statsInterval then pollStats errText addrs evs else [])"

section \<open>The sweep\<close>

text \<open>The indices worker \<open>w\<close> of \<open>c\<close> has: \<open>w\<close>, \<open>w + c\<close>, ..., below \<open>n\<close>; how many, and the \<open>j\<close>-th visited.\<close>

definition slice_size :: "int \<Rightarrow> int \<Rightarrow> int \<Rightarrow> nat" where
  "slice_size w c n = nat ((n - w + c - 1) div c)"

lemma slice_next:
  assumes "0 \<le> w" "w < c" "w < n" "j < slice_size w c n"
  shows "w + c * int j < n" "w + c * int j + c < n \<longleftrightarrow> Suc j < slice_size w c n"
proof -
  have c: "0 < c" using assms by simp
  have size: "int (slice_size w c n) = (n - w + c - 1) div c"
    using assms c by (simp add: slice_size_def pos_imp_zdiv_nonneg_iff)
  have lt: "k < (n - w + c - 1) div c \<longleftrightarrow> w + c * k < n" for k
  proof -
    have "k < (n - w + c - 1) div c \<longleftrightarrow> k + 1 \<le> (n - w + c - 1) div c" by auto
    also have "\<dots> \<longleftrightarrow> (k + 1) * c \<le> n - w + c - 1" by (rule pos_le_div_iff [OF c])
    also have "\<dots> \<longleftrightarrow> w + c * k < n" by (auto simp: algebra_simps)
    finally show ?thesis .
  qed
  show "w + c * int j < n" using lt [of "int j"] assms(4) size by simp
  show "w + c * int j + c < n \<longleftrightarrow> Suc j < slice_size w c n"
    using lt [of "int (Suc j)"] size by (auto simp: algebra_simps)
qed

lemma slice_pos: "0 \<le> w \<Longrightarrow> w < c \<Longrightarrow> w < n \<Longrightarrow> 0 < slice_size w c n"
  by (simp add: slice_size_def pos_imp_zdiv_pos_iff)

text \<open>Together the slices are all the indices, each once.\<close>

lemma slice_indices:
  assumes "0 \<le> w" "w < c" "w < n"
  shows "(\<lambda>j. w + c * int j) ` {..<slice_size w c n} = {k. 0 \<le> k \<and> k < n \<and> k mod c = w}"
proof (intro equalityI subsetI)
  fix k assume "k \<in> (\<lambda>j. w + c * int j) ` {..<slice_size w c n}"
  then obtain j where "j < slice_size w c n" "k = w + c * int j" by auto
  then show "k \<in> {k. 0 \<le> k \<and> k < n \<and> k mod c = w}" using slice_next [OF assms] assms by simp
next
  fix k assume k: "k \<in> {k. 0 \<le> k \<and> k < n \<and> k mod c = w}"
  then have "k mod c = w" by simp
  then have eq: "k = w + c * (k div c)" using mult_div_mod_eq [of c k] by linarith
  have nn: "0 \<le> k div c" using k assms by (simp add: pos_imp_zdiv_nonneg_iff)
  have "(k div c + 1) * c \<le> n - w + c - 1" using eq k by (simp add: algebra_simps)
  then have "k div c + 1 \<le> (n - w + c - 1) div c"
    using pos_le_div_iff [of c "k div c + 1"] assms by simp
  then have "nat (k div c) < slice_size w c n" using nn by (simp add: slice_size_def)
  moreover have "k = w + c * int (nat (k div c))" using eq nn by simp
  ultimately show "k \<in> (\<lambda>j. w + c * int j) ` {..<slice_size w c n}" by blast
qed

text \<open>Where the loop stands after a number of requests.\<close>

definition sweep_pos :: "int \<Rightarrow> int \<Rightarrow> int \<Rightarrow> int64 list \<Rightarrow> int64 \<Rightarrow> bool" where
  "sweep_pos w c n sent i \<longleftrightarrow>
     (\<forall>j < length sent. sint (sent ! j) = w + c * int (j mod slice_size w c n))
   \<and> (if sint i < n then sint i = w + c * int (length sent mod slice_size w c n)
      else length sent mod slice_size w c n = 0)"

lemma sweep_step:
  assumes pos: "sweep_pos w c n sent i" and "sint i < n"
    and w: "0 \<le> w" "w < c" "w < n" and small: "n + c < 2 ^ 63" "sint concurrency = c"
  shows "sweep_pos w c n (sent @ [i]) (i + concurrency)"
proof -
  let ?s = "slice_size w c n" and ?l = "length sent"
  have i: "sint i = w + c * int (?l mod ?s)" using pos assms(2) by (simp add: sweep_pos_def)
  have s: "0 < ?s" by (rule slice_pos [OF w])
  then have lt: "?l mod ?s < ?s" by simp
  have "0 \<le> c * int (?l mod ?s)" using w by simp
  then have "0 \<le> sint i" using i w by linarith
  then have "fits64 (sint i + sint concurrency)" using assms(2) small w by (simp add: fits64_def)
  then have next_i: "sint (i + concurrency) = sint i + c" using small(2) by (simp add: sint_add64)
  have "Suc ?l mod ?s = (if Suc (?l mod ?s) < ?s then Suc (?l mod ?s) else 0)"
    using lt by (auto simp: mod_Suc)
  with slice_next(2) [OF w lt] i next_i have
    "if sint (i + concurrency) < n then sint (i + concurrency) = w + c * int (Suc ?l mod ?s) else Suc ?l mod ?s = 0"
    by (simp add: algebra_simps)
  moreover have "sint ((sent @ [i]) ! j) = w + c * int (j mod ?s)" if "j < Suc ?l" for j
    using pos i that by (auto simp: sweep_pos_def nth_append less_Suc_eq)
  ultimately show ?thesis by (simp add: sweep_pos_def)
qed

lemma key_record_requests [simp]: "k_requests (key_record s th er) = k_requests s + 1"
  by (simp add: key_record_def Let_def)

lemma sweep_start: "sint w < n \<Longrightarrow> sweep_pos (sint w) c n [] w"
  by (simp add: sweep_pos_def)

text \<open>At the end of the slice the worker starts over.\<close>

lemma sweep_wrap: "sweep_pos (sint w) c n sent i \<Longrightarrow> \<not> sint i < n \<Longrightarrow> sweep_pos (sint w) c n sent w"
  by (simp add: sweep_pos_def)

text \<open>As many requests as there are indices in the slice have touched them all.\<close>

lemma sweep_covers:
  assumes "sweep_pos w c n sent i" "0 \<le> w" "w < c" "w < n" "slice_size w c n \<le> length sent"
  shows "{k. 0 \<le> k \<and> k < n \<and> k mod c = w} \<subseteq> sint ` set sent"
proof -
  have "w + c * int j \<in> sint ` set sent" if "j < slice_size w c n" for j
  proof -
    have "sint (sent ! j) = w + c * int j" using assms(1,5) that by (simp add: sweep_pos_def)
    moreover have "sent ! j \<in> set sent" using assms(5) that by simp
    ultimately show ?thesis by (metis image_eqI)
  qed
  then have "(\<lambda>j. w + c * int j) ` {..<slice_size w c n} \<subseteq> sint ` set sent" by auto
  then show ?thesis using slice_indices [OF assms(2-4)] by simp
qed

lemma word_str_fmt_int: "word_str (fmt_int v)"
proof -
  have "list_all (\<lambda>c. is_ascii c \<and> \<not> IsSpace (of_char c)) (fmt_int v)"
    by (rule list.pred_mono_strong [OF fmt_int_plain]) (simp add: plain_char_def)
  moreover have "fmt_int v \<noteq> []" by (simp add: fmt_int_def fmt_nat_nonempty)
  ultimately show ?thesis
    using rune_split_append_ascii_list [of "fmt_int v" "[]"]
    by (auto simp: word_str_def list_all_iff)
qed

lemma Fields_word_newline: "word_str t \<Longrightarrow> Fields (t @ [CHR 0x0A]) = [t]"
  using fields_from_word [of "rune_split t" "[(10, [CHR 0x0A])]" "[]"]
  by (simp add: Fields_def word_str_def rune_split_bytes rune_split_append_ascii IsSpace_def)

section \<open>The STATS query\<close>

lemma fetchKeyCount_reads_key_count:
  assumes inv: "store_inv st" and "5 < sint (NewTextServer m)" and "\<forall>j. env_flush env j"
    and small: "card {k. bucket_addr st k \<noteq> None} < 2 ^ 63"
  shows "\<exists>n. fetchKeyCount (\<lambda>req. map_option (\<lambda>(t, out, ms). concat out)
        (handleConn InMemoryThrottle (Some throttler_keyCountEstimate) (NewTextServer m) env st req)) = Some n
    \<and> sint n = int (card {k. bucket_addr st k \<noteq> None})"
proof -
  let ?kc = "Some throttler_keyCountEstimate" and ?n = "card {k. bucket_addr st k \<noteq> None}"
  let ?reply = "''STATS '' @ FormatInt (env_uptime env 0) @ '' '' @ fmt_int (int ?n)"
  have fs: "Fields ''STATS'' = [''STATS'']" "word_str ''STATS''" by code_simp+
  have line: "list_all (request_line (NewTextServer m)) [''STATS'']"
  proof -
    have "\<not> all_space ''STATS''" by code_simp
    then show ?thesis using assms(2) fs(1) by (simp add: request_line_def)
  qed
  have reply: "handleStats ?kc st (env_uptime env 0) = ?reply"
    by (simp add: handleStats_def throttler_keyCountEstimate_def keyCountEstimate_card [OF inv])
  have d: "\<exists>ms. dispatch InMemoryThrottle ?kc st (env_clock env 0) (env_uptime env 0) ''STATS'' = Some (st, ?reply, False, ms)"
    unfolding dispatch_eq fs(1) by (simp add: Let_def reply)
  obtain st' ms where conn: "handleConn InMemoryThrottle ?kc (NewTextServer m) env st (''STATS'' @ [CHR 0x0A])
      = Some (st', [?reply @ [CHR 0x0A]], ms)"
    using in_memory.conn_loop_pipeline [OF inv line assms(3), of ?kc 0] d assms(2)
    by (auto simp: handleConn_def)
  have words: "word_str (fmt_int v)" for v by (rule word_str_fmt_int)
  have nl: "CHR 0x0A \<notin> set ?reply" by (simp add: fmt_int_no_newline)
  have take: "takeWhile (\<lambda>c. c \<noteq> CHR 0x0A) (?reply @ [CHR 0x0A]) = ?reply"
    using takeWhile_newline [OF nl, of "[]"] by simp
  have shape: "?reply @ [CHR 0x0A]
      = ''STATS'' @ CHR '' '' # (FormatInt (env_uptime env 0) @ CHR '' '' # (fmt_int (int ?n) @ [CHR 0x0A]))"
    by simp
  have fields: "Fields (?reply @ [CHR 0x0A]) = [''STATS'', FormatInt (env_uptime env 0), fmt_int (int ?n)]"
    unfolding shape by (simp only: Fields_word_space [OF fs(2)] Fields_word_space [OF words] Fields_word_newline [OF words])
  have n: "sint (word_of_int (int ?n) :: int64) = int ?n"
    using small by (intro sint_word_of_int64) (simp add: fits64_def)
  then have "ParseInt (fmt_int (int ?n)) = Some (word_of_int (int ?n))"
    using ParseInt_FormatInt [of "word_of_int (int ?n)"] by simp
  then have "fetchKeyCount (\<lambda>req. map_option (\<lambda>(t, out, ms). concat out)
        (handleConn InMemoryThrottle ?kc (NewTextServer m) env st req)) = Some (word_of_int (int ?n))"
    by (simp add: fetchKeyCount_def conn [simplified] take [simplified] fields [simplified])
  with n show ?thesis by blast
qed

text \<open>What the servers in the states \<open>st\<close> deliver, and the line that says how many keys each has.\<close>

definition served :: "int64 \<Rightarrow> conn_env \<Rightarrow> (string \<Rightarrow> store) \<Rightarrow> string \<Rightarrow> string \<Rightarrow> string option" where
  "served m env st addr req = map_option (\<lambda>(t, out, ms). concat out)
     (handleConn InMemoryThrottle (Some throttler_keyCountEstimate) (NewTextServer m) env (st addr) req)"

definition key_count_line :: "string list \<Rightarrow> (string \<Rightarrow> nat) \<Rightarrow> string" where
  "key_count_line addrs n = ''server keys: '' @ Join ''  '' (map (\<lambda>addr. addr @ ''='' @ fmt_int (int (n addr))) addrs)"

definition keys_held :: "store \<Rightarrow> nat" where
  "keys_held st = card {k. bucket_addr st k \<noteq> None}"

lemma printShardStats_served:
  assumes "5 < sint (NewTextServer m)" and "\<forall>j. env_flush env j"
    and "\<forall>addr \<in> set addrs. store_inv (st addr) \<and> keys_held (st addr) < 2 ^ 63"
  shows "printShardStats (served m env st) errText addrs = key_count_line addrs (\<lambda>addr. keys_held (st addr))"
proof -
  have "(case fetchKeyCount (served m env st addr) of
          None \<Rightarrow> addr @ ''=err('' @ errText addr @ '')'' | Some keys \<Rightarrow> addr @ ''='' @ FormatInt keys)
      = addr @ ''='' @ fmt_int (int (keys_held (st addr)))" if "addr \<in> set addrs" for addr
    using fetchKeyCount_reads_key_count [OF _ assms(1,2), of "st addr"] assms(3) that
    by (auto simp: served_def [abs_def] keys_held_def)
  then show ?thesis unfolding printShardStats_def key_count_line_def Let_def by (simp cong: map_cong)
qed

lemma pollStats_served:
  assumes "5 < sint (NewTextServer m)" and "\<forall>j. env_flush env j"
    and "\<forall>st \<in> set sts. \<forall>addr \<in> set addrs. store_inv (st addr) \<and> keys_held (st addr) < 2 ^ 63"
  shows "pollStats errText addrs (map (\<lambda>st. PollTick (served m env st)) sts @ PollDone # evs)
    = map (\<lambda>st. key_count_line addrs (\<lambda>addr. keys_held (st addr))) sts"
  using assms(3)
proof (induction sts)
  case (Cons st sts)
  with printShardStats_served [OF assms(1,2), of addrs st errText] show ?case by simp
qed simp

section \<open>Properties\<close>

text \<open>
  C37 (roundtrip). The numbers of keys the keyspace tool prints are the servers'. Asked over connections
  served by \<open>handleConn\<close> at each tick until its context ends, it prints one line for each tick, with, for
  every shard, exactly the number of keys that have a bucket there at that time; and nothing when
  \<open>-stats-interval\<close> is not positive.
\<close>

theorem printed_key_counts:
  assumes "5 < sint (NewTextServer m)" and "\<forall>j. env_flush env j"
    and "\<forall>st \<in> set sts. \<forall>addr \<in> set addrs. store_inv (st addr) \<and> keys_held (st addr) < 2 ^ 63"
  shows "start_poll statsInterval errText addrs (map (\<lambda>st. PollTick (served m env st)) sts @ PollDone # evs)
    = (if sint statsInterval \<le> 0 then [] else map (\<lambda>st. key_count_line addrs (\<lambda>addr. keys_held (st addr))) sts)"
  using pollStats_served [OF assms] by (simp add: start_poll_def int64_simps)

text \<open>Two new servers, asked twice.\<close>

theorem printed_key_counts_witness:
  "start_poll 5000000000 (\<lambda>_. ''refused'') [''a:1'', ''b:2'']
      [PollTick (served 0 \<lparr>env_clock = (\<lambda>_. 5000), env_uptime = (\<lambda>_. 17), env_flush = (\<lambda>_. True), env_part = (\<lambda>_. 0)\<rparr> (\<lambda>_. fst (newStore 4 0))),
       PollTick (served 0 \<lparr>env_clock = (\<lambda>_. 5000), env_uptime = (\<lambda>_. 17), env_flush = (\<lambda>_. True), env_part = (\<lambda>_. 0)\<rparr> (\<lambda>_. fst (newStore 4 0))), PollDone]
    = [''server keys: a:1=0  b:2=0'', ''server keys: a:1=0  b:2=0'']"
proof -
  let ?st = "fst (newStore 4 0)" and ?env = "\<lparr>env_clock = (\<lambda>_. 5000), env_uptime = (\<lambda>_. 17), env_flush = (\<lambda>_. True), env_part = (\<lambda>_. 0)\<rparr>"
  have "keyCountEstimate ?st = 0" by code_simp
  then have card: "keys_held ?st = 0" using keyCountEstimate_card [OF newStore_inv [of 4 0]] by (simp add: keys_held_def)
  have net: "5 < sint (NewTextServer 0)" "\<forall>j. env_flush ?env j" by (simp_all add: NewTextServer_def DefaultMaxLineSize_def)
  have "\<forall>st \<in> set [\<lambda>_. ?st, \<lambda>_. ?st]. \<forall>addr \<in> set [''a:1'', ''b:2'']. store_inv (st addr) \<and> keys_held (st addr) < 2 ^ 63"
    using newStore_inv [of 4 0] card by simp
  note printed = printed_key_counts [OF net this, of 5000000000 "\<lambda>_. ''refused''" "[]"]
  have zero: "fmt_int (int 0) = ''0''" by code_simp
  show ?thesis using printed unfolding list.map append.simps card by (simp add: key_count_line_def zero [simplified])
qed

end
