(* ===== verification/KeyRun.thy ===== *)
theory KeyRun
  imports Keyspace Client
begin

text \<open>
  A run of the keyspace tool (\<open>main\<close> and \<open>runWorker\<close> of \<open>tools/keyspace/main.go\<close>): the workers, each
  sweeping over its slice of the key indices with a client of its own, and \<open>main\<close>, which prints its
  progress until every worker has reported back. Each step is one look at the context, one call, one
  channel operation or one line of progress. (The three counters of \<open>record\<close> are added in one step:
  they are read together once the workers have ended, and before that by progress lines only.)
\<close>

section \<open>The state\<close>

record key_flags =
  g_addrs :: string
  g_numKeys :: int64
  g_keyPrefix :: string
  g_concurrency :: int64
  g_requestTimeout :: int64
  g_failClosed :: bool
  g_capacity :: int64
  g_emissionInterval :: int64
  g_cost :: int64
  g_peek :: bool
  g_reportInterval :: int64

text \<open>
  \<open>SweepAt i\<close> is the head of the inner loop; \<open>Leaving\<close> has closed its client and is about to send on
  \<open>done\<close>. \<open>y_sent\<close>, the indices sent so far, is not in the code.
\<close>

datatype sweep_pc = SweepAt int64 | Calling int64 | Leaving | Left

record key_worker =
  y_client :: sharded_client
  y_pc :: sweep_pc
  y_sent :: "int64 list"

text \<open>\<open>main\<close>: before \<open>time.NewTicker(*reportInterval)\<close>, in its loop, over, or in a panic.\<close>

datatype key_pc = Preparing | Waiting | Printed key_stats | Crashed

record key_run =
  y_ctxDone :: bool
  y_concurrency :: int64
  y_workers :: "key_worker list"
  y_stats :: key_stats
  y_lastRequests :: int64
  y_finished :: int64
  y_main :: key_pc

definition key_options :: "key_flags \<Rightarrow> client_option list" where
  "key_options f = [WithTimeout (g_requestTimeout f)] @ (if g_failClosed f then [WithFailClosed] else [])"

definition key_limit_sent :: "key_flags \<Rightarrow> limit" where
  "key_limit_sent f = \<lparr>l_Capacity = g_capacity f, l_Rate = \<lparr>r_Units = 1, r_Period = g_emissionInterval f\<rparr>\<rparr>"

text \<open>\<open>main\<close> up to its ticker, with the workers started; \<open>None\<close> is a \<open>log.Fatal\<close> about the flags.\<close>

definition start_keys :: "key_flags \<Rightarrow> key_run option" where
  "start_keys f = do {
     concurrency \<leftarrow> keyspace_flags (g_addrs f) (g_numKeys f) (g_concurrency f);
     c \<leftarrow> NewShardedClient (splitAddrs (g_addrs f)) (key_options f);
     Some \<lparr>y_ctxDone = False, y_concurrency = concurrency,
       y_workers = map (\<lambda>i. \<lparr>y_client = c, y_pc = SweepAt (of_nat i), y_sent = []\<rparr>) [0..<nat (sint concurrency)],
       y_stats = \<lparr>k_requests = 0, k_throttled = 0, k_errors = 0\<rparr>,
       y_lastRequests = 0, y_finished = 0, y_main = Preparing\<rparr>
   }"

text \<open>The flags as they are declared; \<open>-duration\<close> is when the context ends.\<close>

definition key_defaults :: key_flags where
  "key_defaults = \<lparr>g_addrs = ''localhost:9000'', g_numKeys = 100000, g_keyPrefix = ''keyspace'', g_concurrency = 50,
     g_requestTimeout = 2 * 1000000000, g_failClosed = False, g_capacity = 1000,
     g_emissionInterval = 1 * 1000000, g_cost = 1, g_peek = False, g_reportInterval = 1 * 1000000000\<rparr>"

section \<open>The steps\<close>

text \<open>Worker \<open>w\<close>; the clock and the network of a call are open.\<close>

inductive sweep_step :: "key_flags \<Rightarrow> nat \<Rightarrow> key_run \<Rightarrow> key_run \<Rightarrow> bool" for f w where
  ctx_ended: "w < length (y_workers s) \<Longrightarrow> y_pc (y_workers s ! w) = SweepAt i \<Longrightarrow> y_ctxDone s \<Longrightarrow>
     sweep_step f w s (s\<lparr>y_workers := (y_workers s)[w := (y_workers s ! w)
       \<lparr>y_client := sharded_close (y_client (y_workers s ! w)), y_pc := Leaving\<rparr>]\<rparr>)"
| starts: "w < length (y_workers s) \<Longrightarrow> y_pc (y_workers s ! w) = SweepAt i \<Longrightarrow> \<not> y_ctxDone s \<Longrightarrow>
     i <s g_numKeys f \<Longrightarrow>
     sweep_step f w s (s\<lparr>y_workers := (y_workers s)[w := (y_workers s ! w)\<lparr>y_pc := Calling i\<rparr>]\<rparr>)"
| wraps: "w < length (y_workers s) \<Longrightarrow> y_pc (y_workers s ! w) = SweepAt i \<Longrightarrow> \<not> y_ctxDone s \<Longrightarrow>
     \<not> i <s g_numKeys f \<Longrightarrow>
     sweep_step f w s (s\<lparr>y_workers := (y_workers s)[w := (y_workers s ! w)\<lparr>y_pc := SweepAt (of_nat w)\<rparr>]\<rparr>)"
| answered: "w < length (y_workers s) \<Longrightarrow> y_pc (y_workers s ! w) = Calling i \<Longrightarrow>
     key = g_keyPrefix f @ ''-'' @ FormatInt i \<Longrightarrow>
     sharded_throttle (y_client (y_workers s ! w)) key now later env
       [\<lparr>q_Key = key, q_Limit = key_limit_sent f, q_Cost = g_cost f, q_Peek = g_peek f\<rparr>] = Some (c, resp, errs) \<Longrightarrow>
     sweep_step f w s (s\<lparr>y_workers := (y_workers s)[w := (y_workers s ! w)
         \<lparr>y_client := c, y_pc := SweepAt (i + y_concurrency s), y_sent := y_sent (y_workers s ! w) @ [i]\<rparr>],
       y_stats := key_record (y_stats s) (0 < length resp \<and> s_Throttled (hd resp)) (errs \<noteq> [])\<rparr>)"

text \<open>\<open>main\<close> receives from \<open>done\<close> until every worker has sent, then prints the last line.\<close>

inductive keys_main_step :: "key_run \<Rightarrow> key_run \<Rightarrow> bool" where
  receives: "y_finished s <s y_concurrency s \<Longrightarrow> w < length (y_workers s) \<Longrightarrow> y_pc (y_workers s ! w) = Leaving \<Longrightarrow>
     keys_main_step s (s\<lparr>y_workers := (y_workers s)[w := (y_workers s ! w)\<lparr>y_pc := Left\<rparr>],
       y_finished := y_finished s + 1\<rparr>)"
| prints: "\<not> y_finished s <s y_concurrency s \<Longrightarrow> keys_main_step s (s\<lparr>y_main := Printed (y_stats s)\<rparr>)"

text \<open>\<open>main\<close> makes its ticker; \<open>time.NewTicker\<close> panics if the interval is not positive.\<close>

definition make_report_ticker :: "key_flags \<Rightarrow> key_run \<Rightarrow> key_run" where
  "make_report_ticker f s = s\<lparr>y_main := (if g_reportInterval f \<le>s 0 then Crashed else Waiting)\<rparr>"

definition alive :: "key_run \<Rightarrow> bool" where
  "alive s \<longleftrightarrow> y_main s = Preparing \<or> y_main s = Waiting"

inductive key_step :: "key_flags \<Rightarrow> key_run \<Rightarrow> key_run \<Rightarrow> bool" for f where
  sweep: "alive s \<Longrightarrow> sweep_step f w s s' \<Longrightarrow> key_step f s s'"
| prepares: "y_main s = Preparing \<Longrightarrow> key_step f s (make_report_ticker f s)"
| main: "y_main s = Waiting \<Longrightarrow> keys_main_step s s' \<Longrightarrow> key_step f s s'"

text \<open>The clocks: the deadline or interrupt that ends the context, and a line of progress.\<close>

inductive key_clock :: "key_run \<Rightarrow> key_run \<Rightarrow> bool" where
  ctx: "alive s \<Longrightarrow> key_clock s (s\<lparr>y_ctxDone := True\<rparr>)"
| progress: "y_main s = Waiting \<Longrightarrow> y_finished s <s y_concurrency s \<Longrightarrow>
     key_clock s (s\<lparr>y_lastRequests := k_requests (y_stats s)\<rparr>)"

inductive key_steps :: "key_flags \<Rightarrow> nat \<Rightarrow> key_run \<Rightarrow> key_run \<Rightarrow> bool" for f where
  none: "key_steps f 0 s s"
| clock: "key_steps f n s s' \<Longrightarrow> key_clock s' s'' \<Longrightarrow> key_steps f n s s''"
| run: "key_steps f n s s' \<Longrightarrow> key_step f s' s'' \<Longrightarrow> key_steps f (Suc n) s s''"

section \<open>The invariant\<close>

fun gone :: "sweep_pc \<Rightarrow> nat" where
  "gone Left = 1"
| "gone Leaving = 0"
| "gone (SweepAt i) = 0"
| "gone (Calling i) = 0"

text \<open>Where worker \<open>w\<close> of \<open>c\<close> stands in its slice of \<open>n\<close> keys.\<close>

definition worker_ok :: "nat \<Rightarrow> int \<Rightarrow> int \<Rightarrow> key_worker \<Rightarrow> bool" where
  "worker_ok w c n y \<longleftrightarrow> c_shards (y_client y) \<noteq> []
     \<and> (case y_pc y of
          SweepAt i \<Rightarrow> sweep_pos (int w) c n (y_sent y) i
        | Calling i \<Rightarrow> sweep_pos (int w) c n (y_sent y) i \<and> sint i < n
        | _ \<Rightarrow> \<exists>i. sweep_pos (int w) c n (y_sent y) i)"

definition keys_inv :: "key_flags \<Rightarrow> key_run \<Rightarrow> bool" where
  "keys_inv f s \<longleftrightarrow> int (length (y_workers s)) = sint (y_concurrency s)
     \<and> 0 < sint (y_concurrency s) \<and> sint (y_concurrency s) \<le> sint (g_numKeys f)
     \<and> (\<forall>w < length (y_workers s). worker_ok w (sint (y_concurrency s)) (sint (g_numKeys f)) (y_workers s ! w))
     \<and> k_requests (y_stats s) = of_nat (\<Sum>y \<leftarrow> y_workers s. length (y_sent y))
     \<and> sint (y_finished s) = int (\<Sum>y \<leftarrow> y_workers s. gone (y_pc y))
     \<and> (sint (g_reportInterval f) \<le> 0 \<longrightarrow> y_main s = Preparing \<or> y_main s = Crashed)
     \<and> (y_main s = Crashed \<longrightarrow> sint (g_reportInterval f) \<le> 0)
     \<and> (\<forall>st. y_main s = Printed st \<longrightarrow> st = y_stats s \<and> \<not> y_finished s <s y_concurrency s)"

lemma gone_le: "gone p \<le> 1"
  by (cases p) simp_all

lemma gone_sum_le: "(\<Sum>y \<leftarrow> ys. gone (y_pc y)) \<le> length ys"
  by (induction ys) (use gone_le in \<open>auto intro: order_trans [OF add_mono [OF gone_le]]\<close>)

text \<open>Once as many have reported back as there are workers, all have.\<close>

lemma all_gone: "length ys \<le> (\<Sum>y \<leftarrow> ys. gone (y_pc y)) \<Longrightarrow> y \<in> set ys \<Longrightarrow> y_pc y = Left"
proof (induction ys)
  case (Cons a ys)
  have "gone (y_pc a) = 1" "length ys \<le> (\<Sum>y \<leftarrow> ys. gone (y_pc y))"
    using Cons.prems(1) gone_le [of "y_pc a"] gone_sum_le [of ys] by simp_all
  moreover have "gone p = 1 \<Longrightarrow> p = Left" for p by (cases p) simp_all
  ultimately show ?case using Cons by auto
qed simp

lemma sint_worker_index: "int w < 2 ^ 63 \<Longrightarrow> sint (of_nat w :: int64) = int w"
  using sint_word_of_int64 [of "int w"] by (simp add: fits64_def)

lemma start_keys_inv:
  assumes "start_keys f = Some s"
  shows "keys_inv f s"
proof -
  obtain concurrency c where flags: "keyspace_flags (g_addrs f) (g_numKeys f) (g_concurrency f) = Some concurrency"
    and c: "NewShardedClient (splitAddrs (g_addrs f)) (key_options f) = Some c"
    and s: "s = \<lparr>y_ctxDone = False, y_concurrency = concurrency,
       y_workers = map (\<lambda>i. \<lparr>y_client = c, y_pc = SweepAt (of_nat i), y_sent = []\<rparr>) [0..<nat (sint concurrency)],
       y_stats = \<lparr>k_requests = 0, k_throttled = 0, k_errors = 0\<rparr>,
       y_lastRequests = 0, y_finished = 0, y_main = Preparing\<rparr>"
    using assms by (auto simp: start_keys_def split: bind_splits)
  have n: "0 < sint concurrency" "sint concurrency \<le> sint (g_numKeys f)"
    using flags by (auto simp: keyspace_flags_def int64_simps split: if_splits)
  have "worker_ok w (sint concurrency) (sint (g_numKeys f)) \<lparr>y_client = c, y_pc = SweepAt (of_nat w), y_sent = []\<rparr>"
    if "w < nat (sint concurrency)" for w
  proof -
    have "int w < 2 ^ 63" using that sint_bounds(2) [of concurrency] by simp
    then have "sint (of_nat w :: int64) = int w" by (rule sint_worker_index)
    moreover have "int w < sint (g_numKeys f)" using that n by simp
    ultimately have "sweep_pos (int w) (sint concurrency) (sint (g_numKeys f)) [] (of_nat w)"
      using sweep_start [of "of_nat w" "sint (g_numKeys f)"] by simp
    then show ?thesis using NewShardedClient_shards [OF c] by (auto simp: worker_ok_def)
  qed
  with n show ?thesis unfolding s by (simp add: keys_inv_def comp_def sum_list_0)
qed

text \<open>A worker moves on, and the requests it sent are counted.\<close>

lemma keys_inv_worker:
  assumes inv: "keys_inv f s" and "alive s" and w: "w < length (y_workers s)"
    and ok: "worker_ok w (sint (y_concurrency s)) (sint (g_numKeys f)) y"
    and gone: "gone (y_pc y) = gone (y_pc (y_workers s ! w))"
    and sent: "length (y_sent y) = length (y_sent (y_workers s ! w)) + k"
    and st: "k_requests st = k_requests (y_stats s) + of_nat k"
  shows "keys_inv f (s\<lparr>y_workers := (y_workers s)[w := y], y_stats := st\<rparr>)"
proof -
  have "(\<Sum>y \<leftarrow> (y_workers s)[w := y]. length (y_sent y)) = (\<Sum>y \<leftarrow> y_workers s. length (y_sent y)) + k"
    using sum_map_update [OF w, of "\<lambda>y. length (y_sent y)" y] sent by simp
  moreover have "(\<Sum>y \<leftarrow> (y_workers s)[w := y]. gone (y_pc y)) = (\<Sum>y \<leftarrow> y_workers s. gone (y_pc y))"
    using sum_map_update [OF w, of "\<lambda>y. gone (y_pc y)" y] gone by simp
  ultimately show ?thesis
    using inv assms(2) w ok st by (auto simp: keys_inv_def alive_def nth_list_update)
qed

lemma sweep_step_inv:
  assumes "sweep_step f w s s'" "keys_inv f s" "alive s" "sint (g_numKeys f) < 2 ^ 62"
  shows "keys_inv f s'"
proof -
  let ?c = "sint (y_concurrency s)" and ?n = "sint (g_numKeys f)" and ?y = "y_workers s ! w"
  have ok: "worker_ok w ?c ?n ?y" "int w < ?c" if "w < length (y_workers s)"
    using assms(2) that by (auto simp: keys_inv_def)
  have c: "0 < ?c" "?c \<le> ?n" using assms(2) by (simp_all add: keys_inv_def)
  note move = keys_inv_worker [OF assms(2,3), where st = "y_stats s" and k = 0, simplified]
  show ?thesis
    using assms(1)
  proof cases
    case (ctx_ended i)
    have "worker_ok w ?c ?n (?y\<lparr>y_client := sharded_close (y_client ?y), y_pc := Leaving\<rparr>)"
      using ok(1) ctx_ended(2,3) by (auto simp: worker_ok_def sharded_close_def)
    from move [OF ctx_ended(2) this] ctx_ended(1,3) show ?thesis by simp
  next
    case (starts i)
    have "worker_ok w ?c ?n (?y\<lparr>y_pc := Calling i\<rparr>)"
      using ok(1) starts(2,3,5) by (auto simp: worker_ok_def int64_simps)
    from move [OF starts(2) this] starts(1,3) show ?thesis by simp
  next
    case (wraps i)
    have "int w < 2 ^ 63" using ok(2) wraps(2) c assms(4) by simp
    then have "sint (of_nat w :: int64) = int w" by (rule sint_worker_index)
    then have "worker_ok w ?c ?n (?y\<lparr>y_pc := SweepAt (of_nat w)\<rparr>)"
      using ok(1) wraps(2,3,5) sweep_wrap [of "of_nat w" ?c ?n "y_sent ?y" i]
      by (auto simp: worker_ok_def int64_simps)
    from move [OF wraps(2) this] wraps(1,3) show ?thesis by simp
  next
    case (answered i key now later env c' resp errs)
    let ?new = "?y\<lparr>y_client := c', y_pc := SweepAt (i + y_concurrency s), y_sent := y_sent ?y @ [i]\<rparr>"
    have pos: "sweep_pos (int w) ?c ?n (y_sent ?y) i" "sint i < ?n" "c_shards (y_client ?y) \<noteq> []"
      using ok(1) answered(2,3) by (auto simp: worker_ok_def)
    have "sweep_pos (int w) ?c ?n (y_sent ?y @ [i]) (i + y_concurrency s)"
      using ok(2) answered(2) c assms(4) by (intro sweep_step [OF pos(1,2)]) simp_all
    moreover have "c_shards c' \<noteq> []" using sharded_throttle_shards [OF answered(5)] pos(3) by auto
    ultimately have "worker_ok w ?c ?n ?new" by (simp add: worker_ok_def)
    from keys_inv_worker [OF assms(2,3) answered(2) this, where k = 1] answered(3)
    show ?thesis unfolding answered(1) by simp
  qed
qed

lemma keys_main_step_inv:
  assumes "keys_main_step s s'" "keys_inv f s" "y_main s = Waiting"
  shows "keys_inv f s'"
  using assms(1)
proof cases
  case (receives w)
  let ?y = "(y_workers s ! w)\<lparr>y_pc := Left\<rparr>"
  have "worker_ok w (sint (y_concurrency s)) (sint (g_numKeys f)) ?y"
    using assms(2) receives(3,4) by (auto simp: keys_inv_def worker_ok_def)
  moreover have "(\<Sum>y \<leftarrow> (y_workers s)[w := ?y]. length (y_sent y)) = (\<Sum>y \<leftarrow> y_workers s. length (y_sent y))"
    using sum_map_update [OF receives(3), of "\<lambda>y. length (y_sent y)" ?y] by simp
  moreover have "(\<Sum>y \<leftarrow> (y_workers s)[w := ?y]. gone (y_pc y)) = Suc (\<Sum>y \<leftarrow> y_workers s. gone (y_pc y))"
    using sum_map_update [OF receives(3), of "\<lambda>y. gone (y_pc y)" ?y] receives(4) by simp
  moreover have "sint (y_finished s + 1) = sint (y_finished s) + 1"
    using receives(2) sint_add64 [of "y_finished s" 1] sint_bounds [of "y_concurrency s"] sint_bounds(1) [of "y_finished s"]
    by (simp add: int64_simps fits64_def)
  ultimately show ?thesis
    unfolding receives(1) using assms(2,3) receives(3) by (auto simp: keys_inv_def nth_list_update)
next
  case prints
  with assms(2,3) show ?thesis by (auto simp: keys_inv_def)
qed

lemma prepares_inv: "keys_inv f s \<Longrightarrow> y_main s = Preparing \<Longrightarrow> keys_inv f (make_report_ticker f s)"
  by (auto simp: keys_inv_def make_report_ticker_def int64_simps)

lemma key_steps_inv:
  "key_steps f n s s' \<Longrightarrow> keys_inv f s \<Longrightarrow> sint (g_numKeys f) < 2 ^ 62 \<Longrightarrow> keys_inv f s'"
proof (induction rule: key_steps.induct)
  case (clock n s s' s'')
  then have "keys_inv f s'" by simp
  with clock.hyps(2) show ?case by cases (auto simp: keys_inv_def alive_def)
next
  case (run n s s' s'')
  then have "keys_inv f s'" by simp
  with run.hyps(2) run.prems(2) show ?case
    by cases (auto intro: sweep_step_inv keys_main_step_inv prepares_inv)
qed simp

section \<open>What is left to do\<close>

fun sweep_rank :: "sweep_pc \<Rightarrow> nat" where
  "sweep_rank (Calling i) = 3"
| "sweep_rank (SweepAt i) = 2"
| "sweep_rank Leaving = 1"
| "sweep_rank Left = 0"

definition key_rank :: "key_run \<Rightarrow> nat" where
  "key_rank s = (\<Sum>y \<leftarrow> y_workers s. sweep_rank (y_pc y)) + (case y_main s of Preparing \<Rightarrow> 2 | Waiting \<Rightarrow> 1 | _ \<Rightarrow> 0)"

lemma key_step_rank:
  assumes "key_step f s s'" "y_ctxDone s"
  shows "y_ctxDone s' \<and> key_rank s' < key_rank s"
  using assms(1)
proof cases
  case (sweep w)
  from sweep(2) show ?thesis
  proof cases
    case (ctx_ended i)
    then show ?thesis using assms(2) sum_map_update [OF ctx_ended(2), of "\<lambda>y. sweep_rank (y_pc y)"
        "(y_workers s ! w)\<lparr>y_client := sharded_close (y_client (y_workers s ! w)), y_pc := Leaving\<rparr>"]
      by (simp add: key_rank_def)
  next
    case (answered i key now later env c resp errs)
    then show ?thesis using assms(2) sum_map_update [OF answered(2), of "\<lambda>y. sweep_rank (y_pc y)"
        "(y_workers s ! w)\<lparr>y_client := c, y_pc := SweepAt (i + y_concurrency s), y_sent := y_sent (y_workers s ! w) @ [i]\<rparr>"]
      by (simp add: key_rank_def)
  qed (use assms(2) in simp_all)
next
  case prepares
  with assms(2) show ?thesis by (simp add: key_rank_def make_report_ticker_def)
next
  case main
  from main(2) show ?thesis
  proof cases
    case (receives w)
    then show ?thesis using assms(2) sum_map_update [OF receives(3), of "\<lambda>y. sweep_rank (y_pc y)"
        "(y_workers s ! w)\<lparr>y_pc := Left\<rparr>"]
      by (simp add: key_rank_def)
  next
    case prints
    with main(1) assms(2) show ?thesis by (simp add: key_rank_def)
  qed
qed

lemma key_steps_rank:
  "key_steps f n s s' \<Longrightarrow> y_ctxDone s \<Longrightarrow> y_ctxDone s' \<and> key_rank s' + n \<le> key_rank s"
proof (induction rule: key_steps.induct)
  case (clock n s s' s'')
  with clock.hyps(2) show ?case by (auto simp: key_rank_def elim!: key_clock.cases)
next
  case (run n s s' s'')
  with key_step_rank [OF run.hyps(2)] show ?case by auto
qed simp

lemma key_steps_workers: "key_steps f n s s' \<Longrightarrow> length (y_workers s') = length (y_workers s)"
proof (induction rule: key_steps.induct)
  case (clock n s s' s'')
  with clock.hyps(2) show ?case by (auto elim!: key_clock.cases)
next
  case (run n s s' s'')
  with run.hyps(2) show ?case by (auto elim!: key_step.cases sweep_step.cases keys_main_step.cases simp: make_report_ticker_def)
qed simp

lemma key_rank_bound: "key_rank s \<le> 3 * length (y_workers s) + 2"
proof -
  have one: "sweep_rank p \<le> 3" for p by (cases p) simp_all
  have "(\<Sum>y \<leftarrow> ys. sweep_rank (y_pc y)) \<le> 3 * length ys" for ys
    by (induction ys) (use one in \<open>auto intro: order_trans [OF add_mono [OF one]]\<close>)
  from this [of "y_workers s"] show ?thesis by (simp add: key_rank_def split: key_pc.splits)
qed

lemma waiting_progress:
  assumes "keys_inv f s" "y_main s = Waiting"
  shows "\<exists>s'. key_step f s s'"
proof (cases "\<exists>w < length (y_workers s). y_pc (y_workers s ! w) \<noteq> Left")
  case True
  then obtain w where w: "w < length (y_workers s)" "y_pc (y_workers s ! w) \<noteq> Left" by blast
  show ?thesis
  proof (cases "y_pc (y_workers s ! w)")
    case (SweepAt i)
    with w(1) have "\<exists>s'. sweep_step f w s s'"
      by (metis (full_types) sweep_step.ctx_ended sweep_step.starts sweep_step.wraps)
    with assms(2) show ?thesis by (blast intro: key_step.sweep [unfolded alive_def])
  next
    case (Calling i)
    have "c_shards (y_client (y_workers s ! w)) \<noteq> []" using assms(1) w(1) by (simp add: keys_inv_def worker_ok_def)
    from sharded_throttle_returns [OF this] obtain c resp errs where
      "sharded_throttle (y_client (y_workers s ! w)) (g_keyPrefix f @ ''-'' @ FormatInt i) 0 0 undefined
        [\<lparr>q_Key = g_keyPrefix f @ ''-'' @ FormatInt i, q_Limit = key_limit_sent f, q_Cost = g_cost f,
          q_Peek = g_peek f\<rparr>] = Some (c, resp, errs)" by blast
    from answered [OF w(1) Calling refl this] assms(2) show ?thesis by (blast intro: key_step.sweep [unfolded alive_def])
  next
    case Leaving
    have "(\<Sum>y \<leftarrow> y_workers s. gone (y_pc y)) \<noteq> length (y_workers s)"
      using all_gone [of "y_workers s" "y_workers s ! w"] w(1) Leaving by auto
    then have "y_finished s <s y_concurrency s"
      using assms(1) gone_sum_le [of "y_workers s"] by (simp add: keys_inv_def int64_simps)
    from receives [OF this w(1) Leaving] assms(2) show ?thesis by (blast intro: key_step.main)
  qed (use w in simp)
next
  case False
  have "gone (y_pc y) = 1" if "y \<in> set (y_workers s)" for y
    using False that by (auto simp: in_set_conv_nth)
  then have "map (\<lambda>y. gone (y_pc y)) (y_workers s) = map (\<lambda>_. 1) (y_workers s)" by simp
  then have "(\<Sum>y \<leftarrow> y_workers s. gone (y_pc y)) = length (y_workers s)" by (simp only: sum_list_triv) simp
  then have "\<not> y_finished s <s y_concurrency s" using assms(1) by (simp add: keys_inv_def int64_simps)
  from prints [OF this] assms(2) show ?thesis by (blast intro: key_step.main)
qed

lemma key_progress: "keys_inv f s \<Longrightarrow> alive s \<Longrightarrow> \<exists>s'. key_step f s s'"
  using waiting_progress [of f s] by (auto simp: alive_def intro: key_step.prepares)

section \<open>The property\<close>

text \<open>The requests worker \<open>w\<close> sent: its slice from the smallest index up, over and again.\<close>

definition sweeps :: "int \<Rightarrow> int \<Rightarrow> int \<Rightarrow> int64 list \<Rightarrow> bool" where
  "sweeps w c n sent \<longleftrightarrow> (\<forall>j < length sent. sint (sent ! j) = w + c * int (j mod slice_size w c n))"

lemma worker_ok_sweeps: "worker_ok w c n y \<Longrightarrow> \<exists>i. sweep_pos (int w) c n (y_sent y) i"
  by (auto simp: worker_ok_def split: sweep_pc.splits)

text \<open>
  C39 (termination). A run of the keyspace tool with fewer than \<open>2 ^ 62\<close> keys (so that the addition in
  the loop cannot overflow) ends with its context: from then on at most three steps for each worker
  and two of \<open>main\<close> are left, and until \<open>main\<close> has printed its last line or panicked some step can be
  taken. Each worker sends its slice, the indices with its remainder modulo the number of workers, from
  the smallest up and over again, so that once every worker has sent as many requests as its slice has
  indices, every key has been touched. The last line is printed when every worker has reported back,
  and counts every request sent. If \<open>-report-interval\<close> is positive, \<open>main\<close> does not panic; if it is not,
  nothing checks it and \<open>main\<close> does nothing but panic when it makes its ticker.
\<close>

theorem key_run_ends:
  assumes "start_keys f = Some s0" "sint (g_numKeys f) < 2 ^ 62"
    and "key_steps f m s0 s" "key_steps f n s t"
  shows "(y_ctxDone s \<longrightarrow> n \<le> 3 * length (y_workers t) + 2)
    \<and> (y_main t = Preparing \<or> y_main t = Waiting \<longrightarrow> (\<exists>u. key_step f t u))
    \<and> (0 < sint (g_reportInterval f) \<longrightarrow> y_main t \<noteq> Crashed)
    \<and> (sint (g_reportInterval f) \<le> 0 \<longrightarrow> y_main t = Preparing \<or> y_main t = Crashed)
    \<and> (\<forall>w < length (y_workers t).
          sweeps (int w) (sint (y_concurrency t)) (sint (g_numKeys f)) (y_sent (y_workers t ! w)))
    \<and> ((\<forall>w < length (y_workers t).
          slice_size (int w) (sint (y_concurrency t)) (sint (g_numKeys f)) \<le> length (y_sent (y_workers t ! w))) \<longrightarrow>
        {0..<sint (g_numKeys f)} \<subseteq> (\<Union>y \<in> set (y_workers t). sint ` set (y_sent y)))
    \<and> (\<forall>st. y_main t = Printed st \<longrightarrow> (\<forall>y \<in> set (y_workers t). y_pc y = Left)
        \<and> k_requests st = of_nat (\<Sum>y \<leftarrow> y_workers t. length (y_sent y)))"
proof -
  let ?c = "sint (y_concurrency t)" and ?n = "sint (g_numKeys f)"
  have s: "keys_inv f s" using key_steps_inv [OF assms(3) start_keys_inv [OF assms(1)] assms(2)] .
  have t: "keys_inv f t" using key_steps_inv [OF assms(4) s assms(2)] .
  have len: "length (y_workers t) = length (y_workers s)"
    using key_steps_workers [OF assms(4)] by simp
  have "n \<le> 3 * length (y_workers t) + 2" if "y_ctxDone s"
    using key_steps_rank [OF assms(4) that] key_rank_bound [of s] len by simp
  moreover have "\<exists>u. key_step f t u" if "y_main t = Preparing \<or> y_main t = Waiting"
    using key_progress [OF t] that by (simp add: alive_def)
  moreover have "0 < sint (g_reportInterval f) \<longrightarrow> y_main t \<noteq> Crashed"
    "sint (g_reportInterval f) \<le> 0 \<longrightarrow> y_main t = Preparing \<or> y_main t = Crashed"
    using t by (auto simp: keys_inv_def)
  moreover have pos: "\<exists>i. sweep_pos (int w) ?c ?n (y_sent (y_workers t ! w)) i" if "w < length (y_workers t)" for w
    using t that by (intro worker_ok_sweeps) (simp add: keys_inv_def)
  then have "sweeps (int w) ?c ?n (y_sent (y_workers t ! w))" if "w < length (y_workers t)" for w
    using that by (auto simp: sweeps_def sweep_pos_def)
  moreover have "{0..<?n} \<subseteq> (\<Union>y \<in> set (y_workers t). sint ` set (y_sent y))"
    if "\<forall>w < length (y_workers t). slice_size (int w) ?c ?n \<le> length (y_sent (y_workers t ! w))"
  proof
    fix k assume k: "k \<in> {0..<?n}"
    have c: "0 < ?c" "?c \<le> ?n" "int (length (y_workers t)) = ?c" using t by (simp_all add: keys_inv_def)
    define w where "w = nat (k mod ?c)"
    have w: "int w = k mod ?c" "w < length (y_workers t)" using c by (simp_all add: w_def nat_less_iff)
    obtain i where "sweep_pos (int w) ?c ?n (y_sent (y_workers t ! w)) i" using pos [OF w(2)] by blast
    moreover have "int w < ?c" using w(2) c(3) by simp
    ultimately have "{k. 0 \<le> k \<and> k < ?n \<and> k mod ?c = int w} \<subseteq> sint ` set (y_sent (y_workers t ! w))"
      using that w(2) c(2) by (intro sweep_covers) simp_all
    with k w show "k \<in> (\<Union>y \<in> set (y_workers t). sint ` set (y_sent y))" by fastforce
  qed
  moreover have "(\<forall>y \<in> set (y_workers t). y_pc y = Left) \<and> k_requests st = of_nat (\<Sum>y \<leftarrow> y_workers t. length (y_sent y))"
    if "y_main t = Printed st" for st
    using t that all_gone [of "y_workers t"] by (auto simp: keys_inv_def int64_simps)
  ultimately show ?thesis by blast
qed

text \<open>A run with the flags as declared, interrupted at once.\<close>

theorem key_run_ends_witness:
  "\<exists>s0 s. start_keys key_defaults = Some s0 \<and> key_steps key_defaults 0 s0 s \<and> y_ctxDone s
     \<and> (\<exists>u. key_step key_defaults s u)
     \<and> (\<forall>n t. key_steps key_defaults n s t \<longrightarrow> n \<le> 3 * length (y_workers t) + 2 \<and> y_main t \<noteq> Crashed)"
proof -
  have "splitAddrs ''localhost:9000'' = [''localhost:9000'']" by code_simp
  then obtain s0 where s0: "start_keys key_defaults = Some s0" "y_main s0 = Preparing"
    by (simp add: start_keys_def key_defaults_def keyspace_flags_def int64_simps NewShardedClient_def Let_def)
  let ?s = "s0\<lparr>y_ctxDone := True\<rparr>"
  have "alive s0" using s0(2) by (simp add: alive_def)
  then have run: "key_steps key_defaults 0 s0 ?s" by (rule key_steps.clock [OF key_steps.none ctx])
  have "sint (g_numKeys key_defaults) < 2 ^ 62" by (simp add: key_defaults_def)
  note ends = key_run_ends [OF s0(1) this run]
  from ends [OF key_steps.none] s0(2) have "\<exists>u. key_step key_defaults ?s u" by simp
  moreover have "n \<le> 3 * length (y_workers t) + 2 \<and> y_main t \<noteq> Crashed" if "key_steps key_defaults n ?s t" for n t
    using ends [OF that] by (simp add: key_defaults_def)
  ultimately show ?thesis using s0(1) run by (intro exI [of _ s0] exI [of _ ?s]) simp
qed

end
