(* ===== verification/Spec2Isabelle.thy ===== *)
theory Spec2Isabelle
  imports EndToEnd TxProgress TimedServer ConcurrentLimit ConcurrentConns GcTransparent PipelineProps BreakerSteps Command LoadRun KeyRun
begin

text \<open>
  DeadHorse: a rate limiter. A client asks whether requests may pass ("entries": a key, a limit, a
  cost); a server keeps, per key, one number - the theoretical arrival time (TAT) of a leaky bucket -
  and answers with \<open>Throttled\<close>, \<open>Remaining\<close> and \<open>RetryAfter\<close>. The development models the
  Go code under src/ and proves what makes it correct, from the arithmetic of one bucket to a call
  over the network.

  The program and how its parts interact.
  A \<open>Client\<close> (client/client.go) hashes each key (internal/fnv1a) to one \<open>shardConn\<close> (client/conn.go),
  which asks its circuit breaker (client/breaker.go) for leave, writes one DHP/1 line and waits for the
  matching line; calls are pipelined on one connection, matched by order. The server
  (server/textserver.go) reads lines, parses their entries (internal/dhp1) and calls its \<open>Throttler\<close>;
  \<open>InMemoryThrottler\<close> (server/throttling.go) locks the buckets of the call, found in the striped store
  (server/store.go), checks each entry (server/gcra.go) and writes back only if nothing was throttled.
  The server command (cmd/deadhorse) puts these together and stops them on a signal. Two tools drive
  a server through the client: a load generator and a keyspace filler (tools/).

  Theories and code.
  \<^item> \<open>Prelude\<close>, \<open>GoStrings\<close>: Go's 64-bit integers as \<open>64 word\<close>, panics as \<open>None\<close>, and the parts of
    \<open>strings\<close>, \<open>unicode\<close>, \<open>utf8\<close> and \<open>strconv\<close> the program uses, bytes being the characters of a
    \<open>string\<close>. \<open>Types\<close>: the structs and normalisations of types.go.
  \<^item> \<open>Gcra\<close>, \<open>GcraProps\<close>: server/gcra.go, function by function; \<open>gcra_spec\<close> is the same check on unbounded
    integers. The lemmas read each word operation as its integer, then follow a sequence of requests
    on one key and bound the cost it admits.
  \<^item> \<open>Fnv1a\<close>: the hash and \<open>Hash % n\<close>. \<open>Store\<close>: server/store.go; a \<open>*bucketState\<close> is an address in a
    heap, each stripe has a hot and a cold map. The lemmas keep the invariant \<open>store_inv\<close> and give
    each operation its effect on \<open>tat_of\<close>, the map from keys to TATs.
  \<^item> \<open>Throttler\<close>: the interface \<open>server.Throttler\<close> and the doubles of deadhorsetest/. \<open>Throttling\<close>,
    \<open>ThrottleProps\<close>: \<open>Throttle\<close> and \<open>evaluateRealGroup\<close>, with \<open>spec_throttle\<close> the same call on a plain map
    of TATs. \<open>Transactions\<close>: concurrent calls, one access to a stripe, a mutex or a bucket at a time,
    with the GC between them, as a step relation; \<open>SerialHeap\<close>, \<open>Serializability\<close>: that they amount to calls made one
    after the other, as long as the GC lets go of no bucket in use; \<open>TxProgress\<close>: that they cannot
    deadlock and end. \<open>GcTransparent\<close>: calls that take no time and GC turns, in time, and that turns no
    closer together than the burst windows do not show. \<open>TimedServer\<close>: the two together, concurrent calls
    and rotations on a clock. \<open>ConcurrentLimit\<close>: the rate limit that follows.
  \<^item> \<open>Dhp1\<close>, \<open>TextServer\<close>, \<open>ServerConn\<close>, \<open>TextServerProps\<close>: internal/dhp1 and server/textserver.go, from
    \<open>parseEntry\<close> to \<open>handleConn\<close>; the events of server/metrics.go are a log. \<open>Replies\<close>: the replies of the
    protocol as a datatype, and that nothing else is written. \<open>ConcurrentConns\<close>: many connections at
    once are answered as one would be. \<open>Lifecycle\<close>: \<open>ListenAndServe\<close> and \<open>Close\<close>, as
    a step relation. \<open>Command\<close>: cmd/deadhorse/main.go, the process, its goroutines and its end.
  \<^item> \<open>Wire\<close>, \<open>WireProps\<close>: \<open>validateKey\<close>, \<open>encodeThrottle\<close> and \<open>decodeResult\<close> of client/conn.go.
    \<open>Breaker\<close>: client/breaker.go, one operation in one piece, and the closed / open / half-open machine
    it implements; \<open>BreakerSteps\<close>: the same operations, one atomic access at a time. \<open>ShardConn\<close>,
    \<open>ShardConnProps\<close>: \<open>shardConn.throttle\<close>, with what the network does to the call as an argument.
    \<open>Pipeline\<close>, \<open>PipelineProps\<close>: \<open>ensureConn\<close>, \<open>submit\<close>, \<open>readLoop\<close>, \<open>abort\<close>, \<open>drainPending\<close> and \<open>close\<close> as
    steps of many calls and readers, every channel operation and every write on its own. \<open>Client\<close>: client/client.go and client/simple.go.
  \<^item> tools/loadtest: \<open>LoadStats\<close> (stats.go), \<open>LoadTest\<close> (flags and the choice of keys) and \<open>LoadRun\<close> (its
    goroutines and channels). tools/keyspace: \<open>Keyspace\<close> (flags, counters, the STATS query) and \<open>KeyRun\<close>
    (its workers and main loop). Both call the sharded client of \<open>Client\<close>.
  \<^item> \<open>EndToEnd\<close> and this theory: what holds of client, wire and server together.

  Interfaces. \<open>bucket_store\<close> (\<open>Store\<close>) is what the throttler relies on in the store - finding or making
  a bucket changes no TAT, a write changes one; the interpretation \<open>buckets\<close> proves it of the model of
  store.go. \<open>throttler_contract\<close> (\<open>Throttler\<close>) is what the server relies on - a call returns, its
  responses line up with its entries; \<open>no_op\<close> and \<open>always_true\<close> prove it of the test doubles and
  \<open>in_memory\<close> (\<open>ThrottleProps\<close>) of \<open>InMemoryThrottler\<close>, where the lemmas about dispatch and the
  connection loop are used; \<open>serving\<close> (\<open>Command\<close>) adds that a call leaves the GC loop as it is.

  How concurrency is modelled. Sequential code is a function from state to state. Where goroutines
  meet, a step relation takes one critical section, one channel operation, one atomic access or one
  network call at a time, and the properties are of every reachable state:
  \<open>Transactions\<close> (calls on one store, with the bucket locks and the GC), \<open>TimedServer\<close> (the same on a
  clock), \<open>Pipeline\<close> (one connection), \<open>Lifecycle\<close> and \<open>Command\<close> (the
  listener and the process), \<open>BreakerSteps\<close> (the breaker), \<open>LoadRun\<close> and \<open>KeyRun\<close> (the tools). A \<open>Throttle\<close>
  call in \<open>Throttling\<close> runs alone; \<open>Serializability\<close> shows that concurrent calls do as if they did.
  It supposes that the GC lets go of no bucket in use, and its last property is why. In \<open>TimedServer\<close> the
  clock sees to that: there a call takes at most \<open>l\<close>, no Real entry has a burst window longer than \<open>d\<close>, and a
  stripe is not rotated again before \<open>d + l\<close> have passed. \<open>ConcurrentLimit\<close> and \<open>ConcurrentConns\<close> say
  what follows for the rate limit and for the replies.

  Bounds, fuel and loops. Integers keep their width: \<open>int64\<close> wraps, and the statements say where a
  sum must fit. Hypotheses on clocks ask for \<open>0 \<le> now\<close> nanoseconds since 1970. The server's line
  limit is the configured one; its reader's buffer has 4096 bytes, a connection 256 calls in flight,
  as in the code. No model uses fuel: loops over data are structural or have a measure, and the one
  that may not end, \<open>pickKey\<close>, is a \<open>partial_function (option)\<close>, with a property that says exactly when
  it returns. Where steps run until something stops them, a rank bounds those that are left: ten for
  the server process after a signal, \<open>14 + 10 * n\<close> for the load generator and \<open>3 * n + 2\<close> for the
  keyspace tool with \<open>n\<close> connections, once their context has ended. \<open>float64\<close> products in the statistics are modelled with
  their rounding, for sample counts below \<open>2 ^ 53\<close>.

  Parameters. What the code does not decide is an argument: the clock, the error of a context, the
  outcome of a dial, a read, a write or a flush, the numbers \<open>math/rand\<close> returns, when a ticker fires
  or a signal arrives. The theorems hold for every value of them, or name the one they need.

  Not modelled.
  \<^item> The Prometheus registry of server/metrics.go and what its HTTP endpoint answers: libraries the
    sources only call.
  \<^item> The layout of the tools' report and progress lines (\<open>print\<close>, \<open>printProgress\<close>, \<open>pctString\<close>), which is
    formatting of floating point, and log lines everywhere: they decide nothing that is computed.
  \<^item> The instants of timers, of \<open>pollStats\<close>'s ticker too: a context ends and a ticker fires at any point
    a model lets it.
\<close>

section \<open>Properties that span the components\<close>

text \<open>
  C1 (equivalence). Calling over the network is calling in process. For entries with valid keys and
  non-negative limits, a call a client's breaker lets through, carried as bytes to a server over
  \<open>InMemoryThrottler\<close> and back as the line that server writes, returns exactly the responses, and
  leaves exactly the TATs, of a direct call of \<open>InMemoryThrottler.Throttle\<close> at the same clock
  reading, and no error. (The request line must fit the server's limit.)
\<close>

theorem remote_call_is_local_call:
  assumes inv: "store_inv st" and "entries \<noteq> []"
    and keys: "list_all (\<lambda>e. validateKey (q_Key e) = None) entries"
    and sane: "list_all sane_entry entries"
    and fits: "int (length (encodeThrottle entries)) \<le> sint (NewTextServer m)"
    and net: "\<forall>j. env_flush env j" "fst (allow now b)"
  shows "\<exists>st' line ms local rs b'.
      handleConn InMemoryThrottle (Some throttler_keyCountEstimate) (NewTextServer m) env st (encodeThrottle entries)
        = Some (st', [line], ms)
    \<and> Throttle st None (env_clock env 0) entries = Some (local, rs, None)
    \<and> tat_of st' = tat_of local
    \<and> shard_throttle addr failOpen now later \<lparr>x_submit = None, x_wait = ResponseLine line, x_ctxErr = None\<rparr> b entries
        = Some (b', rs, [])"
proof -
  let ?l = "butlast (encodeThrottle entries)" and ?t = "env_clock env 0"
  let ?spec = "spec_throttle ?t (tat_of st) entries"
  note line = encoded_request_line [OF keys fits]
  have filt: "filter sane_entry entries = entries" using sane by (simp add: filter_id_conv list_all_iff)
  have len: "length (snd ?spec) = length entries"
    using spec_throttle_responses(1) [of ?t "tat_of st" entries] by (metis length_map)
  obtain local where local: "Throttle st None ?t entries = Some (local, snd ?spec, None)"
    "tat_of local = fst ?spec" using Throttle_effect [OF inv] by blast
  obtain st1 r ms where d: "dispatch InMemoryThrottle (Some throttler_keyCountEstimate) st ?t (env_uptime env 0) ?l
      = Some (st1, r, False, ms)" "tat_of st1 = fst ?spec"
    "decodeResult (r @ [CHR 0x0A]) entries = Inr (wire_answers entries (snd ?spec))"
    using dispatch_encoded [OF inv keys, of "Some throttler_keyCountEstimate" ?t "env_uptime env 0"]
    unfolding filt by blast
  have "0 \<le> sint (NewTextServer m)" using NewTextServer_pos [of m] by simp
  from in_memory.conn_loop_pipeline [OF inv _ net(1) this, of "[?l]" "Some throttler_keyCountEstimate" 0] line d(1)
  obtain ms' where conn: "handleConn InMemoryThrottle (Some throttler_keyCountEstimate) (NewTextServer m) env st
      (encodeThrottle entries) = Some (st1, [r @ [CHR 0x0A]], ms')"
    by (auto simp: handleConn_def)
  have "wire_answers entries (snd ?spec) = snd ?spec" by (rule wire_answers_sane [OF sane len])
  then have "shard_throttle addr failOpen now later
      \<lparr>x_submit = None, x_wait = ResponseLine (r @ [CHR 0x0A]), x_ctxErr = None\<rparr> b entries
    = Some (recordSuccess (snd (allow now b)), snd ?spec, [])"
    using d(3) by (intro shard_throttle_answered [OF keys assms(2) net(2)]) simp
  with conn local d(2) show ?thesis by fastforce
qed

theorem remote_call_is_local_call_witness:
  "\<exists>st' line ms local rs b'.
      handleConn InMemoryThrottle (Some throttler_keyCountEstimate) (NewTextServer 0)
          \<lparr>env_clock = (\<lambda>_. 5000), env_uptime = (\<lambda>_. 0), env_flush = (\<lambda>_. True), env_part = (\<lambda>_. 0)\<rparr>
          (fst (newStore 4 0)) (encodeThrottle [example_entry ''a'' 1 False, example_entry ''b'' 2 True])
        = Some (st', [line], ms)
    \<and> Throttle (fst (newStore 4 0)) None 5000 [example_entry ''a'' 1 False, example_entry ''b'' 2 True]
        = Some (local, rs, None)
    \<and> shard_throttle ''s:1'' True 50 60 \<lparr>x_submit = None, x_wait = ResponseLine line, x_ctxErr = None\<rparr>
        (newCircuitBreaker 5 1000) [example_entry ''a'' 1 False, example_entry ''b'' 2 True] = Some (b', rs, [])"
proof -
  let ?es = "[example_entry ''a'' 1 False, example_entry ''b'' 2 True]"
  let ?env = "\<lparr>env_clock = (\<lambda>_. 5000), env_uptime = (\<lambda>_. 0), env_flush = (\<lambda>_. True), env_part = (\<lambda>_. 0)\<rparr>"
  have "validateKey ''a'' = None" "validateKey ''b'' = None" by code_simp+
  then have keys: "list_all (\<lambda>e. validateKey (q_Key e) = None) ?es" by (simp add: example_entry_def)
  have sane: "list_all sane_entry ?es" by (simp add: sane_entry_def example_entry_def int64_simps)
  have size: "encoded_size ?es \<le> 1000"
    by (simp add: encoded_size_def maxEncodedEntryOverhead_def example_entry_def)
  have "int (length (encodeThrottle ?es)) \<le> sint (NewTextServer 0)"
    using order_trans [OF encodeThrottle_length size] by (simp add: NewTextServer_def DefaultMaxLineSize_def)
  from remote_call_is_local_call [OF newStore_inv _ keys sane this, of ?env 50 "newCircuitBreaker 5 1000" 4 0 "''s:1''" True 60]
  show ?thesis by (simp add: allow_def newCircuitBreaker_def) blast
qed

text \<open>
  C36 (error). An entry the wire rejects does not stop the others from committing. With one entry whose
  capacity is negative added to a call, the server answers ERR for it and commits the rest as if it
  were not there, while the client reports that entry throttled; the same call made in process commits
  nothing. So "some entry reported throttled" does not mean, for a remote call, that nothing was
  written.
\<close>

theorem rejected_entry_does_not_block_commit:
  assumes inv: "store_inv st"
    and keys: "list_all (\<lambda>e. validateKey (q_Key e) = None) es" "validateKey (q_Key bad) = None"
    and sane: "list_all sane_entry es" and bad: "l_Capacity (q_Limit bad) <s 0" "\<not> q_Peek bad"
  shows "\<exists>st' r ms alone rs local rs'.
      dispatch InMemoryThrottle kc st now up (butlast (encodeThrottle (es @ [bad]))) = Some (st', r, False, ms)
    \<and> Throttle st None now es = Some (alone, rs, None) \<and> tat_of st' = tat_of alone
    \<and> decodeResult (r @ [CHR 0x0A]) (es @ [bad]) = Inr (rs @ [rejected bad]) \<and> s_Throttled (rejected bad)
    \<and> Throttle st None now (es @ [bad]) = Some (local, rs', None) \<and> tat_of local = tat_of st"
proof -
  let ?spec = "spec_throttle now (tat_of st) es"
  have filt: "filter sane_entry (es @ [bad]) = es"
    using sane bad(1) by (simp add: filter_id_conv list_all_iff sane_entry_def)
  obtain st1 r ms where d: "dispatch InMemoryThrottle kc st now up (butlast (encodeThrottle (es @ [bad])))
      = Some (st1, r, False, ms)" "tat_of st1 = fst ?spec"
    "decodeResult (r @ [CHR 0x0A]) (es @ [bad]) = Inr (wire_answers (es @ [bad]) (snd ?spec))"
    using dispatch_encoded [OF inv, of "es @ [bad]" kc now up] keys unfolding filt by auto
  obtain alone where a: "Throttle st None now es = Some (alone, snd ?spec, None)" "tat_of alone = fst ?spec"
    using Throttle_effect [OF inv] by blast
  have len: "length (snd ?spec) = length es"
    using spec_throttle_responses(1) [of now "tat_of st" es] by (metis length_map)
  have ans: "wire_answers (es @ [bad]) (snd ?spec) = snd ?spec @ [rejected bad]"
    using wire_answers_append [OF sane len] bad(1) by (simp add: sane_entry_def)
  obtain local rs' where l: "Throttle st None now (es @ [bad]) = Some (local, rs', None)"
    using Throttle_effect [OF inv] by blast
  note f = Throttle_facts [OF inv l]
  have "\<not> committed (es @ [bad]) rs'"
    unfolding f(1) by (rule insane_not_committed [of bad]) (simp_all add: bad)
  then have "tat_of local = tat_of st" using f(2) by simp
  with d a ans l show ?thesis by (simp add: rejected_def)
qed

theorem rejected_entry_does_not_block_commit_witness:
  "\<exists>st' r ms alone rs.
      dispatch InMemoryThrottle (Some throttler_keyCountEstimate) (fst (newStore 4 0)) 5000 0
        (butlast (encodeThrottle ([example_entry ''a'' 1 False] @
           [(example_entry ''b'' 1 False)\<lparr>q_Limit := \<lparr>l_Capacity = - 1, l_Rate = \<lparr>r_Units = 1, r_Period = 1000\<rparr>\<rparr>\<rparr>])))
        = Some (st', r, False, ms)
    \<and> Throttle (fst (newStore 4 0)) None 5000 [example_entry ''a'' 1 False] = Some (alone, rs, None)
    \<and> tat_of st' = tat_of alone"
proof -
  let ?bad = "(example_entry ''b'' 1 False)\<lparr>q_Limit := \<lparr>l_Capacity = - 1, l_Rate = \<lparr>r_Units = 1, r_Period = 1000\<rparr>\<rparr>\<rparr>"
  have "validateKey ''a'' = None" "validateKey ''b'' = None" by code_simp+
  then have keys: "list_all (\<lambda>e. validateKey (q_Key e) = None) [example_entry ''a'' 1 False]"
    "validateKey (q_Key ?bad) = None"
    by (simp_all add: example_entry_def)
  have sane: "list_all sane_entry [example_entry ''a'' 1 False]"
    by (simp add: sane_entry_def example_entry_def int64_simps)
  have bad: "l_Capacity (q_Limit ?bad) <s 0" "\<not> q_Peek ?bad"
    by (simp_all add: example_entry_def int64_simps)
  from rejected_entry_does_not_block_commit [OF newStore_inv keys sane bad,
      where kc = "Some throttler_keyCountEstimate" and now = 5000 and up = 0]
  show ?thesis by blast
qed

text \<open>
  C4 (safety). Concurrent calls get their own answers, until a write on their connection fails. Take any
  reachable state of the connection under concurrent calls, and a call that was given the k-th line
  read, a line that answers one of the requests written and, should a write on the connection have
  failed since, was read before that. The server that reads what was written on the connection,
  whatever bytes follow, has as its k-th line the answer to that very call: its entries decode to the
  responses an in-process \<open>Throttle\<close> gives in the state the k requests before it left, whichever calls
  those came from. (Keys are valid, limits not negative, and lines fit the server's limit.)
\<close>

theorem concurrent_calls_get_own_answers:
  assumes "reachable s" and "s_result s i = Some (Response g k)"
    and "k < (case g_failed (s_gens s g) of None \<Rightarrow> length (g_wire (s_gens s g)) | Some n \<Rightarrow> n)"
    and keys: "\<forall>j. list_all (\<lambda>e. validateKey (q_Key e) = None) (es j)"
    and sane: "list_all sane_entry (es i)"
    and fits: "\<forall>j. int (length (encodeThrottle (es j))) \<le> sint (NewTextServer m)"
    and inv: "store_inv st" and net: "\<forall>j. env_flush env j"
  shows "\<exists>st' out ms before after rs.
      handleConn InMemoryThrottle kc (NewTextServer m) env st
        (concat (map (\<lambda>j. encodeThrottle (es j)) (g_wire (s_gens s g))) @ rest) = Some (st', out, ms)
    \<and> k < length out \<and> decodeResult (out ! k) (es i) = Inr rs
    \<and> dispatch_all InMemoryThrottle kc env 0 st
        (take k (map (\<lambda>j. butlast (encodeThrottle (es j))) (g_wire (s_gens s g)))) = Some before
    \<and> Throttle (fst before) None (env_clock env k) (es i) = Some (after, rs, None)"
proof -
  let ?wire = "g_wire (s_gens s g)" and ?l = "\<lambda>j. butlast (encodeThrottle (es j))"
  let ?now = "env_clock env k" and ?max = "NewTextServer m"
  have k: "k < length ?wire" "?wire ! k = i" using line_answers_its_request [OF assms(1-3)] by simp_all
  have lines: "list_all (request_line ?max) (map ?l ?wire)"
    using encoded_request_line(1) keys fits by (simp add: list_all_iff)
  have "?l j @ [CHR 0x0A] = encodeThrottle (es j)" for j
    using encoded_request_line(2) [OF spec [OF keys] spec [OF fits]] by blast
  then have bytes: "concat (map (\<lambda>j. encodeThrottle (es j)) ?wire) = concat (map (\<lambda>l. l @ [CHR 0x0A]) (map ?l ?wire))"
    by (simp add: comp_def)
  obtain t rs ms where all: "dispatch_all InMemoryThrottle kc env 0 st (map ?l ?wire) = Some (t, rs)"
      "length rs = length ?wire" "store_inv t"
    and serve: "\<And>t'' outs ms'. conn_loop InMemoryThrottle kc ?max env (length ?wire) t rest = Some (t'', outs, ms') \<Longrightarrow>
      conn_loop InMemoryThrottle kc ?max env 0 st (concat (map (\<lambda>l. l @ [CHR 0x0A]) (map ?l ?wire)) @ rest)
        = Some (t'', map (\<lambda>r. r @ [CHR 0x0A]) rs @ outs, ms @ ms')"
    using in_memory.conn_loop_prefix [OF inv lines net, of kc 0] by (simp, blast)
  obtain t' outs ms' where "conn_loop InMemoryThrottle kc ?max env (length ?wire) t rest = Some (t', outs, ms')"
    using in_memory.conn_loop_typed [OF all(3), of kc ?max env "length ?wire" rest] by blast
  from serve [OF this] have conn: "handleConn InMemoryThrottle kc ?max env st
      (concat (map (\<lambda>j. encodeThrottle (es j)) ?wire) @ rest)
    = Some (t', map (\<lambda>r. r @ [CHR 0x0A]) rs @ outs, ConnectionsInc # (ms @ ms') @ [ConnectionsDec])"
    unfolding bytes by (simp add: handleConn_def)
  have line: "(map (\<lambda>r. r @ [CHR 0x0A]) rs @ outs) ! k = rs ! k @ [CHR 0x0A]"
    using k(1) all(2) by (simp add: nth_append)
  obtain before after c ms2 where at: "dispatch_all InMemoryThrottle kc env 0 st (take k (map ?l ?wire)) = Some (before, take k rs)"
    "dispatch InMemoryThrottle kc before ?now (env_uptime env k) (?l i) = Some (after, rs ! k, c, ms2)"
    using dispatch_all_nth [OF all(1), of k] k by auto
  have "list_all (request_line ?max) (take k (map ?l ?wire))"
    using lines by (metis append_take_drop_id list_all_append)
  from in_memory.conn_loop_prefix [OF inv this net, of kc 0] at(1) have ok: "store_inv before" by auto
  let ?spec = "spec_throttle ?now (tat_of before) (es i)"
  have filt: "filter sane_entry (es i) = es i" using sane by (simp add: filter_id_conv list_all_iff)
  have len: "length (snd ?spec) = length (es i)"
    using spec_throttle_responses(1) [of ?now "tat_of before" "es i"] by (metis length_map)
  from dispatch_encoded [OF ok, of "es i" kc ?now "env_uptime env k"] keys at(2)
  have "decodeResult (rs ! k @ [CHR 0x0A]) (es i) = Inr (snd ?spec)"
    unfolding filt wire_answers_sane [OF sane len] by auto
  moreover obtain local where "Throttle before None ?now (es i) = Some (local, snd ?spec, None)"
    using Throttle_effect [OF ok] by blast
  ultimately show ?thesis
    using conn line at(1) k(1) all(2)
    by (intro exI [of _ t'] exI [of _ "map (\<lambda>r. r @ [CHR 0x0A]) rs @ outs"]
      exI [of _ "ConnectionsInc # (ms @ ms') @ [ConnectionsDec]"] exI [of _ "(before, take k rs)"]
      exI [of _ local] exI [of _ "snd ?spec"]) simp
qed

theorem concurrent_calls_get_own_answers_witness:
  "\<exists>st' out ms after rs.
      handleConn InMemoryThrottle None (NewTextServer 0)
        \<lparr>env_clock = (\<lambda>_. 5000), env_uptime = (\<lambda>_. 0), env_flush = (\<lambda>_. True), env_part = (\<lambda>_. 0)\<rparr> (fst (newStore 4 0))
        (concat (map (\<lambda>j. encodeThrottle [example_entry ''a'' 1 False]) (g_wire (s_gens one_answered 0))) @ ''PI'')
        = Some (st', out, ms)
    \<and> decodeResult (out ! 0) [example_entry ''a'' 1 False] = Inr rs
    \<and> Throttle (fst (newStore 4 0)) None 5000 [example_entry ''a'' 1 False] = Some (after, rs, None)"
proof -
  let ?es = "[example_entry ''a'' 1 False]"
  let ?env = "\<lparr>env_clock = (\<lambda>_. 5000), env_uptime = (\<lambda>_. 0), env_flush = (\<lambda>_. True), env_part = (\<lambda>_. 0)\<rparr>"
  have "validateKey ''a'' = None" by code_simp
  then have keys: "list_all (\<lambda>e. validateKey (q_Key e) = None) ?es" by (simp add: example_entry_def)
  have sane: "list_all sane_entry ?es" by (simp add: sane_entry_def example_entry_def int64_simps)
  have size: "encoded_size ?es \<le> 1000"
    by (simp add: encoded_size_def maxEncodedEntryOverhead_def example_entry_def)
  have fits: "int (length (encodeThrottle ?es)) \<le> sint (NewTextServer 0)"
    using order_trans [OF encodeThrottle_length size] by (simp add: NewTextServer_def DefaultMaxLineSize_def)
  have sound: "0 < (case g_failed (s_gens one_answered 0) of None \<Rightarrow> length (g_wire (s_gens one_answered 0)) | Some n \<Rightarrow> n)"
    by (simp add: one_answered_sel)
  from concurrent_calls_get_own_answers [OF reachable_one_answered one_answered_sel(1) sound, of "\<lambda>_. ?es" 0 "fst (newStore 4 0)" ?env None "''PI''"]
    keys sane fits newStore_inv
  show ?thesis by fastforce
qed

end
